(* ===== verification/Nos_Prelude.thy ===== *)
theory Nos_Prelude
  imports Main "HOL-Library.Word"
begin

text \<open>
  Shared vocabulary of the NOS development: the machine integer types of
  \<^verbatim>\<open>include/stdint.h\<close>, byte buffers, little-endian fields of packed
  structures, the bulk memory operations, and the word and list lemmas the
  component theories rest on.

  A byte buffer (\<open>buf\<close>) is a function from byte offsets to bytes; a C array
  of size \<open>n\<close> is such a function read and written below \<open>n\<close> only, and
  the component theories prove the bounds where the code depends on them.
\<close>

unbundle bit_operations_syntax

type_synonym u8 = "8 word"
type_synonym u16 = "16 word"
type_synonym u32 = "32 word"
type_synonym buf = "nat \<Rightarrow> u8"

text \<open>The kernel's \<^verbatim>\<open>panic\<close> halts the machine; an operation that can reach it, or that
  follows a pointer that may be null, returns an outcome.\<close>

datatype 'a outcome = Done 'a | Panic | NullDeref

named_theorems nos_word \<open>facts moving word arithmetic to natural numbers\<close>
named_theorems nos_buf \<open>reads of a buffer after a write\<close>

section \<open>Words and natural numbers\<close>

lemma unat_lt_2p32 [simp]: "unat (x :: u32) < 4294967296"
  using unsigned_less [of x, where ?'a = nat] by simp

lemma unat_lt_2p16 [simp]: "unat (x :: u16) < 65536"
  using unsigned_less [of x, where ?'a = nat] by simp

lemma unat_lt_2p8 [simp]: "unat (x :: u8) < 256"
  using unsigned_less [of x, where ?'a = nat] by simp

lemma unat_add32 [nos_word]:
  "unat (x :: u32) + unat y < 4294967296 \<Longrightarrow> unat (x + y) = unat x + unat y"
  by (simp add: unat_word_ariths)

lemma unat_sub32 [nos_word]: "y \<le> (x :: u32) \<Longrightarrow> unat (x - y) = unat x - unat y"
  by (rule unat_sub)

lemma unat_mult32 [nos_word]:
  "unat (x :: u32) * unat y < 4294967296 \<Longrightarrow> unat (x * y) = unat x * unat y"
  by (simp add: unat_word_ariths)

lemma unat_div32 [nos_word]: "unat ((x :: u32) div y) = unat x div unat y"
  by (rule unat_div_distrib)

lemma unat_mod32 [nos_word]: "unat ((x :: u32) mod y) = unat x mod unat y"
  by (rule unat_mod_distrib)

lemma word32_less_nat [nos_word]: "(x :: u32) < y \<longleftrightarrow> unat x < unat y"
  by (rule word_less_nat_alt)

lemma word32_le_nat [nos_word]: "(x :: u32) \<le> y \<longleftrightarrow> unat x \<le> unat y"
  by (rule word_le_nat_alt)

lemma unat_of_nat32 [nos_word]: "n < 4294967296 \<Longrightarrow> unat (of_nat n :: u32) = n"
  by (simp add: unat_of_nat)

lemma sint_of_nat32: "n < 2147483648 \<Longrightarrow> sint (of_nat n :: u32) = int n"
  by (simp add: signed_of_nat signed_take_bit_int_eq_self)

lemma of_nat_inj32: "n < 4294967296 \<Longrightarrow> k < 4294967296 \<Longrightarrow> (of_nat n :: u32) = of_nat k \<longleftrightarrow> n = k"
  using unat_of_nat32 [of n] unat_of_nat32 [of k] by metis

lemma unat_pred: "0 < unat (x :: 'a :: len word) \<Longrightarrow> unat (x - 1) = unat x - 1"
  by (metis unat_0 less_irrefl unat_minus_one)

lemma unat_succ:
  "unat (x :: u16) + 1 < 65536 \<Longrightarrow> unat (x + 1) = unat x + 1"
  "unat (y :: u32) + 1 < 4294967296 \<Longrightarrow> unat (y + 1) = unat y + 1"
  by (simp_all add: unat_word_ariths)

lemma unat_eq_iff32: "(x :: u32) = y \<longleftrightarrow> unat x = unat y"
  by (rule word_unat_eq_iff)

lemma unat_ucast16_32 [simp]: "unat (ucast (x :: u16) :: u32) = unat x"
  by (simp add: unsigned_ucast_eq take_bit_eq_mod order_less_trans [OF unat_lt_2p16])

lemma unat_ucast8_32 [simp]: "unat (ucast (x :: u8) :: u32) = unat x"
  by (simp add: unsigned_ucast_eq take_bit_eq_mod order_less_trans [OF unat_lt_2p8])

lemma unat_take_bit_mod: "unat (take_bit n (x :: u32)) = unat x mod 2 ^ n"
  unfolding unsigned_take_bit_eq by (rule take_bit_eq_mod)

lemma unat_and_not_mask: "unat (x AND NOT (mask n) :: u32) = unat x div 2 ^ n * 2 ^ n"
proof -
  have "x AND NOT (mask n) = push_bit n (drop_bit n x)"
    by (rule bit_eqI) (auto simp: bit_simps)
  then have "x AND NOT (mask n) = x - take_bit n x"
    using bits_ident [of n x] by (simp add: algebra_simps)
  moreover have "take_bit n x \<le> x"
    by (simp add: word_le_nat_alt unat_take_bit_mod)
  ultimately have "unat (x AND NOT (mask n)) = unat x - unat x mod 2 ^ n"
    by (simp add: unat_sub unat_take_bit_mod)
  then show ?thesis by (simp add: minus_mod_eq_mult_div mult.commute)
qed

lemma page_masks:
  "(0xFFF :: u32) = mask 12" "(0xFFFFF000 :: u32) = NOT (mask 12)"
  by (simp_all add: mask_eq_exp_minus_1)

lemma unat_page_off [nos_word]: "unat ((x :: u32) AND 0xFFF) = unat x mod 0x1000"
  unfolding page_masks take_bit_eq_mask [symmetric] unat_take_bit_mod by simp

lemma unat_page_base [nos_word]: "unat ((x :: u32) AND 0xFFFFF000) = unat x div 0x1000 * 0x1000"
  unfolding page_masks unat_and_not_mask by simp

section \<open>Little-endian fields\<close>

definition le16 :: "buf \<Rightarrow> nat \<Rightarrow> u16" where
  "le16 b p = ucast (b p) OR push_bit 8 (ucast (b (p + 1)))"

definition le32 :: "buf \<Rightarrow> nat \<Rightarrow> u32" where
  "le32 b p = ucast (b p) OR push_bit 8 (ucast (b (p + 1))) OR push_bit 16 (ucast (b (p + 2)))
     OR push_bit 24 (ucast (b (p + 3)))"

definition put16 :: "buf \<Rightarrow> nat \<Rightarrow> u16 \<Rightarrow> buf" where
  "put16 b p v = b(p := ucast v, p + 1 := ucast (drop_bit 8 v))"

definition put32 :: "buf \<Rightarrow> nat \<Rightarrow> u32 \<Rightarrow> buf" where
  "put32 b p v = b(p := ucast v, p + 1 := ucast (drop_bit 8 v), p + 2 := ucast (drop_bit 16 v),
     p + 3 := ucast (drop_bit 24 v))"

lemma le16_put16 [simp, nos_buf]: "le16 (put16 b p v) p = v"
proof -
  have "ucast (ucast v :: u8) OR push_bit 8 (ucast (ucast (drop_bit 8 v) :: u8)) = v"
    by (rule bit_word_eqI) (auto simp: bit_simps)
  then show ?thesis by (simp add: le16_def put16_def)
qed

lemma le32_put32 [simp, nos_buf]: "le32 (put32 b p v) p = v"
proof -
  have "(ucast (ucast v :: u8) OR push_bit 8 (ucast (ucast (drop_bit 8 v) :: u8))
      OR push_bit 16 (ucast (ucast (drop_bit 16 v) :: u8))
      OR push_bit 24 (ucast (ucast (drop_bit 24 v) :: u8))) = v"
    (is "?w = v")
  proof (rule bit_word_eqI)
    fix n
    assume "n < LENGTH(32)"
    then consider "n < 8" | "8 \<le> n" "n < 16" | "16 \<le> n" "n < 24" | "24 \<le> n" "n < 32"
      by fastforce
    then show "bit ?w n = bit v n"
      by cases (auto simp: bit_simps)
  qed
  then show ?thesis by (simp add: le32_def put32_def)
qed

text \<open>A field is unchanged by a write that does not touch its bytes.\<close>

lemma le16_cong: "(\<And>i. p \<le> i \<Longrightarrow> i < p + 2 \<Longrightarrow> b i = c i) \<Longrightarrow> le16 b p = le16 c p"
  by (simp add: le16_def)

lemma le32_cong: "(\<And>i. p \<le> i \<Longrightarrow> i < p + 4 \<Longrightarrow> b i = c i) \<Longrightarrow> le32 b p = le32 c p"
  by (simp add: le32_def)

lemma put16_outside: "i < p \<or> p + 2 \<le> i \<Longrightarrow> put16 b p v i = b i"
  by (auto simp: put16_def)

lemma put32_outside: "i < p \<or> p + 4 \<le> i \<Longrightarrow> put32 b p v i = b i"
  by (auto simp: put32_def)

lemma le16_put16_other [nos_buf]: "p + 2 \<le> q \<or> q + 2 \<le> p \<Longrightarrow> le16 (put16 b p v) q = le16 b q"
  by (rule le16_cong) (auto simp: put16_outside)

lemma le16_put32_other [nos_buf]: "p + 4 \<le> q \<or> q + 2 \<le> p \<Longrightarrow> le16 (put32 b p v) q = le16 b q"
  by (rule le16_cong) (auto simp: put32_outside)

lemma le32_put16_other [nos_buf]: "p + 2 \<le> q \<or> q + 4 \<le> p \<Longrightarrow> le32 (put16 b p v) q = le32 b q"
  by (rule le32_cong) (auto simp: put16_outside)

lemma le32_put32_other [nos_buf]: "p + 4 \<le> q \<or> q + 4 \<le> p \<Longrightarrow> le32 (put32 b p v) q = le32 b q"
  by (rule le32_cong) (auto simp: put32_outside)

text \<open>Writing a field with the value it has changes nothing; the last write of a field wins.\<close>

lemma le32_bytes:
  "ucast (le32 b p) = b p" "ucast (drop_bit 8 (le32 b p)) = b (p + 1)"
  "ucast (drop_bit 16 (le32 b p)) = b (p + 2)" "ucast (drop_bit 24 (le32 b p)) = b (p + 3)"
proof -
  show "ucast (le32 b p) = b p"
    by (rule bit_word_eqI; auto simp: le32_def bit_simps dest: bit_imp_le_length)
  show "ucast (drop_bit 8 (le32 b p)) = b (p + 1)"
    by (rule bit_word_eqI; auto simp: le32_def bit_simps dest: bit_imp_le_length)
  show "ucast (drop_bit 16 (le32 b p)) = b (p + 2)"
    by (rule bit_word_eqI; auto simp: le32_def bit_simps dest: bit_imp_le_length)
  show "ucast (drop_bit 24 (le32 b p)) = b (p + 3)"
    by (rule bit_word_eqI; auto simp: le32_def bit_simps dest: bit_imp_le_length)
qed

lemma le16_bytes: "ucast (le16 b p) = b p" "ucast (drop_bit 8 (le16 b p)) = b (p + 1)"
proof -
  show "ucast (le16 b p) = b p"
    by (rule bit_word_eqI; auto simp: le16_def bit_simps dest: bit_imp_le_length)
  show "ucast (drop_bit 8 (le16 b p)) = b (p + 1)"
    by (rule bit_word_eqI; auto simp: le16_def bit_simps dest: bit_imp_le_length)
qed

lemma put32_le32 [simp]: "put32 b p (le32 b p) = b"
  by (simp add: put32_def le32_bytes)

lemma put16_le16 [simp]: "put16 b p (le16 b p) = b"
  by (simp add: put16_def le16_bytes)

lemma put32_put32 [simp]: "put32 (put32 b p v) p w = put32 b p w"
  by (rule ext) (auto simp: put32_def)

lemma put16_put16 [simp]: "put16 (put16 b p v) p w = put16 b p w"
  by (rule ext) (auto simp: put16_def)

section \<open>Bulk copies\<close>

text \<open>
  \<open>memcpy_at d dp s sp n\<close> is the buffer \<open>d\<close> after \<open>n\<close> bytes of \<open>s\<close> from
  offset \<open>sp\<close> have been copied to offset \<open>dp\<close>; \<open>memset_at\<close> fills. The
  theory of \<^verbatim>\<open>kernel/string.c\<close> proves that the C loops compute these.
\<close>

definition memcpy_at :: "buf \<Rightarrow> nat \<Rightarrow> buf \<Rightarrow> nat \<Rightarrow> nat \<Rightarrow> buf" where
  "memcpy_at d dp s sp n = (\<lambda>i. if dp \<le> i \<and> i < dp + n then s (i - dp + sp) else d i)"

definition memset_at :: "buf \<Rightarrow> nat \<Rightarrow> u8 \<Rightarrow> nat \<Rightarrow> buf" where
  "memset_at d dp c n = (\<lambda>i. if dp \<le> i \<and> i < dp + n then c else d i)"

lemma memcpy_at_outside: "i < dp \<or> dp + n \<le> i \<Longrightarrow> memcpy_at d dp s sp n i = d i"
  by (auto simp: memcpy_at_def)

lemma memcpy_at_inside: "dp \<le> i \<Longrightarrow> i < dp + n \<Longrightarrow> memcpy_at d dp s sp n i = s (i - dp + sp)"
  by (simp add: memcpy_at_def)

lemma memcpy_at_0 [simp]: "memcpy_at d dp s sp 0 = d"
  by (rule ext) (auto simp: memcpy_at_def)

lemma memset_at_outside: "i < dp \<or> dp + n \<le> i \<Longrightarrow> memset_at d dp c n i = d i"
  by (auto simp: memset_at_def)

lemma le16_memcpy_other [nos_buf]:
  "q + 2 \<le> dp \<or> dp + n \<le> q \<Longrightarrow> le16 (memcpy_at d dp s sp n) q = le16 d q"
  by (rule le16_cong) (auto simp: memcpy_at_outside)

lemma le32_memcpy_other [nos_buf]:
  "q + 4 \<le> dp \<or> dp + n \<le> q \<Longrightarrow> le32 (memcpy_at d dp s sp n) q = le32 d q"
  by (rule le32_cong) (auto simp: memcpy_at_outside)

text \<open>The bytes of a buffer as a list, and a list laid out as a buffer.\<close>

definition buf_list :: "buf \<Rightarrow> nat \<Rightarrow> nat \<Rightarrow> u8 list" where
  "buf_list b p n = map (\<lambda>i. b (p + i)) [0..<n]"

definition list_buf :: "u8 list \<Rightarrow> buf" where
  "list_buf xs = (\<lambda>i. if i < length xs then xs ! i else 0)"

lemma length_buf_list [simp]: "length (buf_list b p n) = n"
  by (simp add: buf_list_def)

lemma nth_buf_list [simp]: "i < n \<Longrightarrow> buf_list b p n ! i = b (p + i)"
  by (simp add: buf_list_def)

lemma buf_list_list_buf [simp]: "buf_list (list_buf xs) 0 (length xs) = xs"
  by (rule nth_equalityI) (auto simp: list_buf_def)

lemma buf_list_cong:
  "(\<And>i. p \<le> i \<Longrightarrow> i < p + n \<Longrightarrow> b i = c i) \<Longrightarrow> buf_list b p n = buf_list c p n"
  by (simp add: buf_list_def)

lemma buf_list_memcpy: "buf_list (memcpy_at d p s q n) p n = buf_list s q n"
  by (rule nth_equalityI) (auto simp: memcpy_at_def add.commute)

lemma buf_list_0 [simp]: "buf_list b p 0 = []"
  by (simp add: buf_list_def)

lemma buf_list_append: "buf_list b p m @ buf_list b (p + m) n = buf_list b p (m + n)"
  by (rule nth_equalityI) (auto simp: nth_append)

end
