(* ===== verification/Ring.thy ===== *)
theory Ring
  imports Nos_Prelude
begin

text \<open>
  Circular buffers. The pipe, the console channels, the keyboard and the TCP
  receive queue all keep a fixed array with a
  write index and a read index, leave one slot unused, and move data with the
  same two loops: put items until the input is exhausted or the ring is full,
  take items until enough were taken or the ring is empty.

  \<open>fill\<close> and \<open>drain\<close> are those loops over the component's own loop bodies.
  The locale \<open>ring\<close> is the contract a component's bodies have to meet; its
  lemmas describe the loops as list operations on the queued items.
\<close>

section \<open>The two loops\<close>

fun fill :: "('r \<Rightarrow> 'a \<Rightarrow> 'r option) \<Rightarrow> 'r \<Rightarrow> 'a list \<Rightarrow> nat \<times> 'r" where
  "fill put r [] = (0, r)"
| "fill put r (x # xs) =
     (case put r x of
        None \<Rightarrow> (0, r)
      | Some r' \<Rightarrow> (let (n, r'') = fill put r' xs in (Suc n, r'')))"

fun drain :: "('r \<Rightarrow> ('a \<times> 'r) option) \<Rightarrow> 'r \<Rightarrow> nat \<Rightarrow> 'a list \<times> 'r" where
  "drain get r 0 = ([], r)"
| "drain get r (Suc n) =
     (case get r of
        None \<Rightarrow> ([], r)
      | Some (x, r') \<Rightarrow> (let (xs, r'') = drain get r' n in (x # xs, r'')))"

section \<open>The contract\<close>

locale ring =
  fixes put :: "'r \<Rightarrow> 'a \<Rightarrow> 'r option"
    and get :: "'r \<Rightarrow> ('a \<times> 'r) option"
    and items :: "'r \<Rightarrow> 'a list"
    and invar :: "'r \<Rightarrow> bool"
    and cap :: nat
  assumes items_bound: "invar r \<Longrightarrow> length (items r) \<le> cap"
    and put_full: "invar r \<Longrightarrow> put r x = None \<longleftrightarrow> length (items r) = cap"
    and put_items: "invar r \<Longrightarrow> put r x = Some r' \<Longrightarrow> items r' = items r @ [x]"
    and put_invar: "invar r \<Longrightarrow> put r x = Some r' \<Longrightarrow> invar r'"
    and get_empty: "invar r \<Longrightarrow> get r = None \<longleftrightarrow> items r = []"
    and get_items: "invar r \<Longrightarrow> get r = Some (x, r') \<Longrightarrow> items r = x # items r'"
    and get_invar: "invar r \<Longrightarrow> get r = Some (x, r') \<Longrightarrow> invar r'"
begin

lemma fill_spec:
  assumes "invar r" and "fill put r xs = (n, r')"
  shows "invar r' \<and> n = min (length xs) (cap - length (items r)) \<and> items r' = items r @ take n xs"
  using assms
proof (induction xs arbitrary: r n)
  case Nil
  then show ?case by simp
next
  case (Cons x xs)
  show ?case
  proof (cases "put r x")
    case None
    with Cons.prems show ?thesis using put_full [of r x] by simp
  next
    case (Some s)
    obtain m s' where s': "fill put s xs = (m, s')" by force
    with Cons.prems Some have n: "n = Suc m" "r' = s'" by auto
    have inv: "invar s" using Cons.prems Some put_invar by blast
    have it: "items s = items r @ [x]" using Cons.prems Some put_items by blast
    have "length (items r) < cap"
      using items_bound [OF inv] it by simp
    then show ?thesis
      using Cons.IH [OF inv] s' n it by auto
  qed
qed

lemma drain_spec:
  assumes "invar r" and "drain get r n = (xs, r')"
  shows "invar r' \<and> xs = take n (items r) \<and> items r' = drop n (items r)"
  using assms
proof (induction n arbitrary: r xs)
  case 0
  then show ?case by simp
next
  case (Suc n)
  show ?case
  proof (cases "get r")
    case None
    with Suc.prems show ?thesis using get_empty [of r] by auto
  next
    case (Some p)
    obtain x s where p: "p = (x, s)" by force
    obtain ys s' where s': "drain get s n = (ys, s')" by force
    with Suc.prems Some p have xs: "xs = x # ys" "r' = s'" by auto
    have inv: "invar s" and it: "items r = x # items s"
      using Suc.prems Some p get_invar get_items by blast+
    show ?thesis
      using Suc.IH [OF inv] s' xs it by auto
  qed
qed

lemma fill_invar: "invar r \<Longrightarrow> invar (snd (fill put r xs))"
  using fill_spec [of r xs "fst (fill put r xs)" "snd (fill put r xs)"] by simp

lemma drain_invar: "invar r \<Longrightarrow> invar (snd (drain get r n))"
  using drain_spec [of r n "fst (drain get r n)" "snd (drain get r n)"] by simp

text \<open>What is put into an empty ring and fits comes out again, in order.\<close>

lemma fill_drain:
  assumes "invar r" and "items r = []" and "length xs \<le> cap"
  shows "fst (drain get (snd (fill put r xs)) (length xs)) = xs"
proof -
  obtain n r' where f: "fill put r xs = (n, r')" by force
  then have r': "invar r'" "items r' = xs"
    using fill_spec [OF assms(1) f] assms(2,3) by auto
  obtain ys s where d: "drain get r' (length xs) = (ys, s)" by force
  show ?thesis
    using drain_spec [OF r'(1) d] r'(2) f d by simp
qed

end

section \<open>Index arithmetic\<close>

text \<open>The queued items of an array of size \<open>sz\<close> with read index \<open>t\<close> and write index \<open>h\<close>.\<close>

definition ring_list :: "nat \<Rightarrow> (nat \<Rightarrow> 'a) \<Rightarrow> nat \<Rightarrow> nat \<Rightarrow> 'a list" where
  "ring_list sz a t h = map (\<lambda>k. a ((t + k) mod sz)) [0..<(h + sz - t) mod sz]"

lemma ring_dist:
  fixes t h sz :: nat
  assumes "t < sz" and "h < sz"
  shows "(h + sz - t) mod sz = (if t \<le> h then h - t else h + sz - t)"
proof (cases "t \<le> h")
  case True
  then have "h + sz - t = (h - t) + sz" by simp
  then have "(h + sz - t) mod sz = (h - t) mod sz" by simp
  with True assms show ?thesis by simp
next
  case False
  with assms show ?thesis by simp
qed

lemma ring_next: "(h :: nat) < sz \<Longrightarrow> (h + 1) mod sz = (if h + 1 = sz then 0 else h + 1)"
  by (auto simp: mod_less)

lemma length_ring_list: "length (ring_list sz a t h) = (h + sz - t) mod sz"
  by (simp add: ring_list_def)

lemma ring_list_bound:
  assumes "t < sz" and "h < sz"
  shows "length (ring_list sz a t h) \<le> sz - 1"
  using assms by (auto simp: length_ring_list ring_dist)

lemma ring_list_empty_iff:
  assumes "t < sz" and "h < sz"
  shows "ring_list sz a t h = [] \<longleftrightarrow> t = h"
proof -
  have "ring_list sz a t h = [] \<longleftrightarrow> length (ring_list sz a t h) = 0" by simp
  also have "\<dots> \<longleftrightarrow> t = h"
    using assms by (auto simp: length_ring_list ring_dist)
  finally show ?thesis .
qed

lemma ring_list_full_iff:
  assumes "t < sz" and "h < sz"
  shows "(h + 1) mod sz = t \<longleftrightarrow> length (ring_list sz a t h) = sz - 1"
  unfolding length_ring_list ring_dist [OF assms] ring_next [OF assms(2)]
  using assms by auto

lemma ring_dist_push:
  fixes t h sz :: nat
  assumes "t < sz" and "h < sz" and "(h + 1) mod sz \<noteq> t"
  shows "((h + 1) mod sz + sz - t) mod sz = Suc ((h + sz - t) mod sz)"
proof (cases "h + 1 = sz")
  case True
  then have "t \<le> h" "0 < t" "(h + 1) mod sz = 0" using assms by auto
  with True assms show ?thesis by (simp add: ring_dist)
next
  case False
  then have n: "h + 1 < sz" "(h + 1) mod sz = h + 1" using assms by auto
  show ?thesis
    unfolding n(2) ring_dist [OF assms(1,2)] ring_dist [OF assms(1) n(1)] using assms n by auto
qed

lemma ring_index_end:
  fixes t h sz :: nat
  assumes "t < sz" and "h < sz"
  shows "(t + (h + sz - t) mod sz) mod sz = h"
  using assms by (cases "t \<le> h") (simp_all add: ring_dist)

lemma ring_index_before:
  fixes t h sz k :: nat
  assumes "t < sz" and "h < sz" and "k < (h + sz - t) mod sz"
  shows "(t + k) mod sz \<noteq> h"
proof (cases "t + k < sz")
  case True
  then have "(t + k) mod sz = t + k" by simp
  with True assms show ?thesis by (cases "t \<le> h") (simp_all add: ring_dist)
next
  case False
  have "t + k < sz + sz" using assms by (cases "t \<le> h") (simp_all add: ring_dist)
  with False have "(t + k) mod sz = t + k - sz" by (simp add: mod_if)
  with False assms show ?thesis by (cases "t \<le> h") (simp_all add: ring_dist)
qed

lemma ring_list_push:
  assumes "t < sz" and "h < sz" and "(h + 1) mod sz \<noteq> t"
  shows "ring_list sz (a(h := x)) t ((h + 1) mod sz) = ring_list sz a t h @ [x]"
  unfolding ring_list_def ring_dist_push [OF assms]
  by (simp add: ring_index_end [OF assms(1,2)] ring_index_before [OF assms(1,2)])

lemma ring_dist_pop:
  fixes t h sz :: nat
  assumes "t < sz" and "h < sz" and "t \<noteq> h"
  shows "(h + sz - t) mod sz = Suc ((h + sz - (t + 1) mod sz) mod sz)"
proof (cases "t + 1 = sz")
  case True
  then have "h < t" "(t + 1) mod sz = 0" using assms by auto
  with True assms show ?thesis by (simp add: ring_dist)
next
  case False
  then have n: "t + 1 < sz" "(t + 1) mod sz = t + 1" using assms by auto
  show ?thesis
    unfolding n(2) ring_dist [OF assms(1,2)] ring_dist [OF n(1) assms(2)] using assms n by auto
qed

lemma ring_list_pop:
  assumes "t < sz" and "h < sz" and "t \<noteq> h"
  shows "ring_list sz a t h = a t # ring_list sz a ((t + 1) mod sz) h"
proof -
  have shift: "((t + Suc 0) mod sz + k) mod sz = (t + Suc k) mod sz" for k
    by (simp add: mod_simps)
  show ?thesis
    unfolding ring_list_def ring_dist_pop [OF assms] upt_conv_Cons [OF zero_less_Suc]
      map_Suc_upt [symmetric]
    using assms(1) by (simp add: shift del: add_Suc_right)
qed

section \<open>Rings kept in an array\<close>

text \<open>
  The shape every ring of the kernel has: an array with a write index \<open>wi\<close> and a
  read index \<open>ri\<close>, one slot always unused. Such a structure meets the contract
  with capacity \<open>sz - 1\<close>.
\<close>

locale array_ring =
  fixes put :: "'r \<Rightarrow> 'a \<Rightarrow> 'r option"
    and get :: "'r \<Rightarrow> ('a \<times> 'r) option"
    and arr :: "'r \<Rightarrow> nat \<Rightarrow> 'a"
    and wi :: "'r \<Rightarrow> nat"
    and ri :: "'r \<Rightarrow> nat"
    and sz :: nat
    and items :: "'r \<Rightarrow> 'a list"
    and invar :: "'r \<Rightarrow> bool"
  assumes items_eq: "items r = ring_list sz (arr r) (ri r) (wi r)"
    and invar_eq: "invar r \<longleftrightarrow> wi r < sz \<and> ri r < sz"
    and put_None: "put r x = None \<longleftrightarrow> (wi r + 1) mod sz = ri r"
    and put_Some: "put r x = Some r' \<Longrightarrow>
      arr r' = (arr r)(wi r := x) \<and> wi r' = (wi r + 1) mod sz \<and> ri r' = ri r"
    and get_None: "get r = None \<longleftrightarrow> ri r = wi r"
    and get_Some: "get r = Some (x, r') \<Longrightarrow>
      x = arr r (ri r) \<and> arr r' = arr r \<and> wi r' = wi r \<and> ri r' = (ri r + 1) mod sz"

sublocale array_ring \<subseteq> ring put get items invar "sz - 1"
proof unfold_locales
  fix r r' :: 'r and x :: 'a
  assume inv: "invar r"
  then have b: "ri r < sz" "wi r < sz" by (simp_all add: invar_eq)
  show "length (items r) \<le> sz - 1"
    unfolding items_eq using b by (rule ring_list_bound)
  show "put r x = None \<longleftrightarrow> length (items r) = sz - 1"
    unfolding items_eq put_None using b by (rule ring_list_full_iff)
  show "get r = None \<longleftrightarrow> items r = []"
    unfolding items_eq get_None by (simp add: ring_list_empty_iff [OF b])
  { assume p: "put r x = Some r'"
    then have "(wi r + 1) mod sz \<noteq> ri r" using put_None [of r x] by auto
    then show "items r' = items r @ [x]"
      unfolding items_eq using put_Some [OF p] ring_list_push [OF b] by simp
    show "invar r'" using put_Some [OF p] b by (simp add: invar_eq) }
  { assume g: "get r = Some (x, r')"
    then have "ri r \<noteq> wi r" using get_None [of r] by auto
    then show "items r = x # items r'"
      unfolding items_eq using get_Some [OF g] ring_list_pop [OF b] by simp
    show "invar r'" using get_Some [OF g] b by (simp add: invar_eq) }
qed

end
