(* ===== verification/Pipe.thy ===== *)
theory Pipe
  imports Ring
begin

text \<open>
  \<^verbatim>\<open>kernel/pipe.c\<close>: a 512-byte ring with reference counts for its two kinds
  of ends. Each section the code runs with interrupts masked is one definition.
  The blocking operations yield with \<^verbatim>\<open>task_switch\<close> between such sections;
  \<open>env k\<close> is what the other tasks do to the pipe during the \<open>k\<close>-th yield, and
  a call that would wait forever has the value \<open>None\<close>.
\<close>

section \<open>The pipe object\<close>

definition PIPE_SZ :: nat where
  "PIPE_SZ = 512"

record pipe =
  pbuf :: "nat \<Rightarrow> u8"
  head :: nat
  tail :: nat
  readers :: int
  writers :: int

text \<open>A fresh pipe: the buffer comes from \<^verbatim>\<open>kmalloc\<close> and holds whatever was there.\<close>

definition pipe_create :: "(nat \<Rightarrow> u8) \<Rightarrow> pipe" where
  "pipe_create garbage = \<lparr>pbuf = garbage, head = 0, tail = 0, readers = 1, writers = 1\<rparr>"

definition pipe_addref :: "pipe \<Rightarrow> bool \<Rightarrow> pipe" where
  "pipe_addref p writable =
     (if writable then p\<lparr>writers := writers p + 1\<rparr> else p\<lparr>readers := readers p + 1\<rparr>)"

text \<open>The flag of the result says that the last end went away and the pipe was freed.\<close>

definition pipe_release :: "pipe \<Rightarrow> bool \<Rightarrow> pipe \<times> bool" where
  "pipe_release p writable =
     (let p' = (if writable then p\<lparr>writers := writers p - 1\<rparr> else p\<lparr>readers := readers p - 1\<rparr>)
      in (p', readers p' = 0 \<and> writers p' = 0))"

text \<open>The bodies of the two inner loops.\<close>

definition pipe_push :: "pipe \<Rightarrow> u8 \<Rightarrow> pipe option" where
  "pipe_push p b =
     (let next = (head p + 1) mod PIPE_SZ
      in if next = tail p then None
         else Some (p\<lparr>pbuf := (pbuf p)(head p := b), head := next\<rparr>))"

definition pipe_pop :: "pipe \<Rightarrow> (u8 \<times> pipe) option" where
  "pipe_pop p =
     (if tail p \<noteq> head p then Some (pbuf p (tail p), p\<lparr>tail := (tail p + 1) mod PIPE_SZ\<rparr>)
      else None)"

text \<open>The masked sections of the two blocking loops.\<close>

definition pipe_read_section :: "pipe \<Rightarrow> nat \<Rightarrow> u8 list \<times> pipe" where
  "pipe_read_section p len = drain pipe_pop p len"

definition pipe_write_section :: "pipe \<Rightarrow> u8 list \<Rightarrow> (nat \<times> pipe) option" where
  "pipe_write_section p rest = (if readers p = 0 then None else Some (fill pipe_push p rest))"

partial_function (option) pipe_read ::
  "(nat \<Rightarrow> pipe \<Rightarrow> pipe) \<Rightarrow> nat \<Rightarrow> pipe \<Rightarrow> nat \<Rightarrow> (u8 list \<times> pipe) option" where
  "pipe_read env k p len =
     (if len = 0 then Some ([], p)
      else if fst (pipe_read_section p len) \<noteq> [] then Some (pipe_read_section p len)
      else if writers (snd (pipe_read_section p len)) = 0 then Some (pipe_read_section p len)
      else pipe_read env (Suc k) (env k (snd (pipe_read_section p len))) len)"

text \<open>
  \<open>rest\<close> are the bytes from \<open>done\<close> on; the result is the return value of the call, the 32-bit \<^verbatim>\<open>len\<close>
  converted to a signed \<^verbatim>\<open>int\<close>.
\<close>

partial_function (option) pipe_write ::
  "(nat \<Rightarrow> pipe \<Rightarrow> pipe) \<Rightarrow> nat \<Rightarrow> pipe \<Rightarrow> nat \<Rightarrow> u8 list \<Rightarrow> (int \<times> pipe) option" where
  "pipe_write env k p len rest =
     (if rest = [] then Some (sint (of_nat len :: u32), p)
      else case pipe_write_section p rest of
        None \<Rightarrow> Some (-1, p)
      | Some r \<Rightarrow>
          if fst r < length rest
          then pipe_write env (Suc k) (env k (snd r)) len (drop (fst r) rest)
          else Some (sint (of_nat len :: u32), snd r))"

section \<open>The invariant and the ring contract\<close>

definition pipe_inv :: "pipe \<Rightarrow> bool" where
  "pipe_inv p \<longleftrightarrow> head p < PIPE_SZ \<and> tail p < PIPE_SZ"

definition pipe_items :: "pipe \<Rightarrow> u8 list" where
  "pipe_items p = ring_list PIPE_SZ (pbuf p) (tail p) (head p)"

interpretation pr: array_ring pipe_push pipe_pop pbuf head tail PIPE_SZ pipe_items pipe_inv
  by unfold_locales
    (auto simp: pipe_push_def pipe_pop_def pipe_items_def pipe_inv_def Let_def split: if_splits)

lemma pipe_create_inv [simp]: "pipe_inv (pipe_create g)" "pipe_items (pipe_create g) = []"
  by (simp_all add: pipe_inv_def pipe_create_def PIPE_SZ_def pipe_items_def ring_list_def)

lemma pipe_addref_inv [simp]:
  "pipe_inv (pipe_addref p w) = pipe_inv p" "pipe_items (pipe_addref p w) = pipe_items p"
  by (simp_all add: pipe_addref_def pipe_inv_def pipe_items_def)

lemma pipe_release_inv [simp]:
  "pipe_inv (fst (pipe_release p w)) = pipe_inv p"
  "pipe_items (fst (pipe_release p w)) = pipe_items p"
  by (simp_all add: pipe_release_def pipe_inv_def pipe_items_def Let_def)

lemma fill_pipe_ends [simp]:
  "readers (snd (fill pipe_push p xs)) = readers p"
  "writers (snd (fill pipe_push p xs)) = writers p"
  by (induction xs arbitrary: p)
    (simp_all add: pipe_push_def Let_def case_prod_beta split: option.splits)

lemma drain_pipe_ends [simp]:
  "readers (snd (drain pipe_pop p n)) = readers p"
  "writers (snd (drain pipe_pop p n)) = writers p"
  by (induction n arbitrary: p)
    (simp_all add: pipe_pop_def Let_def case_prod_beta split: option.splits)

lemma pipe_read_section_ends: "pipe_read_section p n = (xs, p') \<Longrightarrow> writers p' = writers p"
  by (metis drain_pipe_ends(2) pipe_read_section_def snd_conv)

lemma pipe_write_section_spec:
  assumes "pipe_inv p" and "pipe_write_section p xs = Some (n, p')"
  shows "pipe_inv p' \<and> n = min (length xs) (PIPE_SZ - 1 - length (pipe_items p)) \<and>
    pipe_items p' = pipe_items p @ take n xs"
  using assms pr.fill_spec by (simp add: pipe_write_section_def split: if_splits)

lemma pipe_read_section_spec:
  assumes "pipe_inv p" and "pipe_read_section p n = (xs, p')"
  shows "pipe_inv p' \<and> xs = take n (pipe_items p) \<and> pipe_items p' = drop n (pipe_items p)"
  using assms pr.drain_spec by (simp add: pipe_read_section_def)

section \<open>Any interleaving of readers and writers\<close>

text \<open>
  The tasks that share a pipe interleave at the masked sections. The log fields
  record every byte a section of \<^verbatim>\<open>pipe_write\<close> put in and every byte a section of
  \<^verbatim>\<open>pipe_read\<close> took out, in order.
\<close>

record pipe_sys =
  pp :: pipe
  sent :: "u8 list"
  rcvd :: "u8 list"

inductive pipe_step :: "pipe_sys \<Rightarrow> pipe_sys \<Rightarrow> bool" where
  wr: "pipe_write_section (pp s) xs = Some (n, p') \<Longrightarrow>
    pipe_step s (s\<lparr>pp := p', sent := sent s @ take n xs\<rparr>)"
| rd: "pipe_read_section (pp s) n = (xs, p') \<Longrightarrow>
    pipe_step s (s\<lparr>pp := p', rcvd := rcvd s @ xs\<rparr>)"
| addref: "pipe_step s (s\<lparr>pp := pipe_addref (pp s) w\<rparr>)"
| release: "pipe_step s (s\<lparr>pp := fst (pipe_release (pp s) w)\<rparr>)"

inductive pipe_reach :: "(nat \<Rightarrow> u8) \<Rightarrow> pipe_sys \<Rightarrow> bool" for g where
  start: "pipe_reach g \<lparr>pp = pipe_create g, sent = [], rcvd = []\<rparr>"
| step: "pipe_reach g s \<Longrightarrow> pipe_step s t \<Longrightarrow> pipe_reach g t"

definition pipe_sys_inv :: "pipe_sys \<Rightarrow> bool" where
  "pipe_sys_inv s \<longleftrightarrow> pipe_inv (pp s) \<and> sent s = rcvd s @ pipe_items (pp s)"

lemma pipe_step_inv: "pipe_step s t \<Longrightarrow> pipe_sys_inv s \<Longrightarrow> pipe_sys_inv t"
  by (induction rule: pipe_step.induct)
    (auto simp: pipe_sys_inv_def dest: pipe_write_section_spec pipe_read_section_spec)

lemma pipe_reach_inv: "pipe_reach g s \<Longrightarrow> pipe_sys_inv s"
  by (induction rule: pipe_reach.induct) (auto simp: pipe_sys_inv_def [of "\<lparr>pp = _, sent = _, rcvd = _\<rparr>"]
    intro: pipe_step_inv)

text \<open>
  C1: However the readers and writers of a pipe interleave, the bytes received so far
  followed by the bytes still buffered are exactly the bytes accepted from the writers,
  in order: nothing is lost, duplicated or reordered, and at most 511 bytes are buffered.
\<close>

theorem pipe_fifo:
  assumes "pipe_reach g s"
  shows "sent s = rcvd s @ pipe_items (pp s) \<and> length (pipe_items (pp s)) \<le> 511"
  using pipe_reach_inv [OF assms] pr.items_bound [of "pp s"]
  by (simp add: pipe_sys_inv_def PIPE_SZ_def)

theorem pipe_fifo_witness:
  "\<exists>s. pipe_reach (\<lambda>_. 0) s \<and> sent s = [7, 8] \<and> rcvd s = [7] \<and> pipe_items (pp s) = [8]"
proof -
  obtain p1 where p1: "pipe_write_section (pipe_create (\<lambda>_. 0)) [7, 8] = Some (2, p1)"
      "pipe_read_section p1 1 = ([7], snd (pipe_read_section p1 1))"
    by (simp add: pipe_write_section_def pipe_read_section_def pipe_create_def pipe_push_def
        pipe_pop_def PIPE_SZ_def)
  let ?s = "\<lparr>pp = snd (pipe_read_section p1 1), sent = [7, 8], rcvd = [7]\<rparr> :: pipe_sys"
  have "pipe_reach (\<lambda>_. 0) \<lparr>pp = p1, sent = [7, 8], rcvd = []\<rparr>"
    using pipe_reach.step [OF pipe_reach.start pipe_step.wr, of "\<lambda>_. 0" "[7, 8]" 2 p1] p1 by simp
  from pipe_reach.step [OF this pipe_step.rd, of 1 "[7]"] p1
  have r: "pipe_reach (\<lambda>_. 0) ?s" by simp
  from pipe_fifo [OF r] have "pipe_items (pp ?s) = [8]" by simp
  with r show ?thesis by (intro exI [of _ ?s]) simp
qed

section \<open>What the blocking calls return\<close>

text \<open>
  The pieces a blocked write is accepted in: each piece \<open>c\<close> is appended to what the pipe holds at that
  moment, and between two pieces the other tasks run.
\<close>

fun accepted :: "(nat \<Rightarrow> pipe \<Rightarrow> pipe) \<Rightarrow> nat \<Rightarrow> pipe \<Rightarrow> u8 list list \<Rightarrow> pipe \<Rightarrow> bool" where
  "accepted env k p [] p' \<longleftrightarrow> p' = p"
| "accepted env k p [c] p' \<longleftrightarrow> pipe_inv p' \<and> pipe_items p' = pipe_items p @ c"
| "accepted env k p (c # d # cs) p' \<longleftrightarrow>
     (\<exists>q. pipe_inv q \<and> pipe_items q = pipe_items p @ c \<and> accepted env (Suc k) (env k q) (d # cs) p')"

lemma accepted_Cons:
  "pipe_inv q \<Longrightarrow> pipe_items q = pipe_items p @ c \<Longrightarrow> accepted env (Suc k) (env k q) cs p' \<Longrightarrow> cs \<noteq> [] \<Longrightarrow>
    accepted env k p (c # cs) p'"
  by (cases cs) auto

definition writes :: "(nat \<Rightarrow> pipe \<Rightarrow> pipe) \<Rightarrow> nat \<Rightarrow> pipe \<Rightarrow> nat \<Rightarrow> u8 list \<Rightarrow> bool" where
  "writes env k p len xs \<longleftrightarrow> (\<exists>cs p'. pipe_write env k p len xs = Some (sint (of_nat len :: u32), p') \<and>
     concat cs = xs \<and> accepted env k p cs p')"

lemma writes_now:
  assumes "pipe_inv p" and "pipe_write_section p xs = Some (n, p')" and "xs = [] \<or> length xs \<le> n"
  shows "writes env k p len xs"
proof (cases "xs = []")
  case True
  then show ?thesis by (auto simp: writes_def pipe_write.simps [of env k p len "[]"] intro!: exI [of _ "[]"])
next
  case False
  with assms(3) pipe_write_section_spec [OF assms(1,2)]
  have "accepted env k p [xs] p'" by simp
  with False assms show ?thesis
    by (auto simp: writes_def pipe_write.simps [of env k p len xs] intro!: exI [of _ "[xs]"])
qed

lemma writes_later:
  assumes "pipe_inv p" and "pipe_write_section p xs = Some (n, p')" and "n < length xs"
    and "writes env (Suc k) (env k p') len (drop n xs)"
  shows "writes env k p len xs"
proof -
  from assms(4) obtain cs q where q: "pipe_write env (Suc k) (env k p') len (drop n xs) = Some (sint (of_nat len :: u32), q)"
      "concat cs = drop n xs" "accepted env (Suc k) (env k p') cs q"
    by (auto simp: writes_def)
  have "cs \<noteq> []" using q(2) assms(3) by auto
  then have "accepted env k p (take n xs # cs) q"
    using pipe_write_section_spec [OF assms(1,2)] q(3) accepted_Cons by blast
  moreover have "pipe_write env k p len xs = Some (sint (of_nat len :: u32), q)"
    using q(1) assms(2,3) by (subst pipe_write.simps) auto
  ultimately show ?thesis using q(2) by (auto simp: writes_def intro!: exI [of _ "take n xs # cs"])
qed

lemma pipe_write_returns_aux:
  assumes env: "\<And>k q. pipe_inv q \<Longrightarrow> pipe_inv (env k q) \<and> readers (env k q) \<noteq> 0 \<and>
      length (pipe_items (env k q)) < PIPE_SZ - 1"
    and "pipe_inv p" and "readers p \<noteq> 0" and "length (pipe_items p) < PIPE_SZ - 1"
  shows "writes env k p len xs"
  using assms(2-)
proof (induction "length xs" arbitrary: xs k p rule: less_induct)
  case less
  obtain n p' where s: "pipe_write_section p xs = Some (n, p')"
    using less.prems by (cases "fill pipe_push p xs") (simp add: pipe_write_section_def)
  show ?case
  proof (cases "xs = [] \<or> length xs \<le> n")
    case True
    then show ?thesis by (rule writes_now [OF less.prems(1) s])
  next
    case False
    have "pipe_inv p'" "0 < n"
      using pipe_write_section_spec [OF less.prems(1) s] less.prems(3) False by auto
    with False have "writes env (Suc k) (env k p') len (drop n xs)"
      using less.hyps [of "drop n xs" "env k p'" "Suc k"] env [of p' k] by simp
    then show ?thesis using False by (intro writes_later [OF less.prems(1) s]) simp_all
  qed
qed

text \<open>
  C23: A \<^verbatim>\<open>pipe_write\<close> whose other end is kept open and drained while the writer yields
  returns. It has then queued all its bytes, in order and each once, in pieces between which the other
  tasks ran, and its return value is its length as a signed 32-bit integer: the length itself below 2 GiB.
\<close>

theorem pipe_write_returns:
  assumes "\<And>k q. pipe_inv q \<Longrightarrow> pipe_inv (env k q) \<and> readers (env k q) \<noteq> 0 \<and>
      length (pipe_items (env k q)) < PIPE_SZ - 1"
    and "pipe_inv p" and "readers p \<noteq> 0"
  shows "\<exists>r cs p'. pipe_write env k p (length xs) xs = Some (r, p') \<and> concat cs = xs \<and> accepted env k p cs p' \<and>
    r = sint (of_nat (length xs) :: u32) \<and> (length xs < 2 ^ 31 \<longrightarrow> r = int (length xs))"
proof -
  have "writes env k p (length xs) xs"
  proof (cases "length (pipe_items p) < PIPE_SZ - 1 \<or> xs = []")
    case True
    then show ?thesis
      using pipe_write_returns_aux [of env p k "length xs" xs] assms writes_now [OF assms(2), of "[]"]
      by (auto simp: pipe_write_section_def)
  next
    case False
    obtain n p' where s: "pipe_write_section p xs = Some (n, p')"
      using assms(3) by (cases "fill pipe_push p xs") (simp add: pipe_write_section_def)
    have "pipe_inv p'" "n = 0"
      using pipe_write_section_spec [OF assms(2) s] False by auto
    then have "writes env (Suc k) (env k p') (length xs) xs"
      using pipe_write_returns_aux [of env "env k p'" "Suc k" "length xs" xs] assms(1) by simp
    then show ?thesis using False \<open>n = 0\<close> by (intro writes_later [OF assms(2) s]) simp_all
  qed
  then show ?thesis by (auto simp: writes_def sint_of_nat32)
qed

theorem pipe_write_returns_witness:
  "\<exists>cs p'. pipe_write (\<lambda>k q. q\<lparr>tail := head q, readers := 1\<rparr>) 0 (pipe_create (\<lambda>_. 0)) 600 (replicate 600 42) =
     Some (600, p') \<and> concat cs = replicate 600 42 \<and>
     accepted (\<lambda>k q. q\<lparr>tail := head q, readers := 1\<rparr>) 0 (pipe_create (\<lambda>_. 0)) cs p'"
  using pipe_write_returns [of "\<lambda>k q. q\<lparr>tail := head q, readers := 1\<rparr>" "pipe_create (\<lambda>_. 0)" 0 "replicate 600 42"]
  by (simp add: pipe_inv_def pipe_create_def pipe_items_def ring_list_def PIPE_SZ_def)

lemma pipe_read_now:
  assumes "pipe_inv p" and "pipe_items p \<noteq> [] \<or> writers p = 0" and "0 < len"
  shows "\<exists>xs p'. pipe_read env k p len = Some (xs, p') \<and> pipe_inv p' \<and>
    xs = take len (pipe_items p) \<and> pipe_items p' = drop len (pipe_items p) \<and> writers p' = writers p"
proof -
  obtain xs p' where s: "pipe_read_section p len = (xs, p')" by force
  have w: "writers p' = writers p"
    using s by (rule pipe_read_section_ends)
  show ?thesis
    using pipe_read_section_spec [OF assms(1) s] assms(2,3) s w
    by (auto simp: pipe_read.simps [of env k p len])
qed

text \<open>
  C24: A \<^verbatim>\<open>pipe_read\<close> of a positive \<open>len\<close> returns once the other tasks supply data or close the
  write end. It returns exactly the first \<open>len\<close> buffered bytes (all of them when there are fewer) of the
  pipe as it finds it, or as the other tasks leave it when it finds it empty with a write end open, removes
  exactly those bytes, and returns none only when the pipe is empty and no write end is left.
\<close>

theorem pipe_read_returns:
  fixes env :: "nat \<Rightarrow> pipe \<Rightarrow> pipe" and p :: pipe and k :: nat
  defines "q \<equiv> (if pipe_items p = [] \<and> writers p \<noteq> 0 then env k p else p)"
  assumes env: "\<And>k q. pipe_inv q \<Longrightarrow> pipe_inv (env k q) \<and> (pipe_items (env k q) \<noteq> [] \<or> writers (env k q) = 0)"
    and "pipe_inv p" and "0 < len"
  shows "\<exists>xs p'. pipe_read env k p len = Some (xs, p') \<and> pipe_inv p' \<and> xs = take len (pipe_items q) \<and>
    pipe_items p' = drop len (pipe_items q) \<and> writers p' = writers q \<and>
    (xs = [] \<longrightarrow> pipe_items p' = [] \<and> writers p' = 0)"
proof (cases "pipe_items p = [] \<and> writers p \<noteq> 0")
  case False
  then have c: "pipe_items p \<noteq> [] \<or> writers p = 0" and q: "q = p" by (auto simp: q_def)
  from pipe_read_now [OF assms(3) c assms(4), of env k] c assms(4) show ?thesis by (auto simp: q)
next
  case True
  then have "pipe_pop p = None" using assms(3) pr.get_empty by simp
  then have s: "pipe_read_section p len = ([], p)" by (cases len) (simp_all add: pipe_read_section_def)
  have q: "q = env k p" using True by (simp add: q_def)
  have "pipe_read env k p len = pipe_read env (Suc k) q len"
    using True assms(4) by (subst pipe_read.simps) (simp add: s q)
  moreover from env [OF assms(3), of k] have e: "pipe_inv q" "pipe_items q \<noteq> [] \<or> writers q = 0" by (auto simp: q)
  ultimately show ?thesis
    using pipe_read_now [OF e assms(4), of env "Suc k"] e(2) assms(4) by auto
qed

definition demo_writer :: "nat \<Rightarrow> pipe \<Rightarrow> pipe" where
  "demo_writer k q = q\<lparr>pbuf := (pbuf q)(0 := 7, 1 := 9), tail := 0, head := 2\<rparr>"

lemma demo_writer_items: "pipe_inv (demo_writer k q)" "pipe_items (demo_writer k q) = [7, 9]"
  by (simp_all add: demo_writer_def pipe_inv_def PIPE_SZ_def pipe_items_def ring_list_def upt_rec)

theorem pipe_read_returns_witness:
  "\<exists>p'. pipe_read demo_writer 0 (pipe_create (\<lambda>_. 0)) 1 = Some ([7], p') \<and> pipe_items p' = [9]"
  using pipe_read_returns [of demo_writer "pipe_create (\<lambda>_. 0)" 1 0]
  by (auto simp: demo_writer_items pipe_create_def [of "\<lambda>_. 0"] pipe_inv_def [of "\<lparr>pbuf = _, head = _, tail = _, readers = _, writers = _\<rparr>"]
      pipe_items_def [of "\<lparr>pbuf = _, head = _, tail = _, readers = _, writers = _\<rparr>"] ring_list_def PIPE_SZ_def)

lemma pipe_release_dead:
  "snd (pipe_release p w) \<longleftrightarrow> readers (fst (pipe_release p w)) = 0 \<and> writers (fst (pipe_release p w)) = 0"
  by (simp add: pipe_release_def Let_def)

end
