(* ===== verification/Console.thy ===== *)
theory Console
  imports Ring
begin

text \<open>
  \<^verbatim>\<open>kernel/console.c\<close>: eight console channels, each with an output ring of 4096
  bytes and an input ring of 256 bytes. A channel id is a C \<^verbatim>\<open>int\<close>; every entry
  point checks it with \<^verbatim>\<open>console_valid\<close>.
\<close>

section \<open>Channels\<close>

definition NCONSOLE :: nat where
  "NCONSOLE = 8"

definition OUT_SZ :: nat where
  "OUT_SZ = 4096"

definition IN_SZ :: nat where
  "IN_SZ = 256"

record console =
  used :: bool
  pid :: int
  outb :: "nat \<Rightarrow> u8"
  ohead :: nat
  otail :: nat
  inb :: "nat \<Rightarrow> u8"
  ihead :: nat
  itail :: nat

type_synonym consoles = "nat \<Rightarrow> console"

definition console_valid :: "consoles \<Rightarrow> int \<Rightarrow> bool" where
  "console_valid cs cid \<longleftrightarrow> 0 \<le> cid \<and> cid < int NCONSOLE \<and> used (cs (nat cid))"

definition console_alloc :: "consoles \<Rightarrow> int \<times> consoles" where
  "console_alloc cs =
     (case find (\<lambda>i. \<not> used (cs i)) [0..<NCONSOLE] of
        Some i \<Rightarrow> (int i, cs(i := (cs i)\<lparr>used := True, pid := -1, ohead := 0, otail := 0,
                                      ihead := 0, itail := 0\<rparr>))
      | None \<Rightarrow> (-1, cs))"

definition console_free :: "consoles \<Rightarrow> int \<Rightarrow> consoles" where
  "console_free cs cid =
     (if console_valid cs cid then cs(nat cid := (cs (nat cid))\<lparr>used := False\<rparr>) else cs)"

definition console_set_pid :: "consoles \<Rightarrow> int \<Rightarrow> int \<Rightarrow> consoles" where
  "console_set_pid cs cid p =
     (if console_valid cs cid then cs(nat cid := (cs (nat cid))\<lparr>pid := p\<rparr>) else cs)"

definition console_pid :: "consoles \<Rightarrow> int \<Rightarrow> int" where
  "console_pid cs cid = (if console_valid cs cid then pid (cs (nat cid)) else -1)"

text \<open>The bodies of the ring loops.\<close>

definition out_put :: "console \<Rightarrow> u8 \<Rightarrow> console option" where
  "out_put c b =
     (let next = (ohead c + 1) mod OUT_SZ
      in if next = otail c then None
         else Some (c\<lparr>outb := (outb c)(ohead c := b), ohead := next\<rparr>))"

definition out_get :: "console \<Rightarrow> (u8 \<times> console) option" where
  "out_get c =
     (if otail c \<noteq> ohead c then Some (outb c (otail c), c\<lparr>otail := (otail c + 1) mod OUT_SZ\<rparr>)
      else None)"

definition in_put :: "console \<Rightarrow> u8 \<Rightarrow> console option" where
  "in_put c b =
     (let next = (ihead c + 1) mod IN_SZ
      in if next = itail c then None
         else Some (c\<lparr>inb := (inb c)(ihead c := b), ihead := next\<rparr>))"

definition in_get :: "console \<Rightarrow> (u8 \<times> console) option" where
  "in_get c =
     (if itail c \<noteq> ihead c then Some (inb c (itail c), c\<lparr>itail := (itail c + 1) mod IN_SZ\<rparr>)
      else None)"

text \<open>
  The entry points. \<open>None\<close> stands for the return value -1 of a bad channel id; the
  number is the count of bytes accepted.
\<close>

definition console_out_write :: "consoles \<Rightarrow> int \<Rightarrow> u8 list \<Rightarrow> nat option \<times> consoles" where
  "console_out_write cs cid bs =
     (if \<not> console_valid cs cid then (None, cs)
      else let (n, c) = fill out_put (cs (nat cid)) bs in (Some n, cs(nat cid := c)))"

definition console_out_read :: "consoles \<Rightarrow> int \<Rightarrow> nat \<Rightarrow> u8 list option \<times> consoles" where
  "console_out_read cs cid len =
     (if \<not> console_valid cs cid then (None, cs)
      else let (bs, c) = drain out_get (cs (nat cid)) len in (Some bs, cs(nat cid := c)))"

definition console_in_write :: "consoles \<Rightarrow> int \<Rightarrow> u8 list \<Rightarrow> nat option \<times> consoles" where
  "console_in_write cs cid bs =
     (if \<not> console_valid cs cid then (None, cs)
      else let (n, c) = fill in_put (cs (nat cid)) bs in (Some n, cs(nat cid := c)))"

definition console_in_getc :: "consoles \<Rightarrow> int \<Rightarrow> int \<times> consoles" where
  "console_in_getc cs cid =
     (if \<not> console_valid cs cid then (-1, cs)
      else case in_get (cs (nat cid)) of
             None \<Rightarrow> (-1, cs)
           | Some (b, c) \<Rightarrow> (int (unat b), cs(nat cid := c)))"

section \<open>Invariant and ring contracts\<close>

definition console_inv :: "console \<Rightarrow> bool" where
  "console_inv c \<longleftrightarrow> ohead c < OUT_SZ \<and> otail c < OUT_SZ \<and> ihead c < IN_SZ \<and> itail c < IN_SZ"

definition consoles_inv :: "consoles \<Rightarrow> bool" where
  "consoles_inv cs \<longleftrightarrow> (\<forall>i < NCONSOLE. console_inv (cs i))"

definition out_inv :: "console \<Rightarrow> bool" where
  "out_inv c \<longleftrightarrow> ohead c < OUT_SZ \<and> otail c < OUT_SZ"

definition in_inv :: "console \<Rightarrow> bool" where
  "in_inv c \<longleftrightarrow> ihead c < IN_SZ \<and> itail c < IN_SZ"

definition out_items :: "console \<Rightarrow> u8 list" where
  "out_items c = ring_list OUT_SZ (outb c) (otail c) (ohead c)"

definition in_items :: "console \<Rightarrow> u8 list" where
  "in_items c = ring_list IN_SZ (inb c) (itail c) (ihead c)"

interpretation outr: array_ring out_put out_get outb ohead otail OUT_SZ out_items out_inv
  by unfold_locales
    (auto simp: out_put_def out_get_def out_items_def out_inv_def Let_def split: if_splits)

interpretation inr: array_ring in_put in_get inb ihead itail IN_SZ in_items in_inv
  by unfold_locales
    (auto simp: in_put_def in_get_def in_items_def in_inv_def Let_def split: if_splits)

text \<open>The two rings of a channel do not interfere.\<close>

lemma fill_out_other:
  "ihead (snd (fill out_put c xs)) = ihead c \<and> itail (snd (fill out_put c xs)) = itail c \<and>
   inb (snd (fill out_put c xs)) = inb c \<and> used (snd (fill out_put c xs)) = used c \<and>
   pid (snd (fill out_put c xs)) = pid c"
  by (induction xs arbitrary: c)
    (simp_all add: out_put_def Let_def case_prod_beta split: option.splits)

lemma fill_in_other:
  "ohead (snd (fill in_put c xs)) = ohead c \<and> otail (snd (fill in_put c xs)) = otail c \<and>
   outb (snd (fill in_put c xs)) = outb c \<and> used (snd (fill in_put c xs)) = used c \<and>
   pid (snd (fill in_put c xs)) = pid c"
  by (induction xs arbitrary: c)
    (simp_all add: in_put_def Let_def case_prod_beta split: option.splits)

lemma drain_out_other:
  "ihead (snd (drain out_get c n)) = ihead c \<and> itail (snd (drain out_get c n)) = itail c \<and>
   inb (snd (drain out_get c n)) = inb c \<and> used (snd (drain out_get c n)) = used c \<and>
   pid (snd (drain out_get c n)) = pid c"
  by (induction n arbitrary: c)
    (simp_all add: out_get_def Let_def case_prod_beta split: option.splits)

lemma console_inv_split: "console_inv c \<longleftrightarrow> out_inv c \<and> in_inv c"
  by (auto simp: console_inv_def out_inv_def in_inv_def)

lemma consoles_inv_upd:
  "consoles_inv cs \<Longrightarrow> console_inv c \<Longrightarrow> consoles_inv (cs(i := c))"
  by (simp add: consoles_inv_def)

lemma console_valid_inv:
  "consoles_inv cs \<Longrightarrow> console_valid cs cid \<Longrightarrow> console_inv (cs (nat cid))"
  by (auto simp: consoles_inv_def console_valid_def)

lemma find_upt_Some:
  "find P [0..<n] = Some i \<Longrightarrow> i < n \<and> P i \<and> (\<forall>j < i. \<not> P j)"
  by (auto simp: find_Some_iff)

lemma console_alloc_inv: "consoles_inv cs \<Longrightarrow> consoles_inv (snd (console_alloc cs))"
  by (auto simp: console_alloc_def console_inv_def consoles_inv_def OUT_SZ_def IN_SZ_def
      split: option.splits)

section \<open>Properties\<close>

text \<open>
  Every operation on the channels keeps all ring indices inside their arrays:
  no call, with any channel id and any amount of data, can write or read outside a
  channel's buffers.
\<close>

lemma console_ops_inv:
  assumes "consoles_inv cs"
  shows "consoles_inv (snd (console_alloc cs)) \<and> consoles_inv (console_free cs cid) \<and>
    consoles_inv (console_set_pid cs cid p) \<and> consoles_inv (snd (console_out_write cs cid bs)) \<and>
    consoles_inv (snd (console_out_read cs cid n)) \<and> consoles_inv (snd (console_in_write cs cid bs)) \<and>
    consoles_inv (snd (console_in_getc cs cid))"
proof (intro conjI)
  note v = console_valid_inv [OF assms]
  show "consoles_inv (snd (console_alloc cs))"
    using assms by (rule console_alloc_inv)
  show "consoles_inv (console_free cs cid)" "consoles_inv (console_set_pid cs cid p)"
    using assms v
    by (auto simp: console_free_def console_set_pid_def console_inv_def intro!: consoles_inv_upd)
  show "consoles_inv (snd (console_out_write cs cid bs))"
    using assms v outr.fill_invar fill_out_other
    by (auto simp: console_out_write_def case_prod_beta console_inv_split in_inv_def
        intro!: consoles_inv_upd)
  show "consoles_inv (snd (console_out_read cs cid n))"
    using assms v outr.drain_invar drain_out_other
    by (auto simp: console_out_read_def case_prod_beta console_inv_split in_inv_def
        intro!: consoles_inv_upd)
  show "consoles_inv (snd (console_in_write cs cid bs))"
    using assms v inr.fill_invar fill_in_other
    by (auto simp: console_in_write_def case_prod_beta console_inv_split out_inv_def
        intro!: consoles_inv_upd)
  show "consoles_inv (snd (console_in_getc cs cid))"
    using assms v
    by (auto simp: console_in_getc_def in_get_def console_inv_def OUT_SZ_def IN_SZ_def
        split: option.splits intro!: consoles_inv_upd)
qed

definition console_zero :: console where
  "console_zero = \<lparr>used = False, pid = 0, outb = (\<lambda>_. 0), ohead = 0, otail = 0,
     inb = (\<lambda>_. 0), ihead = 0, itail = 0\<rparr>"

lemma consoles_inv_zero: "consoles_inv (\<lambda>_. console_zero)"
  by (simp add: consoles_inv_def console_inv_def console_zero_def OUT_SZ_def IN_SZ_def)

text \<open>
  \<^verbatim>\<open>console_alloc\<close> hands out the lowest unused channel with both rings empty, leaves
  every other channel alone, and fails exactly when all eight are in use.
\<close>

lemma console_alloc_spec:
  "(case console_alloc cs of (r, cs') \<Rightarrow>
     if \<forall>i < NCONSOLE. used (cs i) then r = -1 \<and> cs' = cs
     else \<exists>i < NCONSOLE. r = int i \<and> \<not> used (cs i) \<and> (\<forall>j < i. used (cs j)) \<and>
            used (cs' i) \<and> out_items (cs' i) = [] \<and> in_items (cs' i) = [] \<and>
            (\<forall>j. j \<noteq> i \<longrightarrow> cs' j = cs j))"
proof (cases "find (\<lambda>i. \<not> used (cs i)) [0..<NCONSOLE]")
  case None
  then have "\<forall>i < NCONSOLE. used (cs i)" by (auto simp: find_None_iff)
  with None show ?thesis by (simp add: console_alloc_def)
next
  case (Some i)
  note f = find_upt_Some [OF Some]
  then have "\<not> (\<forall>i < NCONSOLE. used (cs i))" by auto
  with f Some show ?thesis
    by (auto simp: console_alloc_def out_items_def in_items_def ring_list_def intro!: exI [of _ i])
qed

text \<open>
  C25: Output written to a channel queues behind what is already there, dropping exactly
  the bytes that do not fit in 4095, and the owner's read takes bytes from the front of that
  queue; the other channels are untouched.
\<close>

theorem console_out_fifo:
  assumes "consoles_inv cs" and "console_valid cs cid"
    and "console_out_write cs cid bs = (r, cs1)" and "console_out_read cs1 cid len = (r', cs2)"
  shows "\<exists>n. r = Some n \<and> n = min (length bs) (4095 - length (out_items (cs (nat cid)))) \<and>
    r' = Some (take len (out_items (cs (nat cid)) @ take n bs)) \<and>
    out_items (cs2 (nat cid)) = drop len (out_items (cs (nat cid)) @ take n bs) \<and>
    (\<forall>j. j \<noteq> nat cid \<longrightarrow> cs2 j = cs j)"
proof -
  let ?c = "cs (nat cid)"
  have inv: "out_inv ?c"
    using console_valid_inv [OF assms(1,2)] by (simp add: console_inv_split)
  obtain n c1 where f: "fill out_put ?c bs = (n, c1)" by force
  note fs = outr.fill_spec [OF inv f]
  obtain xs c2 where d: "drain out_get c1 len = (xs, c2)" by force
  note ds = outr.drain_spec [OF conjunct1 [OF fs] d]
  have r: "r = Some n" "cs1 = cs(nat cid := c1)"
    using assms(2,3) f by (auto simp: console_out_write_def)
  have "used c1" using fill_out_other [of ?c bs] f assms(2) by (simp add: console_valid_def)
  then have "console_valid cs1 cid" using assms(2) r by (simp add: console_valid_def)
  then have "r' = Some xs" "cs2 = cs1(nat cid := c2)"
    using assms(4) d r by (auto simp: console_out_read_def)
  with r fs ds show ?thesis by (auto simp: OUT_SZ_def)
qed

theorem console_out_fifo_witness:
  "\<exists>cs2. console_out_read (snd (console_out_write (snd (console_alloc (\<lambda>_. console_zero))) 0 [65, 66, 67])) 0 2
     = (Some [65, 66], cs2) \<and> out_items (cs2 0) = [67]"
proof -
  let ?cs = "snd (console_alloc (\<lambda>_. console_zero))"
  have e: "out_items (?cs 0) = []" and v: "console_valid ?cs 0"
    by (simp_all add: console_alloc_def console_zero_def NCONSOLE_def out_items_def ring_list_def
        console_valid_def find_Some_iff upt_rec)
  obtain r cs1 where w: "console_out_write ?cs 0 [65, 66, 67] = (r, cs1)" by force
  obtain r' cs2 where d: "console_out_read cs1 0 2 = (r', cs2)" by force
  from console_out_fifo [OF console_alloc_inv [OF consoles_inv_zero] v w d] e w d
  show ?thesis by auto
qed

end
