(* ===== verification/Keyboard.thy ===== *)
theory Keyboard
  imports Ring
begin

text \<open>
  \<^verbatim>\<open>drivers/keyboard.c\<close>: the PS/2 interrupt handler that turns scancodes (set 1)
  into characters and queues them in a 256-byte ring, and the reader. The byte
  the handler reads from port \<^verbatim>\<open>0x60\<close> is its argument.
\<close>

definition KBD_BUF_SIZE :: nat where
  "KBD_BUF_SIZE = 256"

record kbd =
  keybuf :: "nat \<Rightarrow> u8"
  kbd_head :: nat
  kbd_tail :: nat
  shift_down :: bool
  caps_on :: bool
  ext_pending :: bool

text \<open>The scancode tables; the C arrays have 128 entries, zero beyond the listed ones.\<close>

definition keymap_normal :: "u8 list" where
  "keymap_normal = [0, 27] @ map of_char ''1234567890-='' @ [8, 9] @ map of_char ''qwertyuiop[]'' @
     [10, 0] @ map of_char ''asdfghjkl;'' @ [39, 96, 0, 92] @ map of_char ''zxcvbnm,./'' @
     [0, 42, 0, 32]"

definition keymap_shift :: "u8 list" where
  "keymap_shift = [0, 27] @ map of_char ''!@#$%^&*()_+'' @ [8, 9] @ map of_char ''QWERTYUIOP{}'' @
     [10, 0] @ map of_char ''ASDFGHJKL:'' @ [34, 126, 0, 124] @ map of_char ''ZXCVBNM<>?'' @
     [0, 42, 0, 32]"

definition keymap_get :: "u8 list \<Rightarrow> u8 \<Rightarrow> u8" where
  "keymap_get m code = (if unat code < length m then m ! unat code else 0)"

definition SC_LSHIFT :: u8 where "SC_LSHIFT = 0x2A"
definition SC_RSHIFT :: u8 where "SC_RSHIFT = 0x36"
definition SC_CAPSLOCK :: u8 where "SC_CAPSLOCK = 0x3A"

text \<open>The character a make code produces under the current modifiers.\<close>

definition kbd_char :: "kbd \<Rightarrow> u8 \<Rightarrow> u8" where
  "kbd_char k code =
     (let c = keymap_get keymap_normal code
      in if of_char (CHR ''a'') \<le> c \<and> c \<le> of_char (CHR ''z'')
         then (if shift_down k \<noteq> caps_on k then keymap_get keymap_shift code else c)
         else if shift_down k then keymap_get keymap_shift code else c)"

definition kbd_put :: "kbd \<Rightarrow> u8 \<Rightarrow> kbd option" where
  "kbd_put k c =
     (let next = (kbd_head k + 1) mod KBD_BUF_SIZE
      in if next \<noteq> kbd_tail k
         then Some (k\<lparr>keybuf := (keybuf k)(kbd_head k := c), kbd_head := next\<rparr>) else None)"

definition kbd_irq :: "kbd \<Rightarrow> u8 \<Rightarrow> kbd" where
  "kbd_irq k code =
     (if code = 0xE0 then k\<lparr>ext_pending := True\<rparr>
      else if ext_pending k then k\<lparr>ext_pending := False\<rparr>
      else if code AND 0x80 \<noteq> 0
      then (let make = code AND 0x7F
            in if make = SC_LSHIFT \<or> make = SC_RSHIFT then k\<lparr>shift_down := False\<rparr> else k)
      else if code = SC_LSHIFT \<or> code = SC_RSHIFT then k\<lparr>shift_down := True\<rparr>
      else if code = SC_CAPSLOCK then k\<lparr>caps_on := \<not> caps_on k\<rparr>
      else let c = kbd_char k code
           in if c = 0 then k
              else case kbd_put k c of Some k' \<Rightarrow> k' | None \<Rightarrow> k)"

definition kbd_init :: "kbd \<Rightarrow> kbd" where
  "kbd_init k = k\<lparr>kbd_head := 0, kbd_tail := 0\<rparr>"

definition kbd_take :: "kbd \<Rightarrow> (u8 \<times> kbd) option" where
  "kbd_take k =
     (if kbd_tail k = kbd_head k then None
      else Some (keybuf k (kbd_tail k), k\<lparr>kbd_tail := (kbd_tail k + 1) mod KBD_BUF_SIZE\<rparr>))"

definition kbd_getc :: "kbd \<Rightarrow> u8 \<times> kbd" where
  "kbd_getc k = (case kbd_take k of None \<Rightarrow> (0, k) | Some r \<Rightarrow> r)"

section \<open>The ring contract\<close>

definition kbd_idx :: "kbd \<Rightarrow> bool" where
  "kbd_idx k \<longleftrightarrow> kbd_head k < KBD_BUF_SIZE \<and> kbd_tail k < KBD_BUF_SIZE"

definition kbd_items :: "kbd \<Rightarrow> u8 list" where
  "kbd_items k = ring_list KBD_BUF_SIZE (keybuf k) (kbd_tail k) (kbd_head k)"

interpretation kr: array_ring kbd_put kbd_take keybuf kbd_head kbd_tail KBD_BUF_SIZE kbd_items kbd_idx
  by unfold_locales
    (auto simp: kbd_put_def kbd_take_def kbd_items_def kbd_idx_def Let_def split: if_splits)

text \<open>The queue never holds a NUL, so a zero from \<^verbatim>\<open>kbd_getc\<close> means the queue was empty.\<close>

definition kbd_inv :: "kbd \<Rightarrow> bool" where
  "kbd_inv k \<longleftrightarrow> kbd_idx k \<and> 0 \<notin> set (kbd_items k)"

lemma kbd_flags [simp]:
  "kbd_idx (k\<lparr>ext_pending := e\<rparr>) = kbd_idx k" "kbd_items (k\<lparr>ext_pending := e\<rparr>) = kbd_items k"
  "kbd_idx (k\<lparr>shift_down := e\<rparr>) = kbd_idx k" "kbd_items (k\<lparr>shift_down := e\<rparr>) = kbd_items k"
  "kbd_idx (k\<lparr>caps_on := e\<rparr>) = kbd_idx k" "kbd_items (k\<lparr>caps_on := e\<rparr>) = kbd_items k"
  by (simp_all add: kbd_idx_def kbd_items_def)

lemma kbd_put_inv: "kbd_inv k \<Longrightarrow> c \<noteq> 0 \<Longrightarrow> kbd_put k c = Some k' \<Longrightarrow> kbd_inv k'"
  using kr.put_items [of k c k'] kr.put_invar [of k c k'] by (simp add: kbd_inv_def)

lemma kbd_inv_flags [simp]:
  "kbd_inv (k\<lparr>ext_pending := e\<rparr>) = kbd_inv k" "kbd_inv (k\<lparr>shift_down := e\<rparr>) = kbd_inv k"
  "kbd_inv (k\<lparr>caps_on := e\<rparr>) = kbd_inv k"
  by (simp_all add: kbd_inv_def)

lemma kbd_irq_inv:
  assumes "kbd_inv k"
  shows "kbd_inv (kbd_irq k code)"
proof -
  have "kbd_inv (case kbd_put k c of Some k' \<Rightarrow> k' | None \<Rightarrow> k)" if "c \<noteq> 0" for c
    using assms kbd_put_inv [OF assms that] by (cases "kbd_put k c") auto
  with assms show ?thesis by (simp add: kbd_irq_def Let_def)
qed

lemma kbd_getc_spec:
  assumes "kbd_inv k"
  shows "case kbd_items k of
      [] \<Rightarrow> kbd_getc k = (0, k)
    | c # cs \<Rightarrow> fst (kbd_getc k) = c \<and> c \<noteq> 0 \<and> kbd_items (snd (kbd_getc k)) = cs \<and>
        kbd_inv (snd (kbd_getc k))"
proof (cases "kbd_take k")
  case None
  then have "kbd_items k = []" using assms kr.get_empty by (simp add: kbd_inv_def)
  with None show ?thesis by (simp add: kbd_getc_def)
next
  case (Some r)
  obtain c k' where r: "r = (c, k')" by force
  then have "kbd_items k = c # kbd_items k'" "kbd_idx k'"
    using assms Some kr.get_items kr.get_invar by (auto simp: kbd_inv_def)
  with assms Some r show ?thesis by (auto simp: kbd_getc_def kbd_inv_def)
qed

section \<open>Properties\<close>

text \<open>
  For any sequence of scancodes from the controller the key queue stays inside its
  array and contains no NUL; \<^verbatim>\<open>kbd_getc\<close> then returns the oldest queued character, and
  returns 0 exactly when the queue is empty.
\<close>

lemma kbd_stream_inv:
  assumes "kbd_inv k"
  shows "kbd_inv (foldl kbd_irq k codes) \<and>
    (fst (kbd_getc (foldl kbd_irq k codes)) = 0 \<longleftrightarrow> kbd_items (foldl kbd_irq k codes) = []) \<and>
    (kbd_items (foldl kbd_irq k codes) \<noteq> [] \<longrightarrow>
       fst (kbd_getc (foldl kbd_irq k codes)) = hd (kbd_items (foldl kbd_irq k codes)))"
proof -
  have "kbd_inv (foldl kbd_irq k codes)"
    using assms by (induction codes arbitrary: k) (auto intro: kbd_irq_inv)
  with kbd_getc_spec [OF this] show ?thesis by (auto split: list.splits)
qed

definition kbd_boot :: kbd where
  "kbd_boot = kbd_init \<lparr>keybuf = (\<lambda>_. 0), kbd_head = 0, kbd_tail = 0, shift_down = False,
     caps_on = False, ext_pending = False\<rparr>"

lemma kbd_boot_inv: "kbd_inv kbd_boot"
  by (simp add: kbd_boot_def kbd_init_def kbd_inv_def kbd_idx_def kbd_items_def ring_list_def
      KBD_BUF_SIZE_def)

lemma keymap_lengths: "length keymap_normal = 58" "length keymap_shift = 58"
  by (simp_all add: keymap_normal_def keymap_shift_def)

text \<open>
  A letter key is upper case exactly when shift and caps lock disagree; the two tables
  agree on which codes are letters.
\<close>

lemma keymap_letters:
  assumes "of_char (CHR ''a'') \<le> keymap_get keymap_normal code"
    and "keymap_get keymap_normal code \<le> of_char (CHR ''z'')"
  shows "keymap_get keymap_shift code = keymap_get keymap_normal code - 32"
proof -
  have "list_all2 (\<lambda>n s. of_char (CHR ''a'') \<le> n \<and> n \<le> of_char (CHR ''z'') \<longrightarrow> s = n - 32)
      keymap_normal keymap_shift"
    by (simp add: keymap_normal_def keymap_shift_def)
  then have all: "\<forall>i < 58. of_char (CHR ''a'') \<le> keymap_normal ! i \<and>
      keymap_normal ! i \<le> of_char (CHR ''z'') \<longrightarrow> keymap_shift ! i = keymap_normal ! i - 32"
    by (auto simp: list_all2_conv_all_nth keymap_lengths)
  have "unat code < 58"
  proof (rule ccontr)
    assume "\<not> unat code < 58"
    with assms(1) show False by (simp add: keymap_get_def keymap_lengths)
  qed
  with all assms show ?thesis by (simp add: keymap_get_def keymap_lengths)
qed

end
