(* ===== verification/Block.thy ===== *)
theory Block
  imports Nos_Prelude
begin

text \<open>
  \<^verbatim>\<open>kernel/block.c\<close>: the registry of block devices and the range check in front of every
  transfer. A device is its sector count and its two operations; the operations belong to a
  driver and appear here as the function pointers they are. What a driver's medium holds is
  \<open>media\<close>, byte-addressed; everything else its behaviour may depend on is in \<open>tick\<close>.

  A buffer of \<open>n\<close> bytes that an operation fills is a byte function that is zero from \<open>n\<close> on.
  \<^verbatim>\<open>block_read\<close> and \<^verbatim>\<open>block_write\<close> are modelled for a device and a buffer that are there; for a null pointer the
  code returns -1 without calling the driver, and no caller in the kernel passes one.
\<close>

record disk =
  media :: buf
  tick :: nat

text \<open>
  The pointer fields of \<^verbatim>\<open>struct block_device\<close> can be null; \<open>has_name\<close>, \<open>has_read\<close> and
  \<open>has_write\<close> say whether they are set. A failed operation (-1) returns \<open>None\<close> or \<open>False\<close>.
\<close>

record block_device =
  has_name :: bool
  has_read :: bool
  has_write :: bool
  sector_count :: u32
  read :: "disk \<Rightarrow> u32 \<Rightarrow> u32 \<Rightarrow> buf option \<times> disk"
  write_op :: "disk \<Rightarrow> u32 \<Rightarrow> u32 \<Rightarrow> buf \<Rightarrow> bool \<times> disk"

definition BLOCK_MAX_DEVICES :: nat where "BLOCK_MAX_DEVICES = 4"
definition BLOCK_SECTOR_SIZE :: nat where "BLOCK_SECTOR_SIZE = 512"

type_synonym registry = "block_device list"

definition block_register :: "registry \<Rightarrow> block_device option \<Rightarrow> bool \<times> registry" where
  "block_register ds dev =
     (case dev of
        None \<Rightarrow> (False, ds)
      | Some d \<Rightarrow>
          if \<not> has_name d \<or> sector_count d = 0 \<or> \<not> has_read d \<or> \<not> has_write d \<or> length ds = BLOCK_MAX_DEVICES
          then (False, ds) else (True, ds @ [d]))"

definition block_count :: "registry \<Rightarrow> nat" where
  "block_count ds = length ds"

definition block_get :: "registry \<Rightarrow> nat \<Rightarrow> block_device option" where
  "block_get ds index = (if index < length ds then Some (ds ! index) else None)"

definition block_range_ok :: "block_device \<Rightarrow> u32 \<Rightarrow> u32 \<Rightarrow> bool" where
  "block_range_ok dev lba count \<longleftrightarrow> count \<noteq> 0 \<and> lba < sector_count dev \<and> count \<le> sector_count dev - lba"

definition block_read :: "block_device \<Rightarrow> disk \<Rightarrow> u32 \<Rightarrow> u32 \<Rightarrow> buf option \<times> disk" where
  "block_read dev d lba count =
     (if \<not> block_range_ok dev lba count then (None, d) else read dev d lba count)"

definition block_write :: "block_device \<Rightarrow> disk \<Rightarrow> u32 \<Rightarrow> u32 \<Rightarrow> buf \<Rightarrow> bool \<times> disk" where
  "block_write dev d lba count b =
     (if \<not> block_range_ok dev lba count then (False, d) else write_op dev d lba count b)"

section \<open>The device contract\<close>

text \<open>The bytes of \<open>count\<close> sectors from \<open>lba\<close> on, and the medium after writing them.\<close>

definition sector_data :: "disk \<Rightarrow> nat \<Rightarrow> nat \<Rightarrow> buf" where
  "sector_data d lba count = (\<lambda>i. if i < count * 512 then media d (lba * 512 + i) else 0)"

definition put_sectors :: "buf \<Rightarrow> nat \<Rightarrow> nat \<Rightarrow> buf \<Rightarrow> buf" where
  "put_sectors m lba count b =
     (\<lambda>x. if lba * 512 \<le> x \<and> x < (lba + count) * 512 then b (x - lba * 512) else m x)"

definition in_device :: "block_device \<Rightarrow> u32 \<Rightarrow> u32 \<Rightarrow> bool" where
  "in_device dev lba count \<longleftrightarrow> 0 < unat count \<and> unat lba + unat count \<le> unat (sector_count dev)"

text \<open>
  What any driver promises: a read that succeeds returns the medium's bytes, no read changes the
  medium, a write that succeeds stores the buffer, and a write that fails may have changed the
  sectors it was given but no others.
\<close>

definition device_ok :: "block_device \<Rightarrow> bool" where
  "device_ok dev \<longleftrightarrow> (\<forall>d lba count. in_device dev lba count \<longrightarrow>
     media (snd (read dev d lba count)) = media d \<and>
     (\<forall>b. fst (read dev d lba count) = Some b \<longrightarrow> b = sector_data d (unat lba) (unat count)) \<and>
     (\<forall>b. (fst (write_op dev d lba count b) \<longrightarrow>
             media (snd (write_op dev d lba count b)) = put_sectors (media d) (unat lba) (unat count) b) \<and>
          (\<forall>x. \<not> (unat lba * 512 \<le> x \<and> x < (unat lba + unat count) * 512) \<longrightarrow>
             media (snd (write_op dev d lba count b)) x = media d x)))"

text \<open>A device that never fails and keeps no other state.\<close>

definition device_live :: "block_device \<Rightarrow> bool" where
  "device_live dev \<longleftrightarrow> (\<forall>d lba count. in_device dev lba count \<longrightarrow>
     read dev d lba count = (Some (sector_data d (unat lba) (unat count)), d) \<and>
     (\<forall>b. write_op dev d lba count b =
        (True, d\<lparr>media := put_sectors (media d) (unat lba) (unat count) b\<rparr>)))"

lemma device_live_ok: "device_live dev \<Longrightarrow> device_ok dev"
  by (auto simp: device_live_def device_ok_def put_sectors_def)

lemma block_range_ok_iff: "block_range_ok dev lba count \<longleftrightarrow> in_device dev lba count"
proof (cases "lba < sector_count dev")
  case True
  then have "unat (sector_count dev - lba) = unat (sector_count dev) - unat lba"
    by (intro unat_sub) (simp add: word_le_nat_alt word_less_nat_alt)
  with True show ?thesis
    by (auto simp: block_range_ok_def in_device_def word_le_nat_alt word_less_nat_alt word_unat_eq_iff)
next
  case False
  then show ?thesis by (auto simp: block_range_ok_def in_device_def word_less_nat_alt)
qed

text \<open>A memory disk of \<open>n\<close> sectors: a device that meets the contract.\<close>

definition ram_disk :: "u32 \<Rightarrow> block_device" where
  "ram_disk n = \<lparr>has_name = True, has_read = True, has_write = True, sector_count = n,
     read = (\<lambda>d lba count. (Some (sector_data d (unat lba) (unat count)), d)),
     write_op = (\<lambda>d lba count b. (True, d\<lparr>media := put_sectors (media d) (unat lba) (unat count) b\<rparr>))\<rparr>"

lemma ram_disk_live [simp]: "device_live (ram_disk n)" "sector_count (ram_disk n) = n"
  by (simp_all add: device_live_def ram_disk_def)

section \<open>Properties\<close>

text \<open>
  C30: No transfer reaches the driver with a sector outside the device, however large the request:
  an out-of-range or empty request fails and leaves the device alone, and an in-range write that
  succeeds is read back exactly, even next to the end of a 32-bit sector count.
\<close>

theorem block_write_read:
  assumes "device_ok dev"
  shows "(\<not> in_device dev lba count \<longrightarrow> block_read dev d lba count = (None, d) \<and> block_write dev d lba count b = (False, d)) \<and>
    (block_write dev d lba count b = (True, d') \<and> block_read dev d' lba count = (Some r, d'') \<longrightarrow>
       (\<forall>i < unat count * 512. r i = b i) \<and> media d'' = media d')"
proof (cases "in_device dev lba count")
  case False
  then show ?thesis by (auto simp: block_read_def block_write_def block_range_ok_iff)
next
  case True
  have "(\<forall>i < unat count * 512. r i = b i) \<and> media d'' = media d'"
    if w: "write_op dev d lba count b = (True, d')" and rd: "read dev d' lba count = (Some r, d'')"
  proof -
    have m: "media d' = put_sectors (media d) (unat lba) (unat count) b"
      using assms True w unfolding device_ok_def by (metis fst_conv snd_conv)
    have "r = sector_data d' (unat lba) (unat count)" "media d'' = media d'"
      using assms True rd unfolding device_ok_def by (metis fst_conv snd_conv)+
    with m show ?thesis by (simp add: sector_data_def put_sectors_def add_mult_distrib)
  qed
  with True show ?thesis by (auto simp: block_read_def block_write_def block_range_ok_iff)
qed

theorem block_write_read_witness:
  "\<exists>d' r d''. block_write (ram_disk 16) \<lparr>media = (\<lambda>_. 0), tick = 0\<rparr> 15 1 (\<lambda>_. 7) = (True, d') \<and>
     block_read (ram_disk 16) d' 15 1 = (Some r, d'') \<and> r 511 = 7"
proof -
  let ?d = "\<lparr>media = (\<lambda>_. 0), tick = 0\<rparr>"
  have "in_device (ram_disk 16) 15 1" by (simp add: in_device_def)
  then obtain d' r d'' where "block_write (ram_disk 16) ?d 15 1 (\<lambda>_. 7) = (True, d')"
    "block_read (ram_disk 16) d' 15 1 = (Some r, d'')"
    using ram_disk_live(1) [of 16]
    by (auto simp: block_write_def block_read_def block_range_ok_iff device_live_def)
  moreover from this have "\<forall>i < 512. r i = 7"
    using block_write_read [OF device_live_ok [OF ram_disk_live(1)], of 16 15 1 ?d "\<lambda>_. 7" d' r d''] by simp
  ultimately show ?thesis by (intro exI [of _ d'] exI [of _ r] exI [of _ d'']) simp
qed

end
