(* ===== verification/Ext2_Base.thy ===== *)
theory Ext2_Base
  imports Block
begin

text \<open>
  \<^verbatim>\<open>kernel/ext2.c\<close>, first part: the on-disk structures, the mount context, the range checks on
  block numbers, block I/O, and the superblock, group descriptor and inode persistence.

  The packed on-disk structures are byte buffers, as the code casts them, with one accessor per
  field at the field's offset. A structure copied out of a block with \<^verbatim>\<open>memcpy\<close> is the slice of the
  block. The kernel heap panics rather than return null, so the code's branches for a failed
  \<^verbatim>\<open>kmalloc\<close> of a scratch buffer are not reachable and have no counterpart here.
\<close>

definition slice :: "buf \<Rightarrow> nat \<Rightarrow> nat \<Rightarrow> buf" where
  "slice b p n = (\<lambda>i. if i < n then b (p + i) else 0)"

section \<open>On-disk structures\<close>

type_synonym ext2_superblock = buf
type_synonym ext2_group_desc = buf
type_synonym ext2_inode = buf

definition SB_SIZE :: nat where "SB_SIZE = 104"
definition GD_SIZE :: nat where "GD_SIZE = 32"
definition INODE_SIZE :: nat where "INODE_SIZE = 128"

definition s_inodes_count :: "ext2_superblock \<Rightarrow> u32" where "s_inodes_count s = le32 s 0"
definition s_blocks_count :: "ext2_superblock \<Rightarrow> u32" where "s_blocks_count s = le32 s 4"
definition s_free_blocks_count :: "ext2_superblock \<Rightarrow> u32" where "s_free_blocks_count s = le32 s 12"
definition s_free_inodes_count :: "ext2_superblock \<Rightarrow> u32" where "s_free_inodes_count s = le32 s 16"
definition s_first_data_block :: "ext2_superblock \<Rightarrow> u32" where "s_first_data_block s = le32 s 20"
definition s_log_block_size :: "ext2_superblock \<Rightarrow> u32" where "s_log_block_size s = le32 s 24"
definition s_log_frag_size :: "ext2_superblock \<Rightarrow> u32" where "s_log_frag_size s = le32 s 28"
definition s_blocks_per_group :: "ext2_superblock \<Rightarrow> u32" where "s_blocks_per_group s = le32 s 32"
definition s_frags_per_group :: "ext2_superblock \<Rightarrow> u32" where "s_frags_per_group s = le32 s 36"
definition s_inodes_per_group :: "ext2_superblock \<Rightarrow> u32" where "s_inodes_per_group s = le32 s 40"
definition s_magic :: "ext2_superblock \<Rightarrow> u16" where "s_magic s = le16 s 56"
definition s_rev_level :: "ext2_superblock \<Rightarrow> u32" where "s_rev_level s = le32 s 76"
definition s_feature_compat :: "ext2_superblock \<Rightarrow> u32" where "s_feature_compat s = le32 s 92"
definition s_feature_incompat :: "ext2_superblock \<Rightarrow> u32" where "s_feature_incompat s = le32 s 96"
definition s_feature_ro_compat :: "ext2_superblock \<Rightarrow> u32" where "s_feature_ro_compat s = le32 s 100"

definition bg_block_bitmap :: "ext2_group_desc \<Rightarrow> u32" where "bg_block_bitmap g = le32 g 0"
definition bg_inode_bitmap :: "ext2_group_desc \<Rightarrow> u32" where "bg_inode_bitmap g = le32 g 4"
definition bg_inode_table :: "ext2_group_desc \<Rightarrow> u32" where "bg_inode_table g = le32 g 8"
definition bg_free_blocks_count :: "ext2_group_desc \<Rightarrow> u16" where "bg_free_blocks_count g = le16 g 12"
definition bg_free_inodes_count :: "ext2_group_desc \<Rightarrow> u16" where "bg_free_inodes_count g = le16 g 14"
definition bg_used_dirs_count :: "ext2_group_desc \<Rightarrow> u16" where "bg_used_dirs_count g = le16 g 16"

definition i_mode :: "ext2_inode \<Rightarrow> u16" where "i_mode n = le16 n 0"
definition i_size :: "ext2_inode \<Rightarrow> u32" where "i_size n = le32 n 4"
definition i_links_count :: "ext2_inode \<Rightarrow> u16" where "i_links_count n = le16 n 26"
definition i_blocks :: "ext2_inode \<Rightarrow> u32" where "i_blocks n = le32 n 28"
definition i_block :: "ext2_inode \<Rightarrow> nat \<Rightarrow> u32" where "i_block n k = le32 n (40 + 4 * k)"

definition set_i_mode :: "ext2_inode \<Rightarrow> u16 \<Rightarrow> ext2_inode" where "set_i_mode n v = put16 n 0 v"
definition set_i_size :: "ext2_inode \<Rightarrow> u32 \<Rightarrow> ext2_inode" where "set_i_size n v = put32 n 4 v"
definition set_i_links_count :: "ext2_inode \<Rightarrow> u16 \<Rightarrow> ext2_inode" where "set_i_links_count n v = put16 n 26 v"
definition set_i_blocks :: "ext2_inode \<Rightarrow> u32 \<Rightarrow> ext2_inode" where "set_i_blocks n v = put32 n 28 v"
definition set_i_block :: "ext2_inode \<Rightarrow> nat \<Rightarrow> u32 \<Rightarrow> ext2_inode" where
  "set_i_block n k v = put32 n (40 + 4 * k) v"

definition EXT2_MAGIC :: u16 where "EXT2_MAGIC = 0xEF53"
definition EXT2_REV_OLD :: u32 where "EXT2_REV_OLD = 0"
definition EXT2_ROOT_INO :: u32 where "EXT2_ROOT_INO = 2"
definition EXT2_FIRST_NORMAL_INO :: u32 where "EXT2_FIRST_NORMAL_INO = 11"
definition EXT2_S_IFREG :: u16 where "EXT2_S_IFREG = 0x8000"
definition EXT2_S_IFDIR :: u16 where "EXT2_S_IFDIR = 0x4000"
definition EXT2_S_IFMT :: u16 where "EXT2_S_IFMT = 0xF000"
definition EXT2_MAX_FILE_BLOCKS :: u32 where "EXT2_MAX_FILE_BLOCKS = 268"

section \<open>The mount context\<close>

text \<open>The part of \<^verbatim>\<open>struct fs_node\<close> that ext2 fills in; \<open>node_dir\<close> selects the directory or file callbacks.\<close>

record ext2_node =
  node_name :: "u8 list"
  node_inode :: u32
  node_length :: u32
  node_dir :: bool

record mount =
  dev :: block_device
  disk :: disk
  sb :: ext2_superblock
  gd :: ext2_group_desc
  block_size :: u32
  sectors_per_block :: u32
  inode_size :: u32
  inode_table_block :: u32
  inode_table_blocks :: u32
  first_data_block :: u32
  alloc_start_bit :: u32
  sb_block :: u32
  gd_block :: u32
  lock :: bool
  node_cache :: "nat \<Rightarrow> ext2_node option"
  node_cache_size :: u32

definition ext2_blk_in_range_raw :: "ext2_superblock \<Rightarrow> u32 \<Rightarrow> bool" where
  "ext2_blk_in_range_raw s blk \<longleftrightarrow> blk \<ge> s_first_data_block s \<and> blk < s_blocks_count s"

definition ext2_blk_in_range :: "mount \<Rightarrow> u32 \<Rightarrow> bool" where
  "ext2_blk_in_range m blk \<longleftrightarrow> ext2_blk_in_range_raw (sb m) blk"

definition ext2_data_blk_ok :: "mount \<Rightarrow> u32 \<Rightarrow> bool" where
  "ext2_data_blk_ok m blk \<longleftrightarrow> blk = 0 \<or> (blk \<ge> first_data_block m \<and> blk < s_blocks_count (sb m))"

definition ext2_inode_pointers_ok :: "mount \<Rightarrow> ext2_inode \<Rightarrow> bool" where
  "ext2_inode_pointers_ok m n \<longleftrightarrow>
     (\<forall>i \<in> set [0..<12]. ext2_data_blk_ok m (i_block n i)) \<and> ext2_data_blk_ok m (i_block n 12) \<and>
     i_block n 13 = 0 \<and> i_block n 14 = 0"

section \<open>Block I/O\<close>

definition ext2_read_block :: "mount \<Rightarrow> u32 \<Rightarrow> buf option \<times> mount" where
  "ext2_read_block m blk =
     (if \<not> ext2_blk_in_range m blk then (None, m)
      else let (r, d) = block_read (dev m) (disk m) (blk * sectors_per_block m) (sectors_per_block m)
           in (r, m\<lparr>disk := d\<rparr>))"

definition ext2_write_block :: "mount \<Rightarrow> u32 \<Rightarrow> buf \<Rightarrow> bool \<times> mount" where
  "ext2_write_block m blk b =
     (if \<not> ext2_blk_in_range m blk then (False, m)
      else let (r, d) = block_write (dev m) (disk m) (blk * sectors_per_block m) (sectors_per_block m) b
           in (r, m\<lparr>disk := d\<rparr>))"

definition ext2_write_superblock :: "mount \<Rightarrow> bool \<times> mount" where
  "ext2_write_superblock m =
     (case ext2_read_block m (sb_block m) of
        (None, m) \<Rightarrow> (False, m)
      | (Some b, m) \<Rightarrow> ext2_write_block m (sb_block m) (memcpy_at b 0 (sb m) 0 SB_SIZE))"

definition ext2_write_group_desc :: "mount \<Rightarrow> bool \<times> mount" where
  "ext2_write_group_desc m =
     (case ext2_read_block m (gd_block m) of
        (None, m) \<Rightarrow> (False, m)
      | (Some b, m) \<Rightarrow> ext2_write_block m (gd_block m) (memcpy_at b 0 (gd m) 0 GD_SIZE))"

text \<open>The block and the offset in it of an inode.\<close>

definition inode_pos :: "mount \<Rightarrow> u32 \<Rightarrow> u32 \<times> u32" where
  "inode_pos m ino =
     (let off = (ino - 1) * inode_size m in (inode_table_block m + off div block_size m, off mod block_size m))"

definition ext2_read_inode :: "mount \<Rightarrow> u32 \<Rightarrow> ext2_inode option \<times> mount" where
  "ext2_read_inode m ino =
     (if ino < 1 \<or> ino > s_inodes_count (sb m) then (None, m)
      else let (blk, in_block) = inode_pos m ino
           in if blk \<ge> inode_table_block m + inode_table_blocks m then (None, m)
              else case ext2_read_block m blk of
                     (None, m) \<Rightarrow> (None, m)
                   | (Some b, m) \<Rightarrow> (Some (slice b (unat in_block) INODE_SIZE), m))"

definition ext2_write_inode :: "mount \<Rightarrow> u32 \<Rightarrow> ext2_inode \<Rightarrow> bool \<times> mount" where
  "ext2_write_inode m ino n =
     (if ino < 1 \<or> ino > s_inodes_count (sb m) then (False, m)
      else let (blk, in_block) = inode_pos m ino
           in if blk \<ge> inode_table_block m + inode_table_blocks m then (False, m)
              else case ext2_read_block m blk of
                     (None, m) \<Rightarrow> (False, m)
                   | (Some b, m) \<Rightarrow> ext2_write_block m blk (memcpy_at b (unat in_block) n 0 INODE_SIZE))"

section \<open>Geometry of a validated mount\<close>

text \<open>Field sizes in natural numbers.\<close>

definition nblocks :: "mount \<Rightarrow> nat" where "nblocks m = unat (s_blocks_count (sb m))"
definition ninodes :: "mount \<Rightarrow> nat" where "ninodes m = unat (s_inodes_count (sb m))"
definition bb :: "mount \<Rightarrow> nat" where "bb m = unat (bg_block_bitmap (gd m))"
definition ib :: "mount \<Rightarrow> nat" where "ib m = unat (bg_inode_bitmap (gd m))"
definition it :: "mount \<Rightarrow> nat" where "it m = unat (bg_inode_table (gd m))"
definition itb :: "mount \<Rightarrow> nat" where "itb m = unat (inode_table_blocks m)"
definition fdb :: "mount \<Rightarrow> nat" where "fdb m = unat (first_data_block m)"

lemmas geo_nat = nblocks_def ninodes_def bb_def ib_def it_def itb_def fdb_def

text \<open>
  What \<^verbatim>\<open>ext2_mount\<close> establishes and every operation keeps: one group of 1 KiB blocks that fits on the
  device, bitmaps that cover the group, metadata spans that do not overlap, and a first data block
  above all of them.
\<close>

definition geo :: "mount \<Rightarrow> bool" where
  "geo m \<longleftrightarrow> block_size m = 1024 \<and> sectors_per_block m = 2 \<and> inode_size m = 128 \<and> sb_block m = 1 \<and> gd_block m = 2 \<and>
     s_first_data_block (sb m) = 1 \<and> nblocks m \<le> 8193 \<and> 2 * nblocks m \<le> unat (sector_count (dev m)) \<and>
     11 \<le> ninodes m \<and> ninodes m \<le> 8192 \<and> inode_table_block m = bg_inode_table (gd m) \<and>
     itb m = (ninodes m * 128 + 1023) div 1024 \<and>
     3 \<le> bb m \<and> 3 \<le> ib m \<and> 3 \<le> it m \<and> bb m \<noteq> ib m \<and> \<not> (it m \<le> bb m \<and> bb m < it m + itb m) \<and>
     \<not> (it m \<le> ib m \<and> ib m < it m + itb m) \<and>
     bb m < fdb m \<and> ib m < fdb m \<and> it m + itb m \<le> fdb m \<and> fdb m \<le> nblocks m \<and>
     unat (alloc_start_bit m) = fdb m - 1"

lemma geo_simps:
  assumes "geo m"
  shows "block_size m = 1024" "sectors_per_block m = 2" "inode_size m = 128" "sb_block m = 1" "gd_block m = 2"
    "s_first_data_block (sb m) = 1" "inode_table_block m = bg_inode_table (gd m)"
  using assms by (simp_all add: geo_def)

text \<open>The contents of a block, and the mount after a block has been written.\<close>

definition blk_data :: "mount \<Rightarrow> nat \<Rightarrow> buf" where
  "blk_data m b = (\<lambda>i. if i < 1024 then media (disk m) (b * 1024 + i) else 0)"

definition upd_blk :: "mount \<Rightarrow> nat \<Rightarrow> buf \<Rightarrow> mount" where
  "upd_blk m b v = m\<lparr>disk := (disk m)\<lparr>media := put_sectors (media (disk m)) (b * 2) 2 v\<rparr>\<rparr>"

lemma upd_blk_sel [simp]:
  "dev (upd_blk m b v) = dev m" "sb (upd_blk m b v) = sb m" "gd (upd_blk m b v) = gd m"
  "block_size (upd_blk m b v) = block_size m" "sectors_per_block (upd_blk m b v) = sectors_per_block m"
  "inode_size (upd_blk m b v) = inode_size m" "inode_table_block (upd_blk m b v) = inode_table_block m"
  "inode_table_blocks (upd_blk m b v) = inode_table_blocks m" "first_data_block (upd_blk m b v) = first_data_block m"
  "alloc_start_bit (upd_blk m b v) = alloc_start_bit m" "sb_block (upd_blk m b v) = sb_block m"
  "gd_block (upd_blk m b v) = gd_block m" "lock (upd_blk m b v) = lock m" "node_cache (upd_blk m b v) = node_cache m"
  "node_cache_size (upd_blk m b v) = node_cache_size m"
  by (simp_all add: upd_blk_def)

lemma geo_nat_upd [simp]:
  "nblocks (upd_blk m b v) = nblocks m" "ninodes (upd_blk m b v) = ninodes m" "bb (upd_blk m b v) = bb m"
  "ib (upd_blk m b v) = ib m" "it (upd_blk m b v) = it m" "itb (upd_blk m b v) = itb m" "fdb (upd_blk m b v) = fdb m"
  by (simp_all add: geo_nat)

lemma geo_upd_blk [simp]: "geo (upd_blk m b v) = geo m"
  by (simp add: geo_def)

lemma blk_data_upd: "blk_data (upd_blk m b v) c = (if c = b then slice v 0 1024 else blk_data m c)"
proof (rule ext)
  fix i
  have "b * 1024 \<le> c * 1024 + i \<and> c * 1024 + i < (b * 2 + 2) * 512 \<longleftrightarrow> c = b" if "i < 1024"
    using that by auto
  then show "blk_data (upd_blk m b v) c i = (if c = b then slice v 0 1024 else blk_data m c) i"
    by (auto simp: blk_data_def upd_blk_def put_sectors_def slice_def)
qed

lemma blk_data_other [simp]:
  "blk_data (m\<lparr>sb := s\<rparr>) = blk_data m" "blk_data (m\<lparr>gd := g\<rparr>) = blk_data m" "blk_data (m\<lparr>lock := l\<rparr>) = blk_data m"
  "blk_data (m\<lparr>node_cache := nc\<rparr>) = blk_data m"
  by (simp_all add: blk_data_def fun_eq_iff)

lemma slice_blk_data [simp]: "slice (blk_data m b) 0 1024 = blk_data m b"
  by (auto simp: slice_def blk_data_def)

text \<open>On a device that does not fail, block I/O is reading and updating \<open>blk_data\<close>.\<close>

definition live :: "mount \<Rightarrow> bool" where
  "live m \<longleftrightarrow> geo m \<and> device_live (dev m)"

lemma live_upd [simp]: "live (upd_blk m b v) = live m"
  by (simp add: live_def)

lemma blk_sectors:
  assumes "geo m" and "unat blk < nblocks m"
  shows "unat (blk * 2 :: u32) = unat blk * 2" "in_device (dev m) (blk * 2) 2"
proof -
  have "unat blk < 8193" using assms by (simp add: geo_def)
  then show "unat (blk * 2 :: u32) = unat blk * 2" by (simp add: unat_word_ariths)
  then show "in_device (dev m) (blk * 2) 2" using assms by (simp add: in_device_def geo_def)
qed

lemma in_range_iff: "geo m \<Longrightarrow> ext2_blk_in_range m blk \<longleftrightarrow> 0 < unat blk \<and> unat blk < nblocks m"
  by (simp add: ext2_blk_in_range_def ext2_blk_in_range_raw_def geo_simps word_le_nat_alt word_less_nat_alt nblocks_def
      Suc_le_eq)

lemma read_block_live:
  assumes "live m" and "0 < unat blk" and "unat blk < nblocks m"
  shows "ext2_read_block m blk = (Some (blk_data m (unat blk)), m)"
proof -
  have g: "geo m" "device_live (dev m)" using assms(1) by (simp_all add: live_def)
  note s = blk_sectors [OF g(1) assms(3)]
  have "sector_data (disk m) (unat blk * 2) 2 = blk_data m (unat blk)"
    by (auto simp: sector_data_def blk_data_def algebra_simps)
  then have "block_read (dev m) (disk m) (blk * 2) 2 = (Some (blk_data m (unat blk)), disk m)"
    using g(2) s by (simp add: block_read_def block_range_ok_iff device_live_def)
  then show ?thesis
    using assms g(1) by (simp add: ext2_read_block_def in_range_iff geo_simps)
qed

lemma write_block_live:
  assumes "live m" and "0 < unat blk" and "unat blk < nblocks m"
  shows "ext2_write_block m blk v = (True, upd_blk m (unat blk) v)"
proof -
  have g: "geo m" "device_live (dev m)" using assms(1) by (simp_all add: live_def)
  note s = blk_sectors [OF g(1) assms(3)]
  have "block_write (dev m) (disk m) (blk * 2) 2 v =
      (True, (disk m)\<lparr>media := put_sectors (media (disk m)) (unat blk * 2) 2 v\<rparr>)"
    using g(2) s by (simp add: block_write_def block_range_ok_iff device_live_def)
  then show ?thesis
    using assms g(1) by (simp add: ext2_write_block_def in_range_iff geo_simps upd_blk_def)
qed

lemma meta_range:
  assumes "geo m"
  shows "1 < nblocks m" "2 < nblocks m" "0 < bb m" "bb m < nblocks m" "0 < ib m" "ib m < nblocks m"
  using assms by (auto simp: geo_def)

lemma write_superblock_live:
  assumes "live m"
  shows "ext2_write_superblock m = (True, upd_blk m 1 (memcpy_at (blk_data m 1) 0 (sb m) 0 SB_SIZE))"
proof -
  have g: "geo m" "sb_block m = 1" using assms by (simp_all add: live_def geo_simps)
  then show ?thesis using assms meta_range [OF g(1)] read_block_live [of m 1] write_block_live [of m 1]
    by (simp add: ext2_write_superblock_def)
qed

lemma write_group_desc_live:
  assumes "live m"
  shows "ext2_write_group_desc m = (True, upd_blk m 2 (memcpy_at (blk_data m 2) 0 (gd m) 0 GD_SIZE))"
proof -
  have g: "geo m" "gd_block m = 2" using assms by (simp_all add: live_def geo_simps)
  then show ?thesis using assms meta_range [OF g(1)] read_block_live [of m 2] write_block_live [of m 2]
    by (simp add: ext2_write_group_desc_def)
qed

section \<open>The inode table\<close>

definition valid_ino :: "mount \<Rightarrow> u32 \<Rightarrow> bool" where
  "valid_ino m ino \<longleftrightarrow> 1 \<le> unat ino \<and> unat ino \<le> ninodes m"

definition iblk :: "mount \<Rightarrow> u32 \<Rightarrow> nat" where "iblk m ino = it m + (unat ino - 1) div 8"
definition ioff :: "u32 \<Rightarrow> nat" where "ioff ino = (unat ino - 1) mod 8 * 128"

lemma iblk_upd [simp]: "iblk (upd_blk m b v) ino = iblk m ino"
  by (simp add: iblk_def)

text \<open>The inode stored in the inode table.\<close>

definition inode_at :: "mount \<Rightarrow> u32 \<Rightarrow> ext2_inode" where
  "inode_at m ino = slice (blk_data m (iblk m ino)) (ioff ino) INODE_SIZE"

lemma iblk_bounds:
  assumes "geo m" and "valid_ino m ino"
  shows "it m \<le> iblk m ino" "iblk m ino < it m + itb m" "0 < iblk m ino" "iblk m ino < nblocks m" "ioff ino + 128 \<le> 1024"
proof -
  have "(unat ino - 1) div 8 < (ninodes m * 128 + 1023) div 1024"
  proof -
    have "unat ino - 1 < ninodes m" using assms(2) by (auto simp: valid_ino_def)
    then have "(unat ino - 1) * 128 < ninodes m * 128" by simp
    then have "(unat ino - 1) * 128 div 1024 * 1024 + 1024 \<le> ninodes m * 128 + 1023"
      using div_times_less_eq_dividend [of "(unat ino - 1) * 128" 1024] by linarith
    then have "(unat ino - 1) * 128 div 1024 + 1 \<le> (ninodes m * 128 + 1023) div 1024"
      by (simp add: less_eq_div_iff_mult_less_eq)
    moreover have "(unat ino - 1) * 128 div 1024 = (unat ino - 1) div 8" by simp
    ultimately show ?thesis by simp
  qed
  then show "iblk m ino < it m + itb m" using assms(1) by (simp add: iblk_def geo_def)
  then show "iblk m ino < nblocks m" using assms(1) by (simp add: geo_def)
  show "it m \<le> iblk m ino" "0 < iblk m ino" using assms(1) by (simp_all add: iblk_def geo_def)
  have "(unat ino - 1) mod 8 \<le> 7" by simp
  then show "ioff ino + 128 \<le> 1024" unfolding ioff_def by linarith
qed

lemma inode_pos_nat:
  assumes "geo m" and "valid_ino m ino"
  shows "inode_pos m ino = (of_nat (iblk m ino), of_nat (ioff ino))"
proof -
  have i: "unat (ino - 1) = unat ino - 1" "unat ino - 1 < 8192"
    using assms by (auto simp: valid_ino_def geo_def unat_sub word_le_nat_alt)
  have "unat (ino - 1) * unat (128 :: u32) < 4294967296" using i by simp
  then have off: "unat ((ino - 1) * 128) = (unat ino - 1) * 128"
    unfolding unat_mult32 [OF \<open>unat (ino - 1) * unat (128 :: u32) < 4294967296\<close>] i(1) by simp
  have it: "unat (bg_inode_table (gd m)) = it m" "it m \<le> 8193"
    by (simp add: it_def) (use assms(1) in \<open>auto simp: geo_def\<close>)
  have "unat (((ino - 1) * 128) div 1024) = (unat ino - 1) div 8"
    unfolding unat_div_distrib off by simp
  moreover have "(unat ino - 1) div 8 < 1024" using i(2) by (simp add: less_mult_imp_div_less)
  ultimately have "unat (bg_inode_table (gd m) + ((ino - 1) * 128) div 1024) = iblk m ino"
    using it by (simp add: unat_word_ariths iblk_def)
  moreover have "unat (((ino - 1) * 128) mod 1024) = ioff ino"
    unfolding unat_mod_distrib off ioff_def using mod_mult_mult2 [of "unat ino - 1" 128 8] by simp
  moreover have "x = of_nat (unat x)" for x :: u32 by simp
  ultimately show ?thesis
    unfolding inode_pos_def Let_def geo_simps [OF assms(1)] by metis
qed

lemma valid_ino_iff: "geo m \<Longrightarrow> ino < 1 \<or> ino > s_inodes_count (sb m) \<longleftrightarrow> \<not> valid_ino m ino"
  by (auto simp: valid_ino_def ninodes_def word_less_nat_alt)

lemma inode_blk_ok:
  assumes "geo m" and "valid_ino m ino"
  shows "unat (of_nat (iblk m ino) :: u32) = iblk m ino" "unat (of_nat (ioff ino) :: u32) = ioff ino"
    "\<not> inode_table_block m + inode_table_blocks m \<le> of_nat (iblk m ino)"
proof -
  note b = iblk_bounds [OF assms]
  have n: "nblocks m \<le> 8193" using assms(1) by (simp add: geo_def)
  then show u: "unat (of_nat (iblk m ino) :: u32) = iblk m ino" using b(4) by (intro unat_of_nat32) simp
  show "unat (of_nat (ioff ino) :: u32) = ioff ino" using b(5) by (intro unat_of_nat32) simp
  have "it m + itb m \<le> 8193" using assms(1) by (auto simp: geo_def)
  then have "unat (inode_table_block m + inode_table_blocks m) = it m + itb m"
    using geo_simps(7) [OF assms(1)] by (simp add: unat_word_ariths it_def itb_def)
  then show "\<not> inode_table_block m + inode_table_blocks m \<le> of_nat (iblk m ino)"
    using b(2) u by (simp add: word_le_nat_alt)
qed

lemma read_inode_live:
  assumes "live m" and "valid_ino m ino"
  shows "ext2_read_inode m ino = (Some (inode_at m ino), m)"
proof -
  have g: "geo m" using assms(1) by (simp add: live_def)
  note b = iblk_bounds [OF g assms(2)] and o = inode_blk_ok [OF g assms(2)]
  show ?thesis
    using assms valid_ino_iff [OF g] o b read_block_live [OF assms(1), of "of_nat (iblk m ino)"]
    by (simp add: ext2_read_inode_def inode_pos_nat [OF g assms(2)] inode_at_def)
qed

definition put_inode :: "mount \<Rightarrow> u32 \<Rightarrow> ext2_inode \<Rightarrow> mount" where
  "put_inode m ino n = upd_blk m (iblk m ino) (memcpy_at (blk_data m (iblk m ino)) (ioff ino) n 0 INODE_SIZE)"

lemma write_inode_live:
  assumes "live m" and "valid_ino m ino"
  shows "ext2_write_inode m ino n = (True, put_inode m ino n)"
proof -
  have g: "geo m" using assms(1) by (simp add: live_def)
  note b = iblk_bounds [OF g assms(2)] and o = inode_blk_ok [OF g assms(2)]
  show ?thesis
    using assms valid_ino_iff [OF g] o b read_block_live [OF assms(1), of "of_nat (iblk m ino)"]
      write_block_live [OF assms(1), of "of_nat (iblk m ino)"]
    by (simp add: ext2_write_inode_def inode_pos_nat [OF g assms(2)] put_inode_def)
qed

lemma ino_cases:
  assumes "valid_ino m a" and "valid_ino m b" and "a \<noteq> b"
  shows "iblk m a \<noteq> iblk m b \<or> ioff a + 128 \<le> ioff b \<or> ioff b + 128 \<le> ioff a"
proof -
  have "unat a - 1 \<noteq> unat b - 1" using assms by (auto simp: valid_ino_def word_unat_eq_iff)
  then have "(unat a - 1) div 8 \<noteq> (unat b - 1) div 8 \<or> (unat a - 1) mod 8 \<noteq> (unat b - 1) mod 8"
    by (metis div_mult_mod_eq)
  then show ?thesis by (auto simp: iblk_def ioff_def)
qed

lemma inode_at_put:
  assumes "geo m" and "valid_ino m a" and "valid_ino m b"
  shows "inode_at (put_inode m a n) b = (if a = b then slice n 0 INODE_SIZE else inode_at m b)"
proof (cases "a = b")
  case True
  then show ?thesis using iblk_bounds(5) [OF assms(1,2)]
    by (auto simp: inode_at_def put_inode_def blk_data_upd slice_def memcpy_at_def INODE_SIZE_def fun_eq_iff)
next
  case False
  with ino_cases [OF assms(2,3)] iblk_bounds(5) [OF assms(1,3)] show ?thesis
    by (auto simp: inode_at_def put_inode_def blk_data_upd slice_def memcpy_at_def INODE_SIZE_def fun_eq_iff)
qed


lemma put_inode_sel [simp]:
  "dev (put_inode m a n) = dev m" "sb (put_inode m a n) = sb m" "gd (put_inode m a n) = gd m" "lock (put_inode m a n) = lock m"
  "geo (put_inode m a n) = geo m" "live (put_inode m a n) = live m"
  "valid_ino (put_inode m a n) = valid_ino m"
  by (simp_all add: put_inode_def valid_ino_def fun_eq_iff)

section \<open>A small volume\<close>

text \<open>
  A mount of 32 blocks and 16 inodes with the block bitmap in block 3, the inode bitmap in block 4
  and the inode table in blocks 5 and 6; \<open>b\<close> is the medium. Used to exhibit concrete runs.
\<close>

definition demo_sb :: ext2_superblock where
  "demo_sb = put16 (put32 (put32 (put32 (put32 (put32 (put32 (put32 (put32 (\<lambda>_. 0) 0 16) 4 32) 12 25) 16 6) 20 1) 32 8192) 36 8192) 40 16) 56 0xEF53"

definition demo_gd :: ext2_group_desc where
  "demo_gd = put16 (put16 (put32 (put32 (put32 (\<lambda>_. 0) 0 3) 4 4) 8 5) 12 25) 14 6"

definition demo_mount :: "buf \<Rightarrow> mount" where
  "demo_mount b = \<lparr>dev = ram_disk 64, disk = \<lparr>media = b, tick = 0\<rparr>, sb = demo_sb, gd = demo_gd, block_size = 1024,
     sectors_per_block = 2, inode_size = 128, inode_table_block = 5, inode_table_blocks = 2, first_data_block = 7,
     alloc_start_bit = 6, sb_block = 1, gd_block = 2, lock = False, node_cache = (\<lambda>_. None), node_cache_size = 0x8000\<rparr>"

lemma demo_fields [simp]:
  "s_inodes_count demo_sb = 16" "s_blocks_count demo_sb = 32" "s_free_blocks_count demo_sb = 25"
  "s_free_inodes_count demo_sb = 6" "s_first_data_block demo_sb = 1"
  "bg_block_bitmap demo_gd = 3" "bg_inode_bitmap demo_gd = 4" "bg_inode_table demo_gd = 5"
  "bg_free_blocks_count demo_gd = 25" "bg_free_inodes_count demo_gd = 6"
  by (simp_all add: demo_sb_def demo_gd_def s_inodes_count_def s_blocks_count_def s_free_blocks_count_def
      s_free_inodes_count_def s_first_data_block_def bg_block_bitmap_def bg_inode_bitmap_def bg_inode_table_def
      bg_free_blocks_count_def bg_free_inodes_count_def nos_buf)

lemma demo_geo [simp]:
  "nblocks (demo_mount b) = 32" "ninodes (demo_mount b) = 16" "bb (demo_mount b) = 3" "ib (demo_mount b) = 4"
  "it (demo_mount b) = 5" "itb (demo_mount b) = 2" "fdb (demo_mount b) = 7"
  by (simp_all add: geo_nat demo_mount_def)

lemma demo_live [simp]: "live (demo_mount b)"
  unfolding live_def geo_def demo_geo by (simp add: demo_mount_def)

section \<open>Properties\<close>

text \<open>
  C31: On a mounted volume whose device does not fail, writing an inode and reading it back gives the
  128 bytes written, reading any other inode gives what it held before, and neither touches a block
  outside the inode table; an inode number of zero or above the inode count is refused without I/O.
\<close>

theorem inode_write_read:
  assumes "live m"
  shows "(\<not> valid_ino m a \<longrightarrow> ext2_write_inode m a n = (False, m) \<and> ext2_read_inode m a = (None, m)) \<and>
    (valid_ino m a \<and> valid_ino m b \<longrightarrow>
       (\<exists>m'. ext2_write_inode m a n = (True, m') \<and>
          ext2_read_inode m' b = (Some (if a = b then slice n 0 INODE_SIZE else inode_at m b), m') \<and>
          (\<forall>c. \<not> (it m \<le> c \<and> c < it m + itb m) \<longrightarrow> blk_data m' c = blk_data m c)))"
proof -
  have g: "geo m" using assms by (simp add: live_def)
  have "\<not> (it m \<le> c \<and> c < it m + itb m) \<Longrightarrow> blk_data (put_inode m a n) c = blk_data m c" if "valid_ino m a" for c
    using iblk_bounds(1,2) [OF g that] by (auto simp: put_inode_def blk_data_upd)
  moreover have "\<not> valid_ino m a \<Longrightarrow> ext2_write_inode m a n = (False, m) \<and> ext2_read_inode m a = (None, m)"
    using valid_ino_iff [OF g, of a] by (simp add: ext2_write_inode_def ext2_read_inode_def)
  ultimately show ?thesis
    using assms g by (simp add: write_inode_live read_inode_live inode_at_put)
qed

theorem inode_write_read_witness:
  "\<exists>m'. ext2_write_inode (demo_mount (\<lambda>_. 0)) 11 (\<lambda>_. 7) = (True, m') \<and>
     ext2_read_inode m' 12 = (Some (inode_at (demo_mount (\<lambda>_. 0)) 12), m')"
  using inode_write_read [OF demo_live, of "\<lambda>_. 0" 11 "\<lambda>_. 7" 12] by (auto simp: valid_ino_def)

end
