(* ===== verification/Ext2_Frame.thy ===== *)
theory Ext2_Frame
  imports Ext2_Base
begin

text \<open>
  What the block I/O of \<^verbatim>\<open>kernel/ext2.c\<close> may change on a device that can fail at any transfer.
  \<open>frame S m m'\<close> says that between the mounts \<open>m\<close> and \<open>m'\<close> only the contents of the blocks in
  \<open>S\<close> and the free counters may differ. The lemmas here give the frame of each primitive; the
  theories of the operations compose them.
\<close>

definition skel :: "mount \<Rightarrow> block_device \<times> u32 list" where
  "skel m = (dev m, [block_size m, sectors_per_block m, inode_size m, inode_table_block m, inode_table_blocks m,
     first_data_block m, alloc_start_bit m, sb_block m, gd_block m, s_first_data_block (sb m), s_blocks_count (sb m),
     s_inodes_count (sb m), bg_block_bitmap (gd m), bg_inode_bitmap (gd m), bg_inode_table (gd m)])"

lemma skel_sel:
  assumes "skel m' = skel m"
  shows "dev m' = dev m" "geo m' = geo m" "nblocks m' = nblocks m" "ninodes m' = ninodes m" "bb m' = bb m" "ib m' = ib m"
    "it m' = it m" "itb m' = itb m" "fdb m' = fdb m" "live m' = live m" "iblk m' = iblk m" "valid_ino m' = valid_ino m"
    "ext2_data_blk_ok m' = ext2_data_blk_ok m" "ext2_inode_pointers_ok m' = ext2_inode_pointers_ok m"
  using assms
  by (simp_all add: skel_def geo_def geo_nat live_def iblk_def valid_ino_def ext2_data_blk_ok_def
      ext2_inode_pointers_ok_def fun_eq_iff)

lemma skel_upd [simp]:
  "skel (m\<lparr>disk := d\<rparr>) = skel m" "skel (m\<lparr>lock := l\<rparr>) = skel m" "skel (m\<lparr>node_cache := nc\<rparr>) = skel m"
  "skel (upd_blk m b v) = skel m"
  by (simp_all add: skel_def)

definition frame :: "nat set \<Rightarrow> mount \<Rightarrow> mount \<Rightarrow> bool" where
  "frame S m m' \<longleftrightarrow> skel m' = skel m \<and> (\<forall>c. c \<notin> S \<longrightarrow> blk_data m' c = blk_data m c)"

lemma frame_refl [simp, intro]: "frame S m m"
  by (simp add: frame_def)

lemma frame_trans [trans]: "frame S a b \<Longrightarrow> frame T b c \<Longrightarrow> frame (S \<union> T) a c"
  by (simp add: frame_def)

lemma frame_trans1: "frame S a b \<Longrightarrow> frame S b c \<Longrightarrow> frame S a c"
  by (simp add: frame_def)

lemma frame_mono: "frame S a b \<Longrightarrow> S \<subseteq> T \<Longrightarrow> frame T a b"
  by (auto simp: frame_def)

lemma frame_sel:
  assumes "frame S m m'"
  shows "dev m' = dev m" "geo m' = geo m" "nblocks m' = nblocks m" "ninodes m' = ninodes m" "bb m' = bb m" "ib m' = ib m"
    "it m' = it m" "itb m' = itb m" "fdb m' = fdb m" "live m' = live m" "iblk m' = iblk m" "valid_ino m' = valid_ino m"
    "ext2_data_blk_ok m' = ext2_data_blk_ok m" "ext2_inode_pointers_ok m' = ext2_inode_pointers_ok m"
    "skel m' = skel m"
  using assms skel_sel [of m' m] by (simp_all add: frame_def)

lemma frame_blk: "frame S m m' \<Longrightarrow> c \<notin> S \<Longrightarrow> blk_data m' c = blk_data m c"
  by (simp add: frame_def)

text \<open>A mount on a device that meets the driver contract but may fail.\<close>

definition sound :: "mount \<Rightarrow> bool" where
  "sound m \<longleftrightarrow> geo m \<and> device_ok (dev m)"

lemma frame_sound: "frame S m m' \<Longrightarrow> sound m \<Longrightarrow> sound m'"
  by (simp add: sound_def frame_sel)

lemma live_sound: "live m \<Longrightarrow> sound m"
  by (simp add: live_def sound_def device_live_ok)

lemma read_block_frame:
  assumes "sound m" and "ext2_read_block m blk = (r, m')"
  shows "frame {} m m' \<and> (\<exists>d. m' = m\<lparr>disk := d\<rparr>) \<and> (\<forall>v. r = Some v \<longrightarrow> v = blk_data m (unat blk) \<and> 0 < unat blk \<and> unat blk < nblocks m)"
proof (cases "ext2_blk_in_range m blk")
  case True
  have g: "geo m" "device_ok (dev m)" using assms(1) by (simp_all add: sound_def)
  have r: "0 < unat blk" "unat blk < nblocks m" using True g(1) by (simp_all add: in_range_iff)
  note s = blk_sectors [OF g(1) r(2)]
  obtain d where d: "read (dev m) (disk m) (blk * 2) 2 = (r, d)" "m' = m\<lparr>disk := d\<rparr>"
    using assms(2) True g(1) s by (auto simp: ext2_read_block_def geo_simps block_read_def block_range_ok_iff split: prod.splits)
  have "media d = media (disk m) \<and> (\<forall>v. r = Some v \<longrightarrow> v = sector_data (disk m) (unat (blk * 2)) (unat (2 :: u32)))"
    using g(2) s(2) d(1) unfolding device_ok_def by (metis fst_conv snd_conv)
  then have med: "media d = media (disk m)" and v: "\<And>v. r = Some v \<Longrightarrow> v = sector_data (disk m) (unat blk * 2) 2"
    by (simp_all add: s(1))
  have "sector_data (disk m) (unat blk * 2) 2 = blk_data m (unat blk)"
    by (auto simp: sector_data_def blk_data_def algebra_simps)
  with med v d(2) r show ?thesis by (auto simp: frame_def blk_data_def fun_eq_iff)
next
  case False
  then have "m' = m" "r = None" using assms(2) by (simp_all add: ext2_read_block_def)
  then show ?thesis by (auto intro!: exI [of _ "disk m"])
qed

lemma write_block_frame:
  assumes "sound m" and "ext2_write_block m blk v = (r, m')"
  shows "frame {unat blk} m m' \<and> (\<exists>d. m' = m\<lparr>disk := d\<rparr>) \<and> (r \<longrightarrow> blk_data m' (unat blk) = slice v 0 1024)"
proof (cases "ext2_blk_in_range m blk")
  case True
  have g: "geo m" "device_ok (dev m)" using assms(1) by (simp_all add: sound_def)
  have r: "0 < unat blk" "unat blk < nblocks m" using True g(1) by (simp_all add: in_range_iff)
  note s = blk_sectors [OF g(1) r(2)]
  obtain d where d: "write_op (dev m) (disk m) (blk * 2) 2 v = (r, d)" "m' = m\<lparr>disk := d\<rparr>"
    using assms(2) True g(1) s by (auto simp: ext2_write_block_def geo_simps block_write_def block_range_ok_iff split: prod.splits)
  have "(r \<longrightarrow> media d = put_sectors (media (disk m)) (unat (blk * 2)) (unat (2 :: u32)) v) \<and>
      (\<forall>x. \<not> (unat (blk * 2) * 512 \<le> x \<and> x < (unat (blk * 2) + unat (2 :: u32)) * 512) \<longrightarrow> media d x = media (disk m) x)"
    using g(2) s(2) d(1) unfolding device_ok_def by (metis fst_conv snd_conv)
  then have w: "r \<Longrightarrow> media d = put_sectors (media (disk m)) (unat blk * 2) 2 v"
    and o: "\<And>x. \<not> (unat blk * 2 * 512 \<le> x \<and> x < (unat blk * 2 + 2) * 512) \<Longrightarrow> media d x = media (disk m) x"
    by (simp_all add: s(1))
  have "r \<Longrightarrow> blk_data m' (unat blk) = slice v 0 1024"
    using w d(2) by (auto simp: blk_data_def put_sectors_def slice_def)
  moreover have "blk_data m' c = blk_data m c" if "c \<noteq> unat blk" for c
  proof (rule ext)
    fix i
    have "media d (c * 1024 + i) = media (disk m) (c * 1024 + i)" if "i < 1024"
      using that \<open>c \<noteq> unat blk\<close> by (intro o) auto
    then show "blk_data m' c i = blk_data m c i" using d(2) by (simp add: blk_data_def)
  qed
  ultimately show ?thesis using d(2) by (auto simp: frame_def)
next
  case False
  then have "m' = m" "r = False" using assms(2) by (simp_all add: ext2_write_block_def)
  then show ?thesis by (auto intro!: exI [of _ "disk m"])
qed

lemma read_write_frame:
  assumes "sound m"
    and "(case ext2_read_block m blk of (None, m) \<Rightarrow> (False, m) | (Some b, m) \<Rightarrow> ext2_write_block m blk (f b)) = (r, m')"
  shows "frame {unat blk} m m' \<and> (\<exists>d. m' = m\<lparr>disk := d\<rparr>) \<and> (r \<longrightarrow> blk_data m' (unat blk) = slice (f (blk_data m (unat blk))) 0 1024)"
proof -
  obtain x m1 where 1: "ext2_read_block m blk = (x, m1)" by (cases "ext2_read_block m blk") auto
  note r = read_block_frame [OF assms(1) 1]
  show ?thesis
  proof (cases x)
    case None
    then show ?thesis using assms(2) 1 r by (auto intro: frame_mono)
  next
    case (Some b)
    then have w: "ext2_write_block m1 blk (f b) = (r, m')" using assms(2) 1 by simp
    from r have s1: "sound m1" using frame_sound assms(1) by blast
    from r Some obtain d1 where m1: "m1 = m\<lparr>disk := d1\<rparr>" "b = blk_data m (unat blk)" "frame {} m m1" by auto
    then show ?thesis using write_block_frame [OF s1 w] frame_trans [of "{}" m m1 "{unat blk}" m'] by auto
  qed
qed

lemma write_superblock_frame:
  assumes "sound m" and "ext2_write_superblock m = (r, m')"
  shows "frame {1} m m'" "\<exists>d. m' = m\<lparr>disk := d\<rparr>"
proof -
  have "sb_block m = 1" using assms(1) by (simp add: sound_def geo_simps)
  then show "frame {1} m m'" "\<exists>d. m' = m\<lparr>disk := d\<rparr>"
    using read_write_frame [OF assms(1), of 1 "\<lambda>b. memcpy_at b 0 (sb m) 0 SB_SIZE" r m'] assms(2)
      read_block_frame [OF assms(1), of 1]
    by (auto simp: ext2_write_superblock_def split: prod.splits option.splits)
qed

lemma write_group_desc_frame:
  assumes "sound m" and "ext2_write_group_desc m = (r, m')"
  shows "frame {2} m m'" "\<exists>d. m' = m\<lparr>disk := d\<rparr>"
proof -
  have "gd_block m = 2" using assms(1) by (simp add: sound_def geo_simps)
  then show "frame {2} m m'" "\<exists>d. m' = m\<lparr>disk := d\<rparr>"
    using read_write_frame [OF assms(1), of 2 "\<lambda>b. memcpy_at b 0 (gd m) 0 GD_SIZE" r m'] assms(2)
      read_block_frame [OF assms(1), of 2]
    by (auto simp: ext2_write_group_desc_def split: prod.splits option.splits)
qed

lemma read_inode_frame:
  assumes "sound m" and "ext2_read_inode m ino = (r, m')"
  shows "frame {} m m'" "\<exists>d. m' = m\<lparr>disk := d\<rparr>" "\<And>n. r = Some n \<Longrightarrow> valid_ino m ino \<and> n = inode_at m ino"
proof -
  have g: "geo m" using assms(1) by (simp add: sound_def)
  have "frame {} m m' \<and> (\<exists>d. m' = m\<lparr>disk := d\<rparr>) \<and> (\<forall>n. r = Some n \<longrightarrow> valid_ino m ino \<and> n = inode_at m ino)"
  proof (cases "valid_ino m ino")
    case True
    note o = inode_blk_ok [OF g True]
    obtain x m1 where 1: "ext2_read_block m (of_nat (iblk m ino)) = (x, m1)"
      by (cases "ext2_read_block m (of_nat (iblk m ino))") auto
    then have "m' = m1 \<and> r = map_option (\<lambda>b. slice b (ioff ino) INODE_SIZE) x"
      using assms(2) True o valid_ino_iff [OF g]
      by (auto simp: ext2_read_inode_def inode_pos_nat [OF g True] split: option.splits)
    then show ?thesis using read_block_frame [OF assms(1) 1] True o by (auto simp: inode_at_def)
  next
    case False
    then have "m' = m" "r = None" using assms(2) valid_ino_iff [OF g] by (simp_all add: ext2_read_inode_def)
    then show ?thesis by (auto intro!: exI [of _ "disk m"])
  qed
  then show "frame {} m m'" "\<exists>d. m' = m\<lparr>disk := d\<rparr>" "\<And>n. r = Some n \<Longrightarrow> valid_ino m ino \<and> n = inode_at m ino"
    by auto
qed

lemma write_inode_frame:
  assumes "sound m" and "ext2_write_inode m ino n = (r, m')"
  shows "frame {iblk m ino} m m'" "\<exists>d. m' = m\<lparr>disk := d\<rparr>" "r \<Longrightarrow> valid_ino m ino"
proof -
  have g: "geo m" using assms(1) by (simp add: sound_def)
  have "frame {iblk m ino} m m' \<and> (\<exists>d. m' = m\<lparr>disk := d\<rparr>) \<and> (r \<longrightarrow> valid_ino m ino)"
  proof (cases "valid_ino m ino")
    case True
    note o = inode_blk_ok [OF g True]
    have "(case ext2_read_block m (of_nat (iblk m ino)) of (None, m1) \<Rightarrow> (False, m1)
        | (Some b, m1) \<Rightarrow> ext2_write_block m1 (of_nat (iblk m ino)) (memcpy_at b (ioff ino) n 0 INODE_SIZE)) = (r, m')"
      using assms(2) [unfolded ext2_write_inode_def inode_pos_nat [OF g True] Let_def prod.case o(2)] True o(3)
        valid_ino_iff [OF g] by simp
    from read_write_frame [OF assms(1) this] show ?thesis using o True by simp
  next
    case False
    then have "m' = m" "r = False" using assms(2) valid_ino_iff [OF g] by (simp_all add: ext2_write_inode_def)
    then show ?thesis by (auto intro!: exI [of _ "disk m"])
  qed
  then show "frame {iblk m ino} m m'" "\<exists>d. m' = m\<lparr>disk := d\<rparr>" "r \<Longrightarrow> valid_ino m ino" by auto
qed

section \<open>Steps that only do I/O\<close>

text \<open>Only the disk may differ, and on it only the blocks in \<open>S\<close>.\<close>

definition io :: "nat set \<Rightarrow> mount \<Rightarrow> mount \<Rightarrow> bool" where
  "io S m m' \<longleftrightarrow> frame S m m' \<and> (\<exists>d. m' = m\<lparr>disk := d\<rparr>)"

lemma io_refl [simp, intro]: "io S m m"
  by (auto simp: io_def intro!: exI [of _ "disk m"])

lemma io_trans: "io S a b \<Longrightarrow> io T b c \<Longrightarrow> io (S \<union> T) a c"
  by (auto simp: io_def intro: frame_trans)

lemma io_mono: "io S a b \<Longrightarrow> S \<subseteq> T \<Longrightarrow> io T a b"
  by (auto simp: io_def intro: frame_mono)

lemma io_frame: "io S a b \<Longrightarrow> frame S a b"
  by (simp add: io_def)

lemma io_blk: "io S m m' \<Longrightarrow> c \<notin> S \<Longrightarrow> blk_data m' c = blk_data m c"
  by (simp add: io_def frame_def)

lemma io_sel:
  assumes "io S m m'"
  shows "sb m' = sb m" "gd m' = gd m" "alloc_start_bit m' = alloc_start_bit m" "lock m' = lock m" "node_cache m' = node_cache m"
    "node_cache_size m' = node_cache_size m" "skel m' = skel m" "sound m \<Longrightarrow> sound m'"
  using assms frame_sound [of S m m'] by (auto simp: io_def)

lemmas io_skel = skel_sel [OF io_sel(7)]

lemma read_block_io:
  assumes "sound m" and "ext2_read_block m blk = (r, m')"
  shows "io {} m m'" "r = Some v \<Longrightarrow> v = blk_data m (unat blk) \<and> 0 < unat blk \<and> unat blk < nblocks m"
  using read_block_frame [OF assms] by (auto simp: io_def)

lemma write_block_io:
  assumes "sound m" and "ext2_write_block m blk v = (r, m')"
  shows "io {unat blk} m m'" "r \<Longrightarrow> blk_data m' (unat blk) = slice v 0 1024"
  using write_block_frame [OF assms] by (auto simp: io_def)

lemma write_superblock_io: "sound m \<Longrightarrow> ext2_write_superblock m = (r, m') \<Longrightarrow> io {1} m m'"
  using write_superblock_frame by (auto simp: io_def)

lemma write_group_desc_io: "sound m \<Longrightarrow> ext2_write_group_desc m = (r, m') \<Longrightarrow> io {2} m m'"
  using write_group_desc_frame by (auto simp: io_def)

lemma read_inode_io:
  assumes "sound m" and "ext2_read_inode m ino = (r, m')"
  shows "io {} m m'" "r = Some n \<Longrightarrow> valid_ino m ino \<and> n = inode_at m ino"
  using read_inode_frame [OF assms] by (auto simp: io_def)

lemma write_inode_io:
  assumes "sound m" and "ext2_write_inode m ino n = (r, m')"
  shows "io {iblk m ino} m m'" "r \<Longrightarrow> valid_ino m ino"
  using write_inode_frame [OF assms] by (auto simp: io_def)

end
