(* ===== verification/Ext2_Alloc.thy ===== *)
theory Ext2_Alloc
  imports Ext2_Frame
begin

text \<open>
  \<^verbatim>\<open>kernel/ext2.c\<close>, second part: allocation and release of blocks and inodes through the two
  bitmaps and the free counters, with the undo steps the code takes when a write fails.

  The contract both allocators meet is the locale \<open>bitmap_allocator\<close>; the next theory shows
  that they do.
\<close>

section \<open>Bitmaps\<close>

definition bm_test :: "buf \<Rightarrow> nat \<Rightarrow> bool" where
  "bm_test bm i \<longleftrightarrow> bm (i div 8) AND push_bit (i mod 8) 1 \<noteq> 0"

definition bm_set :: "buf \<Rightarrow> nat \<Rightarrow> buf" where
  "bm_set bm i = bm(i div 8 := bm (i div 8) OR push_bit (i mod 8) 1)"

definition bm_clear :: "buf \<Rightarrow> nat \<Rightarrow> buf" where
  "bm_clear bm i = bm(i div 8 := bm (i div 8) AND NOT (push_bit (i mod 8) 1))"

text \<open>The search loop: the first clear bit of a range.\<close>

definition bm_find :: "buf \<Rightarrow> u32 \<Rightarrow> u32 \<Rightarrow> nat option" where
  "bm_find bm start tot = find (\<lambda>i. \<not> bm_test bm i) [unat start..<unat tot]"

lemma bm_test_bit: "bm_test bm i \<longleftrightarrow> bit (bm (i div 8)) (i mod 8)"
  by (simp add: bm_test_def bit_iff_and_push_bit_not_eq_0)

lemma div_mod_eq8: "(i :: nat) = j \<longleftrightarrow> i div 8 = j div 8 \<and> i mod 8 = j mod 8"
  by (metis div_mult_mod_eq)

lemma bm_test_set [simp]: "bm_test (bm_set bm i) j \<longleftrightarrow> j = i \<or> bm_test bm j"
  using div_mod_eq8 [of j i] by (auto simp: bm_test_bit bm_set_def bit_simps)

lemma bm_test_clear [simp]: "bm_test (bm_clear bm i) j \<longleftrightarrow> j \<noteq> i \<and> bm_test bm j"
  using div_mod_eq8 [of j i] by (auto simp: bm_test_bit bm_clear_def bit_simps)

lemma bm_test_slice: "j < 8192 \<Longrightarrow> bm_test (slice v 0 1024) j = bm_test v j"
  by (simp add: bm_test_bit slice_def less_mult_imp_div_less)

lemma bm_find_Some:
  "bm_find bm s t = Some i \<Longrightarrow> unat s \<le> i \<and> i < unat t \<and> \<not> bm_test bm i \<and> (\<forall>j. unat s \<le> j \<and> j < i \<longrightarrow> bm_test bm j)"
proof -
  assume "bm_find bm s t = Some i"
  then obtain k where k: "k < unat t - unat s" "i = unat s + k" "\<not> bm_test bm i"
    "\<forall>j < k. bm_test bm ([unat s..<unat t] ! j)"
    by (auto simp: bm_find_def find_Some_iff)
  then have "bm_test bm j" if "unat s \<le> j" "j < i" for j
    using k(4) [rule_format, of "j - unat s"] that by simp
  with k show ?thesis by auto
qed

lemma bm_find_None: "bm_find bm s t = None \<longleftrightarrow> (\<forall>i. unat s \<le> i \<and> i < unat t \<longrightarrow> bm_test bm i)"
  by (auto simp: bm_find_def find_None_iff)

section \<open>Free counters\<close>

definition cnt_blocks :: "mount \<Rightarrow> u32 \<Rightarrow> u16 \<Rightarrow> mount" where
  "cnt_blocks m x y = m\<lparr>sb := put32 (sb m) 12 x, gd := put16 (gd m) 12 y\<rparr>"

definition cnt_inodes :: "mount \<Rightarrow> u32 \<Rightarrow> u16 \<Rightarrow> mount" where
  "cnt_inodes m x y = m\<lparr>sb := put32 (sb m) 16 x, gd := put16 (gd m) 14 y\<rparr>"

text \<open>The pairs of statements that step both copies of a counter.\<close>

definition free_blocks_dec :: "mount \<Rightarrow> mount" where
  "free_blocks_dec m = cnt_blocks m (s_free_blocks_count (sb m) - 1) (bg_free_blocks_count (gd m) - 1)"

definition free_blocks_inc :: "mount \<Rightarrow> mount" where
  "free_blocks_inc m = cnt_blocks m (s_free_blocks_count (sb m) + 1) (bg_free_blocks_count (gd m) + 1)"

definition free_inodes_dec :: "mount \<Rightarrow> mount" where
  "free_inodes_dec m = cnt_inodes m (s_free_inodes_count (sb m) - 1) (bg_free_inodes_count (gd m) - 1)"

definition free_inodes_inc :: "mount \<Rightarrow> mount" where
  "free_inodes_inc m = cnt_inodes m (s_free_inodes_count (sb m) + 1) (bg_free_inodes_count (gd m) + 1)"

text \<open>\<^verbatim>\<open>ext2_write_superblock(m) < 0 || ext2_write_group_desc(m) < 0\<close>, with its short circuit.\<close>

definition ext2_write_counts :: "mount \<Rightarrow> bool \<times> mount" where
  "ext2_write_counts m =
     (case ext2_write_superblock m of (ok, m) \<Rightarrow> if ok then ext2_write_group_desc m else (False, m))"

section \<open>Operations\<close>

definition zero_block :: buf where "zero_block = (\<lambda>_. 0)"

text \<open>The undo steps shared by the failure branches: both counters are written again, whatever
  the outcome, and the bit is cleared in the bitmap block.\<close>

definition ext2_rewrite_counts :: "mount \<Rightarrow> mount" where
  "ext2_rewrite_counts m = snd (ext2_write_group_desc (snd (ext2_write_superblock m)))"

definition ext2_alloc_block :: "mount \<Rightarrow> u32 \<times> mount" where
  "ext2_alloc_block m =
     (if s_free_blocks_count (sb m) = 0 \<or> bg_free_blocks_count (gd m) = 0 then (0, m)
      else case ext2_read_block m (bg_block_bitmap (gd m)) of
        (None, m) \<Rightarrow> (0, m)
      | (Some bm, m) \<Rightarrow>
          let total = s_blocks_count (sb m) - s_first_data_block (sb m) in
          case bm_find bm (alloc_start_bit m) total of
            None \<Rightarrow> (0, m)
          | Some i \<Rightarrow>
              let blk = of_nat i + s_first_data_block (sb m) in
              if \<not> ext2_data_blk_ok m blk \<or> blk \<ge> s_blocks_count (sb m) then (0, m)
              else let bm = bm_set bm i; (wr, m) = ext2_write_block m (bg_block_bitmap (gd m)) bm in
                if \<not> wr then (0, m)
                else let (zr, m) = ext2_write_block m blk zero_block in
                  if \<not> zr then (0, snd (ext2_write_block m (bg_block_bitmap (gd m)) (bm_clear bm i)))
                  else let (ok, m) = ext2_write_counts (free_blocks_dec m) in
                    if \<not> ok
                    then let m = ext2_rewrite_counts (free_blocks_inc m)
                         in (0, snd (ext2_write_block m (bg_block_bitmap (gd m)) (bm_clear bm i)))
                    else (blk, m))"

definition ext2_free_block :: "mount \<Rightarrow> u32 \<Rightarrow> mount" where
  "ext2_free_block m blk =
     (if blk = 0 \<or> \<not> ext2_data_blk_ok m blk then m
      else let bit = unat (blk - s_first_data_block (sb m)) in
        case ext2_read_block m (bg_block_bitmap (gd m)) of
          (None, m) \<Rightarrow> m
        | (Some bm, m) \<Rightarrow>
            if bm_test bm bit
            then let (wr, m) = ext2_write_block m (bg_block_bitmap (gd m)) (bm_clear bm bit) in
              if \<not> wr then m
              else let (ok, m) = ext2_write_counts (free_blocks_inc m) in
                if \<not> ok then ext2_rewrite_counts (free_blocks_dec m) else m
            else m)"

definition ext2_alloc_inode :: "mount \<Rightarrow> u32 \<times> mount" where
  "ext2_alloc_inode m =
     (if s_free_inodes_count (sb m) = 0 \<or> bg_free_inodes_count (gd m) = 0 then (0, m)
      else case ext2_read_block m (bg_inode_bitmap (gd m)) of
        (None, m) \<Rightarrow> (0, m)
      | (Some bm, m) \<Rightarrow>
          case bm_find bm (EXT2_FIRST_NORMAL_INO - 1) (s_inodes_count (sb m)) of
            None \<Rightarrow> (0, m)
          | Some i \<Rightarrow>
              let bm = bm_set bm i; (wr, m) = ext2_write_block m (bg_inode_bitmap (gd m)) bm in
              if \<not> wr then (0, m)
              else let (ok, m) = ext2_write_counts (free_inodes_dec m) in
                if \<not> ok
                then let m = ext2_rewrite_counts (free_inodes_inc m)
                     in (0, snd (ext2_write_block m (bg_inode_bitmap (gd m)) (bm_clear bm i)))
                else (of_nat i + 1, m))"

definition ext2_free_inode :: "mount \<Rightarrow> u32 \<Rightarrow> mount" where
  "ext2_free_inode m ino =
     (if ino < 1 \<or> ino > s_inodes_count (sb m) then m
      else let bit = unat (ino - 1) in
        case ext2_read_block m (bg_inode_bitmap (gd m)) of
          (None, m) \<Rightarrow> m
        | (Some bm, m) \<Rightarrow>
            if bm_test bm bit
            then let (wr, m) = ext2_write_block m (bg_inode_bitmap (gd m)) (bm_clear bm bit) in
              if \<not> wr then m
              else let (ok, m) = ext2_write_counts (free_inodes_inc m) in
                if \<not> ok then ext2_rewrite_counts (free_inodes_dec m) else m
            else m)"

section \<open>Counter and bitmap updates\<close>

lemmas field_defs = s_inodes_count_def s_blocks_count_def s_free_blocks_count_def s_free_inodes_count_def
  s_first_data_block_def bg_block_bitmap_def bg_inode_bitmap_def bg_inode_table_def bg_free_blocks_count_def
  bg_free_inodes_count_def

lemma skel_cnt [simp]: "skel (cnt_blocks m x y) = skel m" "skel (cnt_inodes m x y) = skel m"
  by (simp_all add: skel_def cnt_blocks_def cnt_inodes_def field_defs nos_buf)

lemma cnt_counts [simp]:
  "s_free_blocks_count (sb (cnt_blocks m x y)) = x" "bg_free_blocks_count (gd (cnt_blocks m x y)) = y"
  "s_free_inodes_count (sb (cnt_blocks m x y)) = s_free_inodes_count (sb m)"
  "bg_free_inodes_count (gd (cnt_blocks m x y)) = bg_free_inodes_count (gd m)"
  "s_free_inodes_count (sb (cnt_inodes m x y)) = x" "bg_free_inodes_count (gd (cnt_inodes m x y)) = y"
  "s_free_blocks_count (sb (cnt_inodes m x y)) = s_free_blocks_count (sb m)"
  "bg_free_blocks_count (gd (cnt_inodes m x y)) = bg_free_blocks_count (gd m)"
  by (simp_all add: cnt_blocks_def cnt_inodes_def field_defs nos_buf)

lemma blk_data_cnt [simp]: "blk_data (cnt_blocks m x y) = blk_data m" "blk_data (cnt_inodes m x y) = blk_data m"
  by (simp_all add: cnt_blocks_def cnt_inodes_def blk_data_def fun_eq_iff)

lemma cnt_frame: "frame {} m (cnt_blocks m x y)" "frame {} m (cnt_inodes m x y)"
  by (simp_all add: frame_def)

lemmas cnt_skel = skel_sel [OF skel_cnt(1)] skel_sel [OF skel_cnt(2)]

lemma cnt_undo [simp]:
  "free_blocks_inc ((free_blocks_dec m)\<lparr>disk := d\<rparr>) = m\<lparr>disk := d\<rparr>"
  "free_blocks_dec ((free_blocks_inc m)\<lparr>disk := d\<rparr>) = m\<lparr>disk := d\<rparr>"
  "free_inodes_inc ((free_inodes_dec m)\<lparr>disk := d\<rparr>) = m\<lparr>disk := d\<rparr>"
  "free_inodes_dec ((free_inodes_inc m)\<lparr>disk := d\<rparr>) = m\<lparr>disk := d\<rparr>"
  by (simp_all add: free_blocks_inc_def free_blocks_dec_def free_inodes_inc_def free_inodes_dec_def cnt_blocks_def
      cnt_inodes_def field_defs)

text \<open>Both counter blocks after a successful write.\<close>

definition sync_counts :: "mount \<Rightarrow> mount" where
  "sync_counts m = (let m1 = upd_blk m 1 (memcpy_at (blk_data m 1) 0 (sb m) 0 SB_SIZE)
     in upd_blk m1 2 (memcpy_at (blk_data m1 2) 0 (gd m) 0 GD_SIZE))"

lemma write_counts_live: "live m \<Longrightarrow> ext2_write_counts m = (True, sync_counts m)"
  by (simp add: ext2_write_counts_def write_superblock_live write_group_desc_live sync_counts_def Let_def)

lemma sync_counts_sel [simp]:
  "sb (sync_counts m) = sb m" "gd (sync_counts m) = gd m" "skel (sync_counts m) = skel m" "lock (sync_counts m) = lock m"
  "node_cache (sync_counts m) = node_cache m"
  by (simp_all add: sync_counts_def Let_def)

lemma blk_data_sync [simp]: "c \<noteq> 1 \<Longrightarrow> c \<noteq> 2 \<Longrightarrow> blk_data (sync_counts m) c = blk_data m c"
  by (simp add: sync_counts_def Let_def blk_data_upd)

lemmas sync_skel = skel_sel [OF sync_counts_sel(3)]

lemma geo_facts:
  assumes "geo m"
  shows "1 < nblocks m" "nblocks m \<le> 8193" "bb m \<noteq> 1" "bb m \<noteq> 2" "ib m \<noteq> 1" "ib m \<noteq> 2" "bb m \<noteq> ib m" "bb m < fdb m" "ib m < fdb m"
    "3 < fdb m" "fdb m \<le> nblocks m" "unat (alloc_start_bit m) = fdb m - 1" "it m + itb m \<le> fdb m" "2 < it m"
    "11 \<le> ninodes m" "ninodes m \<le> 8192"
    "unat (s_blocks_count (sb m) - s_first_data_block (sb m)) = nblocks m - 1"
proof -
  show "1 < nblocks m" "nblocks m \<le> 8193" "bb m \<noteq> 1" "bb m \<noteq> 2" "ib m \<noteq> 1" "ib m \<noteq> 2" "bb m \<noteq> ib m" "bb m < fdb m" "ib m < fdb m"
    "3 < fdb m" "fdb m \<le> nblocks m" "unat (alloc_start_bit m) = fdb m - 1" "it m + itb m \<le> fdb m" "2 < it m"
    "11 \<le> ninodes m" "ninodes m \<le> 8192"
    using assms by (auto simp: geo_def)
  then show "unat (s_blocks_count (sb m) - s_first_data_block (sb m)) = nblocks m - 1"
    using assms by (simp add: geo_simps nblocks_def unat_sub word_le_nat_alt)
qed

lemma data_blk_ok_iff: "ext2_data_blk_ok m blk \<longleftrightarrow> blk = 0 \<or> (fdb m \<le> unat blk \<and> unat blk < nblocks m)"
  by (simp add: ext2_data_blk_ok_def fdb_def nblocks_def word_le_nat_alt word_less_nat_alt)

text \<open>The mount after the allocation of the block of bit \<open>i\<close>.\<close>

definition block_taken :: "mount \<Rightarrow> nat \<Rightarrow> mount" where
  "block_taken m i = sync_counts (free_blocks_dec (upd_blk (upd_blk m (bb m) (bm_set (blk_data m (bb m)) i)) (i + 1) zero_block))"

lemma bitmap_read:
  assumes "live m"
  shows "ext2_read_block m (bg_block_bitmap (gd m)) = (Some (blk_data m (bb m)), m)"
    "ext2_read_block m (bg_inode_bitmap (gd m)) = (Some (blk_data m (ib m)), m)"
    "ext2_write_block m (bg_block_bitmap (gd m)) v = (True, upd_blk m (bb m) v)"
    "ext2_write_block m (bg_inode_bitmap (gd m)) v = (True, upd_blk m (ib m) v)"
  using assms meta_range [of m] by (simp_all add: read_block_live write_block_live live_def bb_def ib_def)

lemma alloc_block_live:
  assumes "live m" and "s_free_blocks_count (sb m) \<noteq> 0" and "bg_free_blocks_count (gd m) \<noteq> 0"
  shows "ext2_alloc_block m =
    (case bm_find (blk_data m (bb m)) (alloc_start_bit m) (s_blocks_count (sb m) - s_first_data_block (sb m)) of
       None \<Rightarrow> (0, m) | Some i \<Rightarrow> (of_nat (i + 1), block_taken m i))"
proof (cases "bm_find (blk_data m (bb m)) (alloc_start_bit m) (s_blocks_count (sb m) - s_first_data_block (sb m))")
  case None
  then show ?thesis using assms by (simp add: ext2_alloc_block_def bitmap_read)
next
  case (Some i)
  have g: "geo m" using assms(1) by (simp add: live_def)
  note f = geo_facts [OF g]
  have i: "fdb m \<le> i + 1" "i + 1 < nblocks m" using bm_find_Some [OF Some] f by auto
  have u: "unat (of_nat i + 1 :: u32) = i + 1"
    using unat_of_nat32 [of "i + 1"] i(2) f(2) by (simp add: add.commute)
  then have ok: "ext2_data_blk_ok m (of_nat i + 1)" "\<not> s_blocks_count (sb m) \<le> of_nat i + 1"
    using i by (simp_all add: data_blk_ok_iff word_le_nat_alt nblocks_def)
  have "live (free_blocks_dec (upd_blk (upd_blk m (bb m) v) (i + 1) w))" for v w
    using assms(1) by (simp add: free_blocks_dec_def cnt_skel)
  then show ?thesis
    using assms Some ok u i
    by (simp add: ext2_alloc_block_def bitmap_read geo_simps [OF g] write_block_live write_counts_live block_taken_def add.commute)
qed

definition inode_taken :: "mount \<Rightarrow> nat \<Rightarrow> mount" where
  "inode_taken m i = sync_counts (free_inodes_dec (upd_blk m (ib m) (bm_set (blk_data m (ib m)) i)))"

definition block_released :: "mount \<Rightarrow> nat \<Rightarrow> mount" where
  "block_released m i = sync_counts (free_blocks_inc (upd_blk m (bb m) (bm_clear (blk_data m (bb m)) i)))"

definition inode_released :: "mount \<Rightarrow> nat \<Rightarrow> mount" where
  "inode_released m i = sync_counts (free_inodes_inc (upd_blk m (ib m) (bm_clear (blk_data m (ib m)) i)))"

lemmas taken_defs = block_taken_def inode_taken_def block_released_def inode_released_def free_blocks_dec_def
  free_blocks_inc_def free_inodes_dec_def free_inodes_inc_def

lemma taken_skel [simp]:
  "skel (block_taken m i) = skel m" "skel (inode_taken m i) = skel m" "skel (block_released m i) = skel m"
  "skel (inode_released m i) = skel m"
  by (simp_all add: taken_defs)

lemma step_live [simp]:
  "live (free_blocks_dec m) = live m" "live (free_blocks_inc m) = live m" "live (free_inodes_dec m) = live m"
  "live (free_inodes_inc m) = live m"
  by (simp_all add: taken_defs cnt_skel)

lemma alloc_inode_live:
  assumes "live m" and "s_free_inodes_count (sb m) \<noteq> 0" and "bg_free_inodes_count (gd m) \<noteq> 0"
  shows "ext2_alloc_inode m =
    (case bm_find (blk_data m (ib m)) (EXT2_FIRST_NORMAL_INO - 1) (s_inodes_count (sb m)) of
       None \<Rightarrow> (0, m) | Some i \<Rightarrow> (of_nat (i + 1), inode_taken m i))"
  using assms
  by (cases "bm_find (blk_data m (ib m)) (EXT2_FIRST_NORMAL_INO - 1) (s_inodes_count (sb m))")
    (simp_all add: ext2_alloc_inode_def bitmap_read write_counts_live inode_taken_def add.commute)

lemma free_block_live:
  assumes "live m"
  shows "ext2_free_block m blk =
    (if fdb m \<le> unat blk \<and> unat blk < nblocks m \<and> bm_test (blk_data m (bb m)) (unat blk - 1)
     then block_released m (unat blk - 1) else m)"
proof -
  have g: "geo m" using assms(1) by (simp add: live_def)
  note f = geo_facts [OF g]
  show ?thesis
  proof (cases "fdb m \<le> unat blk \<and> unat blk < nblocks m")
    case True
    then have "blk \<noteq> 0" "ext2_data_blk_ok m blk" using f(10) by (auto simp: data_blk_ok_iff)
    moreover from this have "unat (blk - 1) = unat blk - 1" by (simp add: unat_minus_one)
    ultimately show ?thesis
      using assms True by (simp add: ext2_free_block_def geo_simps(6) [OF g] bitmap_read write_counts_live block_released_def)
  next
    case False
    then show ?thesis by (auto simp: ext2_free_block_def data_blk_ok_iff)
  qed
qed

lemma free_inode_live:
  assumes "live m"
  shows "ext2_free_inode m ino =
    (if valid_ino m ino \<and> bm_test (blk_data m (ib m)) (unat ino - 1) then inode_released m (unat ino - 1) else m)"
proof -
  have g: "geo m" using assms(1) by (simp add: live_def)
  show ?thesis
  proof (cases "valid_ino m ino")
    case True
    then have "unat (ino - 1) = unat ino - 1" using unat_minus_one [of ino] by (cases "ino = 0") (auto simp: valid_ino_def)
    moreover have "ino \<noteq> 0" "\<not> s_inodes_count (sb m) < ino" using True valid_ino_iff [OF g, of ino] by auto
    ultimately show ?thesis
      using assms True by (simp add: ext2_free_inode_def bitmap_read write_counts_live inode_released_def)
  next
    case False
    then show ?thesis using valid_ino_iff [OF g, of ino] by (simp add: ext2_free_inode_def)
  qed
qed

section \<open>The allocator contract\<close>

text \<open>Repeated allocation.\<close>

primrec repeat_alloc :: "(mount \<Rightarrow> u32 \<times> mount) \<Rightarrow> nat \<Rightarrow> mount \<Rightarrow> u32 list \<times> mount" where
  "repeat_alloc alloc 0 m = ([], m)"
| "repeat_alloc alloc (Suc n) m = (let (x, m) = alloc m; (xs, m) = repeat_alloc alloc n m in (x # xs, m))"

locale bitmap_allocator =
  fixes inv :: "mount \<Rightarrow> bool" and range :: "mount \<Rightarrow> nat set" and used :: "mount \<Rightarrow> nat set"
    and alloc :: "mount \<Rightarrow> u32 \<times> mount" and release :: "mount \<Rightarrow> u32 \<Rightarrow> mount"
  assumes range_small: "inv m \<Longrightarrow> range m \<subseteq> {1..8192}"
    and used_range: "inv m \<Longrightarrow> used m \<subseteq> range m"
    and alloc_full: "inv m \<Longrightarrow> range m = used m \<Longrightarrow> alloc m = (0, m)"
    and alloc_first: "inv m \<Longrightarrow> range m \<noteq> used m \<Longrightarrow>
      \<exists>m'. alloc m = (of_nat (Min (range m - used m)), m') \<and> inv m' \<and> range m' = range m \<and>
        used m' = insert (Min (range m - used m)) (used m)"
    and release_one: "inv m \<Longrightarrow> unat x \<in> range m \<Longrightarrow>
      inv (release m x) \<and> range (release m x) = range m \<and> used (release m x) = used m - {unat x}"
begin

lemma fin: "inv m \<Longrightarrow> finite (range m - used m)"
  using range_small finite_subset by (meson finite_Diff finite_atLeastAtMost)

text \<open>The numbers handed out are the free ones in increasing order, then failures.\<close>

lemma repeat_spec:
  assumes "inv m" and "repeat_alloc alloc n m = (xs, m')"
  shows "map unat xs = take n (sorted_list_of_set (range m - used m)) @ replicate (n - card (range m - used m)) 0 \<and>
    inv m' \<and> range m' = range m \<and> used m' = used m \<union> set (take n (sorted_list_of_set (range m - used m)))"
  using assms
proof (induction n arbitrary: m xs)
  case 0
  then show ?case by simp
next
  case (Suc n)
  let ?F = "range m - used m"
  obtain x m1 ys where s: "alloc m = (x, m1)" "repeat_alloc alloc n m1 = (ys, m')" "xs = x # ys"
    using Suc.prems(2) by (auto split: prod.splits)
  show ?case
  proof (cases "range m = used m")
    case True
    then have "x = 0" "m1 = m" using alloc_full Suc.prems(1) s(1) by auto
    then show ?thesis using Suc.IH [OF Suc.prems(1)] s True by simp
  next
    case False
    then have ne: "?F \<noteq> {}" using used_range Suc.prems(1) by blast
    have fi: "finite ?F" using fin Suc.prems(1) by simp
    obtain m2 where m2: "alloc m = (of_nat (Min ?F), m2)" "inv m2" "range m2 = range m" "used m2 = insert (Min ?F) (used m)"
      using alloc_first Suc.prems(1) False by blast
    then have m1: "m1 = m2" "x = of_nat (Min ?F)" using s(1) by simp_all
    have rest: "range m2 - used m2 = ?F - {Min ?F}" using m2 by auto
    have lst: "sorted_list_of_set ?F = Min ?F # sorted_list_of_set (?F - {Min ?F})"
      using fi ne by (rule sorted_list_of_set_nonempty)
    have "Min ?F \<in> ?F" using Min_in fi ne by blast
    moreover from this have "Min ?F < 4294967296" using range_small Suc.prems(1) by fastforce
    ultimately have u: "unat x = Min ?F" using m1 by (simp add: unat_of_nat32)
    have c: "card ?F = Suc (card (?F - {Min ?F}))"
      using card.remove [OF fi \<open>Min ?F \<in> ?F\<close>] .
    show ?thesis
      using Suc.IH [OF m2(2) s(2) [unfolded m1(1)]] rest lst u c m2 s(3) by (simp add: Un_commute)
  qed
qed

lemma release_alloc:
  assumes "inv m" and "alloc m = (x, m1)" and "x \<noteq> 0"
  shows "unat x \<in> range m - used m \<and> inv (release m1 x) \<and> used (release m1 x) = used m"
proof -
  have ne: "range m \<noteq> used m" using alloc_full assms by auto
  let ?F = "range m - used m"
  obtain m2 where m2: "alloc m = (of_nat (Min ?F), m2)" "inv m2" "range m2 = range m" "used m2 = insert (Min ?F) (used m)"
    using alloc_first [OF assms(1) ne] by blast
  have "Min ?F \<in> ?F" using Min_in [of ?F] fin [OF assms(1)] ne used_range [OF assms(1)] by blast
  moreover from this have "Min ?F < 4294967296" using range_small [OF assms(1)] by fastforce
  ultimately have u: "unat x = Min ?F" "unat x \<in> ?F" using m2 assms(2) by (simp_all add: unat_of_nat32)
  then show ?thesis using release_one [of m2 x] m2 assms(2) by auto
qed

end

end
