(* ===== verification/Ext2_Alloc_Spec.thy ===== *)
theory Ext2_Alloc_Spec
  imports Ext2_Alloc
begin

text \<open>
  The block and the inode allocator of \<^verbatim>\<open>kernel/ext2.c\<close> meet the contract of a bitmap allocator,
  on a device that does not fail and with counters that agree with the bitmap.
\<close>

section \<open>Both allocators meet it\<close>

definition brange :: "mount \<Rightarrow> nat set" where "brange m = {fdb m..<nblocks m}"
definition bused :: "mount \<Rightarrow> nat set" where "bused m = {b \<in> brange m. bm_test (blk_data m (bb m)) (b - 1)}"
definition irange :: "mount \<Rightarrow> nat set" where "irange m = {11..ninodes m}"
definition iused :: "mount \<Rightarrow> nat set" where "iused m = {i \<in> irange m. bm_test (blk_data m (ib m)) (i - 1)}"

text \<open>The counters agree with the bitmap.\<close>

definition blocks_inv :: "mount \<Rightarrow> bool" where
  "blocks_inv m \<longleftrightarrow> live m \<and> unat (s_free_blocks_count (sb m)) = card (brange m - bused m) \<and>
     unat (bg_free_blocks_count (gd m)) = card (brange m - bused m)"

definition inodes_inv :: "mount \<Rightarrow> bool" where
  "inodes_inv m \<longleftrightarrow> live m \<and> unat (s_free_inodes_count (sb m)) = card (irange m - iused m) \<and>
     unat (bg_free_inodes_count (gd m)) = card (irange m - iused m)"

lemma range_skel: "skel m' = skel m \<Longrightarrow> brange m' = brange m \<and> irange m' = irange m"
  using skel_sel(3,4,9) [of m' m] by (simp add: brange_def irange_def)

lemma range_bounds:
  assumes "geo m" and "b \<in> brange m \<or> b \<in> irange m"
  shows "4 \<le> b" "b \<le> 8192" "b - 1 < 8192" "b - 1 = i \<longleftrightarrow> b = i + 1" "0 < k \<Longrightarrow> b - 1 = k - 1 \<longleftrightarrow> b = k"
proof -
  show b: "4 \<le> b" "b \<le> 8192"
    using geo_facts(2,10,16) [OF assms(1)] assms(2) by (auto simp: brange_def irange_def)
  then show "b - 1 < 8192" by linarith
  show "b - 1 = i \<longleftrightarrow> b = i + 1" using b(1) by linarith
  show "0 < k \<Longrightarrow> b - 1 = k - 1 \<longleftrightarrow> b = k" using b(1) by linarith
qed

lemma bused_taken:
  assumes "live m" and "i + 1 \<in> brange m"
  shows "bused (block_taken m i) = insert (i + 1) (bused m)" "iused (block_taken m i) = iused m"
proof -
  have g: "geo m" using assms(1) by (simp add: live_def)
  note f = geo_facts [OF g] and r = range_skel [OF taken_skel(1) [of m i]] and t = skel_sel [OF taken_skel(1) [of m i]]
  have "i + 1 \<noteq> bb m" "i + 1 \<noteq> ib m" using assms(2) f by (auto simp: brange_def)
  then have b: "blk_data (block_taken m i) (bb m) = slice (bm_set (blk_data m (bb m)) i) 0 1024"
    "blk_data (block_taken m i) (ib m) = blk_data m (ib m)"
    using f by (simp_all add: taken_defs blk_data_upd)
  have "bm_test (slice (bm_set v i) 0 1024) (b - 1) \<longleftrightarrow> b = i + 1 \<or> bm_test v (b - 1)" if "b \<in> brange m" for b v
    using that range_bounds(3) [OF g, of b] range_bounds(4) [OF g, of b i] by (simp add: bm_test_slice)
  then show "bused (block_taken m i) = insert (i + 1) (bused m)"
    unfolding bused_def t r [THEN conjunct1] b using assms(2) by blast
  show "iused (block_taken m i) = iused m"
    unfolding iused_def t r [THEN conjunct2] b by simp
qed

lemma iused_taken:
  assumes "live m" and "i + 1 \<in> irange m"
  shows "iused (inode_taken m i) = insert (i + 1) (iused m)" "bused (inode_taken m i) = bused m"
proof -
  have g: "geo m" using assms(1) by (simp add: live_def)
  note f = geo_facts [OF g] and r = range_skel [OF taken_skel(2) [of m i]] and t = skel_sel [OF taken_skel(2) [of m i]]
  have b: "blk_data (inode_taken m i) (ib m) = slice (bm_set (blk_data m (ib m)) i) 0 1024"
    "blk_data (inode_taken m i) (bb m) = blk_data m (bb m)"
    using f by (simp_all add: taken_defs blk_data_upd)
  have "bm_test (slice (bm_set v i) 0 1024) (b - 1) \<longleftrightarrow> b = i + 1 \<or> bm_test v (b - 1)" if "b \<in> irange m" for b v
    using that range_bounds(3) [OF g, of b] range_bounds(4) [OF g, of b i] by (simp add: bm_test_slice)
  then show "iused (inode_taken m i) = insert (i + 1) (iused m)"
    unfolding iused_def t r [THEN conjunct2] b using assms(2) by blast
  show "bused (inode_taken m i) = bused m"
    unfolding bused_def t r [THEN conjunct1] b by simp
qed

lemma used_released:
  assumes "live m" and "0 < k"
  shows "k \<in> brange m \<Longrightarrow> bused (block_released m (k - 1)) = bused m - {k}"
    and "k \<in> irange m \<Longrightarrow> iused (inode_released m (k - 1)) = iused m - {k}"
proof -
  have g: "geo m" using assms(1) by (simp add: live_def)
  note f = geo_facts [OF g]
  show "bused (block_released m (k - 1)) = bused m - {k}" if "k \<in> brange m"
  proof -
    note r = range_skel [OF taken_skel(3) [of m "k - 1"]] and t = skel_sel [OF taken_skel(3) [of m "k - 1"]]
    have b: "blk_data (block_released m (k - 1)) (bb m) = slice (bm_clear (blk_data m (bb m)) (k - 1)) 0 1024"
      using f by (simp add: taken_defs blk_data_upd)
    have "bm_test (slice (bm_clear v (k - 1)) 0 1024) (b - 1) \<longleftrightarrow> b \<noteq> k \<and> bm_test v (b - 1)" if "b \<in> brange m" for b v
      using that range_bounds(3) [OF g, of b] range_bounds(5) [OF g, of b k] assms(2) by (simp add: bm_test_slice)
    then show ?thesis unfolding bused_def t r [THEN conjunct1] b by blast
  qed
  show "iused (inode_released m (k - 1)) = iused m - {k}" if "k \<in> irange m"
  proof -
    note r = range_skel [OF taken_skel(4) [of m "k - 1"]] and t = skel_sel [OF taken_skel(4) [of m "k - 1"]]
    have b: "blk_data (inode_released m (k - 1)) (ib m) = slice (bm_clear (blk_data m (ib m)) (k - 1)) 0 1024"
      using f by (simp add: taken_defs blk_data_upd)
    have "bm_test (slice (bm_clear v (k - 1)) 0 1024) (b - 1) \<longleftrightarrow> b \<noteq> k \<and> bm_test v (b - 1)" if "b \<in> irange m" for b v
      using that range_bounds(3) [OF g, of b] range_bounds(5) [OF g, of b k] assms(2) by (simp add: bm_test_slice)
    then show ?thesis unfolding iused_def t r [THEN conjunct2] b by blast
  qed
qed

text \<open>The search returns the least free number.\<close>

lemma find_Min:
  assumes "finite R" and "\<And>b. b \<in> R - U \<longleftrightarrow> s + 1 \<le> b \<and> b < t + 1 \<and> \<not> bm_test bm (b - 1)"
    and "unat s' = s" and "unat t' = t"
  shows "(R = U \<or> R - U = {} \<longrightarrow> bm_find bm s' t' = None) \<and>
    (R - U \<noteq> {} \<longrightarrow> bm_find bm s' t' = Some (Min (R - U) - 1) \<and> 0 < Min (R - U) \<and> Min (R - U) \<in> R)"
proof (cases "bm_find bm s' t'")
  case None
  then have "\<not> (s \<le> b - 1 \<and> b - 1 < t \<and> \<not> bm_test bm (b - 1))" for b
    using assms(3,4) bm_find_None [of bm s' t'] by blast
  moreover have "s \<le> b - 1 \<and> b - 1 < t \<and> \<not> bm_test bm (b - 1)" if "b \<in> R - U" for b
    using assms(2) [of b] that by auto
  ultimately have "R - U = {}" by blast
  then show ?thesis using None by simp
next
  case (Some i)
  note i = bm_find_Some [OF Some, unfolded assms(3,4)]
  have m: "i + 1 \<in> R - U" using assms(2) [of "i + 1"] i by simp
  have "i + 1 \<le> b" if "b \<in> R - U" for b
  proof -
    have "s \<le> b - 1" "b - 1 < t" "\<not> bm_test bm (b - 1)" "0 < b" using assms(2) [of b] that by auto
    then show ?thesis using i by (cases "b - 1 < i") auto
  qed
  then have "Min (R - U) = i + 1" using m assms(1) by (intro Min_eqI) auto
  then show ?thesis using Some m by auto
qed


lemma brange_free: "geo m \<Longrightarrow> b \<in> brange m - bused m \<longleftrightarrow>
    (fdb m - 1) + 1 \<le> b \<and> b < (nblocks m - 1) + 1 \<and> \<not> bm_test (blk_data m (bb m)) (b - 1)"
  using geo_facts [of m] by (auto simp: brange_def bused_def)

lemma irange_free: "geo m \<Longrightarrow> i \<in> irange m - iused m \<longleftrightarrow>
    10 + 1 \<le> i \<and> i < ninodes m + 1 \<and> \<not> bm_test (blk_data m (ib m)) (i - 1)"
  by (auto simp: irange_def iused_def)

lemma card_after:
  assumes "finite R" and "x \<in> R - U"
  shows "card (R - insert x U) = card (R - U) - 1" "0 < card (R - U)"
proof -
  have "R - insert x U = (R - U) - {x}" by blast
  then show "card (R - insert x U) = card (R - U) - 1" "0 < card (R - U)"
    using assms by (auto simp: card_gt_0_iff)
qed

lemma card_back:
  assumes "finite R" and "x \<in> U" and "U \<subseteq> R"
  shows "card (R - (U - {x})) = card (R - U) + 1"
proof -
  have "R - (U - {x}) = insert x (R - U)" using assms by blast
  then show ?thesis using assms by simp
qed

lemma fin_ranges [simp]: "finite (brange m)" "finite (irange m)"
  by (simp_all add: brange_def irange_def)

lemma card_small: "geo m \<Longrightarrow> card (brange m - U) < 8193" "geo m \<Longrightarrow> card (irange m - U) < 8193"
  using geo_facts [of m] card_mono [OF fin_ranges(1) Diff_subset, of m U] card_mono [OF fin_ranges(2) Diff_subset, of m U]
  by (simp_all add: brange_def irange_def)

lemma ranges_le: "geo m \<Longrightarrow> brange m \<subseteq> {1..8192}" "geo m \<Longrightarrow> irange m \<subseteq> {1..8192}"
  using geo_facts(2,10,16) [of m] by (auto simp: brange_def irange_def)

lemma blocks_taken_inv:
  assumes "blocks_inv m" and "k \<in> brange m - bused m"
  shows "blocks_inv (block_taken m (k - 1))" "bused (block_taken m (k - 1)) = insert k (bused m)"
proof -
  have l: "live m" "geo m" using assms(1) by (simp_all add: blocks_inv_def live_def)
  have k: "k - 1 + 1 = k" using range_bounds(1) [OF l(2), of k] assms(2) by simp
  show t: "bused (block_taken m (k - 1)) = insert k (bused m)" using bused_taken(1) [OF l(1), of "k - 1"] assms(2) k by simp
  note c = card_after [OF fin_ranges(1) assms(2)]
  have n: "unat (s_free_blocks_count (sb m) - 1) = card (brange m - bused m) - 1"
    "unat (bg_free_blocks_count (gd m) - 1) = card (brange m - bused m) - 1"
    using assms(1) c(2) unfolding blocks_inv_def by (simp_all add: unat_pred)
  show "blocks_inv (block_taken m (k - 1))"
    unfolding blocks_inv_def t range_skel [OF taken_skel(1), THEN conjunct1] skel_sel(10) [OF taken_skel(1)] c(1)
    using l n by (simp add: block_taken_def free_blocks_dec_def)
qed

lemma blocks_released_inv:
  assumes "blocks_inv m" and "k \<in> bused m"
  shows "blocks_inv (block_released m (k - 1))" "bused (block_released m (k - 1)) = bused m - {k}"
proof -
  have l: "live m" "geo m" using assms(1) by (simp_all add: blocks_inv_def live_def)
  have r: "k \<in> brange m" "bused m \<subseteq> brange m" using assms(2) by (auto simp: bused_def)
  have "0 < k" using range_bounds(1) [OF l(2), of k] r(1) by simp
  then show t: "bused (block_released m (k - 1)) = bused m - {k}" using used_released(1) [OF l(1) _ r(1)] by blast
  note c = card_back [OF fin_ranges(1) assms(2) r(2)]
  have "card (brange m - bused m) + 1 < 65536" using card_small(1) [OF l(2), of "bused m"] by simp
  then have n: "unat (s_free_blocks_count (sb m) + 1) = card (brange m - bused m) + 1"
    "unat (bg_free_blocks_count (gd m) + 1) = card (brange m - bused m) + 1"
    using assms(1) unfolding blocks_inv_def by (simp_all add: unat_succ)
  show "blocks_inv (block_released m (k - 1))"
    unfolding blocks_inv_def t range_skel [OF taken_skel(3), THEN conjunct1] skel_sel(10) [OF taken_skel(3)] c
    using l n by (simp add: block_released_def free_blocks_inc_def)
qed

interpretation blocks: bitmap_allocator blocks_inv brange bused ext2_alloc_block ext2_free_block
proof
  fix m x
  assume inv: "blocks_inv m"
  then have g: "geo m" "live m" by (simp_all add: blocks_inv_def live_def)
  note fm = find_Min [OF fin_ranges(1) brange_free [OF g(1)] geo_facts(12,17) [OF g(1)]]
  show "brange m \<subseteq> {1..8192}" using ranges_le(1) [OF g(1)] .
  show sub: "bused m \<subseteq> brange m" by (auto simp: bused_def)
  show "ext2_alloc_block m = (0, m)" if "brange m = bused m"
    using inv that by (simp add: blocks_inv_def ext2_alloc_block_def unat_eq_0)
  show "\<exists>m'. ext2_alloc_block m = (of_nat (Min (brange m - bused m)), m') \<and> blocks_inv m' \<and> brange m' = brange m \<and>
      bused m' = insert (Min (brange m - bused m)) (bused m)" if "brange m \<noteq> bused m"
  proof -
    let ?M = "Min (brange m - bused m)"
    have ne: "brange m - bused m \<noteq> {}" using that sub by blast
    then have k: "?M \<in> brange m - bused m" by (intro Min_in) simp_all
    note c = card_after(2) [OF fin_ranges(1) k] and i = blocks_taken_inv [OF inv k]
    have nz: "s_free_blocks_count (sb m) \<noteq> 0" "bg_free_blocks_count (gd m) \<noteq> 0"
      using inv c unfolding blocks_inv_def by (metis less_irrefl unat_0)+
    have "ext2_alloc_block m = (of_nat ?M, block_taken m (?M - 1))"
      unfolding alloc_block_live [OF g(2) nz] fm [THEN conjunct2, rule_format, OF ne, THEN conjunct1]
      using fm [THEN conjunct2, rule_format, OF ne] by (simp del: of_nat_add of_nat_Suc)
    then show ?thesis using i range_skel [OF taken_skel(1), of m "?M - 1"] by simp
  qed
  show "blocks_inv (ext2_free_block m x) \<and> brange (ext2_free_block m x) = brange m \<and>
      bused (ext2_free_block m x) = bused m - {unat x}" if "unat x \<in> brange m"
  proof (cases "unat x \<in> bused m")
    case True
    then have "ext2_free_block m x = block_released m (unat x - 1)"
      using that by (simp add: free_block_live [OF g(2)] bused_def brange_def)
    then show ?thesis
      using blocks_released_inv [OF inv True] range_skel [OF taken_skel(3), of m "unat x - 1"] by simp
  next
    case False
    then have "ext2_free_block m x = m" using that by (simp add: free_block_live [OF g(2)] bused_def)
    then show ?thesis using inv False by simp
  qed
qed

lemma inodes_taken_inv:
  assumes "inodes_inv m" and "k \<in> irange m - iused m"
  shows "inodes_inv (inode_taken m (k - 1))" "iused (inode_taken m (k - 1)) = insert k (iused m)"
proof -
  have l: "live m" "geo m" using assms(1) by (simp_all add: inodes_inv_def live_def)
  have k: "k - 1 + 1 = k" using range_bounds(1) [OF l(2), of k] assms(2) by simp
  show t: "iused (inode_taken m (k - 1)) = insert k (iused m)" using iused_taken(1) [OF l(1), of "k - 1"] assms(2) k by simp
  note c = card_after [OF fin_ranges(2) assms(2)]
  have n: "unat (s_free_inodes_count (sb m) - 1) = card (irange m - iused m) - 1"
    "unat (bg_free_inodes_count (gd m) - 1) = card (irange m - iused m) - 1"
    using assms(1) c(2) unfolding inodes_inv_def by (simp_all add: unat_pred)
  show "inodes_inv (inode_taken m (k - 1))"
    unfolding inodes_inv_def t range_skel [OF taken_skel(2), THEN conjunct2] skel_sel(10) [OF taken_skel(2)] c(1)
    using l n by (simp add: inode_taken_def free_inodes_dec_def)
qed

lemma inodes_released_inv:
  assumes "inodes_inv m" and "k \<in> iused m"
  shows "inodes_inv (inode_released m (k - 1))" "iused (inode_released m (k - 1)) = iused m - {k}"
proof -
  have l: "live m" "geo m" using assms(1) by (simp_all add: inodes_inv_def live_def)
  have r: "k \<in> irange m" "iused m \<subseteq> irange m" using assms(2) by (auto simp: iused_def)
  have "0 < k" using range_bounds(1) [OF l(2), of k] r(1) by simp
  then show t: "iused (inode_released m (k - 1)) = iused m - {k}" using used_released(2) [OF l(1) _ r(1)] by blast
  note c = card_back [OF fin_ranges(2) assms(2) r(2)]
  have "card (irange m - iused m) + 1 < 65536" using card_small(2) [OF l(2), of "iused m"] by simp
  then have n: "unat (s_free_inodes_count (sb m) + 1) = card (irange m - iused m) + 1"
    "unat (bg_free_inodes_count (gd m) + 1) = card (irange m - iused m) + 1"
    using assms(1) unfolding inodes_inv_def by (simp_all add: unat_succ)
  show "inodes_inv (inode_released m (k - 1))"
    unfolding inodes_inv_def t range_skel [OF taken_skel(4), THEN conjunct2] skel_sel(10) [OF taken_skel(4)] c
    using l n by (simp add: inode_released_def free_inodes_inc_def)
qed

interpretation inodes: bitmap_allocator inodes_inv irange iused ext2_alloc_inode ext2_free_inode
proof
  fix m x
  assume inv: "inodes_inv m"
  then have g: "geo m" "live m" by (simp_all add: inodes_inv_def live_def)
  have "unat (EXT2_FIRST_NORMAL_INO - 1) = 10" "unat (s_inodes_count (sb m)) = ninodes m"
    by (simp_all add: EXT2_FIRST_NORMAL_INO_def ninodes_def)
  note fm = find_Min [OF fin_ranges(2) irange_free [OF g(1)] this]
  show "irange m \<subseteq> {1..8192}" using ranges_le(2) [OF g(1)] .
  show sub: "iused m \<subseteq> irange m" by (auto simp: iused_def)
  show "ext2_alloc_inode m = (0, m)" if "irange m = iused m"
    using inv that by (simp add: inodes_inv_def ext2_alloc_inode_def unat_eq_0)
  show "\<exists>m'. ext2_alloc_inode m = (of_nat (Min (irange m - iused m)), m') \<and> inodes_inv m' \<and> irange m' = irange m \<and>
      iused m' = insert (Min (irange m - iused m)) (iused m)" if "irange m \<noteq> iused m"
  proof -
    let ?M = "Min (irange m - iused m)"
    have ne: "irange m - iused m \<noteq> {}" using that sub by blast
    then have k: "?M \<in> irange m - iused m" by (intro Min_in) simp_all
    note c = card_after(2) [OF fin_ranges(2) k] and i = inodes_taken_inv [OF inv k]
    have nz: "s_free_inodes_count (sb m) \<noteq> 0" "bg_free_inodes_count (gd m) \<noteq> 0"
      using inv c unfolding inodes_inv_def by (metis less_irrefl unat_0)+
    have "ext2_alloc_inode m = (of_nat ?M, inode_taken m (?M - 1))"
      unfolding alloc_inode_live [OF g(2) nz] fm [THEN conjunct2, rule_format, OF ne, THEN conjunct1]
      using fm [THEN conjunct2, rule_format, OF ne] by (simp del: of_nat_add of_nat_Suc)
    then show ?thesis using i range_skel [OF taken_skel(2), of m "?M - 1"] by simp
  qed
  show "inodes_inv (ext2_free_inode m x) \<and> irange (ext2_free_inode m x) = irange m \<and>
      iused (ext2_free_inode m x) = iused m - {unat x}" if "unat x \<in> irange m"
  proof (cases "unat x \<in> iused m")
    case True
    then have "ext2_free_inode m x = inode_released m (unat x - 1)"
      using that by (simp add: free_inode_live [OF g(2)] iused_def irange_def valid_ino_def)
    then show ?thesis
      using inodes_released_inv [OF inv True] range_skel [OF taken_skel(4), of m "unat x - 1"] by simp
  next
    case False
    then have "ext2_free_inode m x = m" using that by (simp add: free_inode_live [OF g(2)] iused_def)
    then show ?thesis using inv False by simp
  qed
qed

section \<open>Properties\<close>

lemma demo_blank:
  "brange (demo_mount (\<lambda>_. 0)) = {7..<32}" "bused (demo_mount (\<lambda>_. 0)) = {}" "irange (demo_mount (\<lambda>_. 0)) = {11..16}"
  "iused (demo_mount (\<lambda>_. 0)) = {}" "blocks_inv (demo_mount (\<lambda>_. 0))" "inodes_inv (demo_mount (\<lambda>_. 0))"
proof -
  have z: "blk_data (demo_mount (\<lambda>_. 0)) c = (\<lambda>_. 0)" for c by (simp add: blk_data_def demo_mount_def fun_eq_iff)
  show r: "brange (demo_mount (\<lambda>_. 0)) = {7..<32}" "irange (demo_mount (\<lambda>_. 0)) = {11..16}"
    by (simp_all add: brange_def irange_def)
  show u: "bused (demo_mount (\<lambda>_. 0)) = {}" "iused (demo_mount (\<lambda>_. 0)) = {}"
    by (simp_all add: bused_def iused_def z bm_test_bit)
  show "blocks_inv (demo_mount (\<lambda>_. 0))" "inodes_inv (demo_mount (\<lambda>_. 0))"
    by (simp_all add: blocks_inv_def inodes_inv_def r u) (simp_all add: demo_mount_def)
qed

text \<open>
  C10: On a volume whose counters agree with its bitmaps, a sequence of block allocations hands out
  the free data blocks in increasing order, each once, and reports failure exactly when none is
  left; the counters keep agreeing with the bitmap; freeing a block just allocated gives the set of
  blocks in use back. The inode allocator does the same with the inodes from 11 on.
\<close>

theorem ext2_alloc_sequence:
  "(blocks_inv m \<and> repeat_alloc ext2_alloc_block n m = (xs, m') \<longrightarrow>
      map unat xs = take n (sorted_list_of_set (brange m - bused m)) @ replicate (n - card (brange m - bused m)) 0 \<and>
      blocks_inv m' \<and> bused m' = bused m \<union> set (take n (sorted_list_of_set (brange m - bused m)))) \<and>
   (blocks_inv m \<and> ext2_alloc_block m = (x, m1) \<and> x \<noteq> 0 \<longrightarrow>
      blocks_inv (ext2_free_block m1 x) \<and> bused (ext2_free_block m1 x) = bused m) \<and>
   (inodes_inv m \<and> repeat_alloc ext2_alloc_inode n m = (ys, m2) \<longrightarrow>
      map unat ys = take n (sorted_list_of_set (irange m - iused m)) @ replicate (n - card (irange m - iused m)) 0 \<and>
      inodes_inv m2 \<and> iused m2 = iused m \<union> set (take n (sorted_list_of_set (irange m - iused m)))) \<and>
   (inodes_inv m \<and> ext2_alloc_inode m = (y, m3) \<and> y \<noteq> 0 \<longrightarrow>
      inodes_inv (ext2_free_inode m3 y) \<and> iused (ext2_free_inode m3 y) = iused m)"
  using blocks.repeat_spec [of m n xs m'] blocks.release_alloc [of m x m1]
    inodes.repeat_spec [of m n ys m2] inodes.release_alloc [of m y m3] by blast

theorem ext2_alloc_sequence_witness:
  "\<exists>xs m'. repeat_alloc ext2_alloc_block 2 (demo_mount (\<lambda>_. 0)) = (xs, m') \<and> map unat xs = [7, 8] \<and> bused m' = {7, 8}"
proof -
  obtain xs m' where r: "repeat_alloc ext2_alloc_block 2 (demo_mount (\<lambda>_. 0)) = (xs, m')" by fastforce
  have t: "take 2 (sorted_list_of_set {7..<32}) = [7, 8 :: nat]"
    unfolding sorted_list_of_set_range by (simp add: upt_conv_Cons numeral_2_eq_2)
  have c: "2 - card {7..<32 :: nat} = 0" by simp
  have "map unat xs = [7, 8] @ replicate 0 0 \<and> bused m' = {} \<union> set [7, 8]"
    using ext2_alloc_sequence [THEN conjunct1, rule_format, OF conjI [OF demo_blank(5) r]]
    unfolding demo_blank(1,2) Diff_empty t c by (elim conjE) (rule conjI)
  then have "map unat xs = [7, 8]" "bused m' = {7, 8}" by simp_all
  with r show ?thesis by (intro exI conjI)
qed

end
