(* ===== verification/Ext2_Alloc_Faults.thy ===== *)
theory Ext2_Alloc_Faults
  imports Ext2_Alloc_Spec
begin

text \<open>
  What the allocators of \<^verbatim>\<open>kernel/ext2.c\<close> may change on a device where any transfer can fail:
  the frame of each operation on every path, its undo branches included.
\<close>

lemma write_counts_io:
  assumes "sound m" and "ext2_write_counts m = (r, m')"
  shows "io {1, 2} m m'"
proof -
  obtain ok m1 where 1: "ext2_write_superblock m = (ok, m1)" by (cases "ext2_write_superblock m") auto
  note s = write_superblock_io [OF assms(1) 1]
  show ?thesis
  proof (cases ok)
    case True
    then have "ext2_write_group_desc m1 = (r, m')" using assms(2) 1 by (simp add: ext2_write_counts_def)
    from io_trans [OF s write_group_desc_io [OF io_sel(8) [OF s assms(1)] this]] show ?thesis by (simp add: insert_commute)
  next
    case False
    then show ?thesis using assms(2) 1 io_mono [OF s] by (simp add: ext2_write_counts_def)
  qed
qed

lemma rewrite_counts_io: "sound m \<Longrightarrow> io {1, 2} m (ext2_rewrite_counts m)"
proof -
  assume s: "sound m"
  obtain ok m1 where 1: "ext2_write_superblock m = (ok, m1)" by (cases "ext2_write_superblock m") auto
  obtain ok2 m2 where 2: "ext2_write_group_desc m1 = (ok2, m2)" by (cases "ext2_write_group_desc m1") auto
  note i = write_superblock_io [OF s 1]
  from io_trans [OF i write_group_desc_io [OF io_sel(8) [OF i s] 2]] show ?thesis
    using 1 2 by (simp add: ext2_rewrite_counts_def insert_commute)
qed

lemma write_io_snd: "sound m \<Longrightarrow> io {unat blk} m (snd (ext2_write_block m blk v))"
  using write_block_io(1) [of m blk v "fst (ext2_write_block m blk v)"] by simp

text \<open>The counter steps do no I/O, and one that is undone after I/O leaves only the I/O.\<close>

lemma step_blk [simp]:
  "blk_data (free_blocks_dec m) = blk_data m" "blk_data (free_blocks_inc m) = blk_data m"
  "blk_data (free_inodes_dec m) = blk_data m" "blk_data (free_inodes_inc m) = blk_data m"
  by (simp_all add: taken_defs)

lemma step_sound [simp]:
  "sound (free_blocks_dec m) = sound m" "sound (free_blocks_inc m) = sound m" "sound (free_inodes_dec m) = sound m"
  "sound (free_inodes_inc m) = sound m"
  by (simp_all add: taken_defs sound_def cnt_skel)

lemma undo_io_gen:
  assumes "io S (f m) m'" and "\<And>d. g ((f m)\<lparr>disk := d\<rparr>) = m\<lparr>disk := d\<rparr>" and "\<And>x. blk_data (g x) = blk_data x"
    and "blk_data (f m) = blk_data m"
  shows "io S m (g m')"
proof -
  obtain d where d: "m' = (f m)\<lparr>disk := d\<rparr>" using assms(1) by (auto simp: io_def)
  have "blk_data (g m') c = blk_data m c" if "c \<notin> S" for c
    using io_blk [OF assms(1) that] assms(3,4) by simp
  then show ?thesis using d assms(2) by (auto simp: io_def frame_def)
qed

lemma undo_io:
  "io S (free_blocks_dec m) m' \<Longrightarrow> io S m (free_blocks_inc m')" "io S (free_blocks_inc m) m' \<Longrightarrow> io S m (free_blocks_dec m')"
  "io S (free_inodes_dec m) m' \<Longrightarrow> io S m (free_inodes_inc m')" "io S (free_inodes_inc m) m' \<Longrightarrow> io S m (free_inodes_dec m')"
  by (blast intro: undo_io_gen cnt_undo step_blk)+

lemma step_frame:
  "frame S m (free_blocks_dec m)" "frame S m (free_blocks_inc m)" "frame S m (free_inodes_dec m)" "frame S m (free_inodes_inc m)"
  by (simp_all add: taken_defs frame_def)

text \<open>The tail shared by the four operations: both counters are written; on failure the step is
  undone and they are written again.\<close>

definition undoes :: "(mount \<Rightarrow> mount) \<Rightarrow> (mount \<Rightarrow> mount) \<Rightarrow> bool" where
  "undoes f g \<longleftrightarrow> (f, g) \<in> {(free_blocks_dec, free_blocks_inc), (free_blocks_inc, free_blocks_dec),
     (free_inodes_dec, free_inodes_inc), (free_inodes_inc, free_inodes_dec)}"

lemma undoes_pairs:
  "undoes free_blocks_dec free_blocks_inc" "undoes free_blocks_inc free_blocks_dec"
  "undoes free_inodes_dec free_inodes_inc" "undoes free_inodes_inc free_inodes_dec"
  by (simp_all add: undoes_def)

lemma counts_tail:
  assumes "undoes f g" and "sound m" and "ext2_write_counts (f m) = (ok, m1)"
  shows "io {1, 2} m (ext2_rewrite_counts (g m1))" "io {1, 2} (f m) m1" "frame {1, 2} m m1"
proof -
  have "sound (f m)" using assms(1,2) by (auto simp: undoes_def)
  from write_counts_io [OF this assms(3)] show i: "io {1, 2} (f m) m1" .
  have u: "io {1, 2} m (g m1)" using assms(1) i undo_io by (auto simp: undoes_def)
  show "io {1, 2} m (ext2_rewrite_counts (g m1))"
    using io_trans [OF u rewrite_counts_io [OF io_sel(8) [OF u assms(2)]]] by simp
  have "frame {1, 2} m (f m)" using assms(1) step_frame by (auto simp: undoes_def)
  then show "frame {1, 2} m m1" using frame_trans1 io_frame [OF i] by blast
qed

lemma free_block_frame:
  assumes "sound m"
  shows "frame {1, 2, bb m} m (ext2_free_block m blk)"
proof -
  let ?b = "unat (blk - s_first_data_block (sb m))"
  obtain x m1 where 1: "ext2_read_block m (bg_block_bitmap (gd m)) = (x, m1)"
    by (cases "ext2_read_block m (bg_block_bitmap (gd m))") auto
  note r = read_block_io [OF assms 1]
  have m1: "sound m1" "gd m1 = gd m" "frame {1, 2, bb m} m m1" using io_sel [OF r(1)] assms io_frame [OF r(1)] frame_mono by auto
  obtain wr m2 where 2: "ext2_write_block m1 (bg_block_bitmap (gd m1)) (bm_clear (the x) ?b) = (wr, m2)"
    by (cases "ext2_write_block m1 (bg_block_bitmap (gd m1)) (bm_clear (the x) ?b)") auto
  note w = write_block_io(1) [OF m1(1) 2]
  have m2: "sound m2" "frame {1, 2, bb m} m m2"
    using io_sel(8) [OF w m1(1)] frame_trans1 [OF m1(3) frame_mono [OF io_frame [OF w]]] m1(2) by (auto simp: bb_def)
  obtain ok m3 where 3: "ext2_write_counts (free_blocks_inc m2) = (ok, m3)"
    by (cases "ext2_write_counts (free_blocks_inc m2)") auto
  note t = counts_tail [OF undoes_pairs(2) m2(1) 3]
  have m3: "frame {1, 2, bb m} m m3" "frame {1, 2, bb m} m (ext2_rewrite_counts (free_blocks_dec m3))"
    using frame_trans1 [OF m2(2) frame_mono [OF t(3)]] frame_trans1 [OF m2(2) frame_mono [OF io_frame [OF t(1)]]] by auto
  have "ext2_free_block m blk \<in> {m, m1, m2, m3, ext2_rewrite_counts (free_blocks_dec m3)}"
    using 1 2 3 by (cases x) (simp_all add: ext2_free_block_def Let_def)
  then show ?thesis using m1 m2 m3 by auto
qed

lemma free_inode_frame:
  assumes "sound m"
  shows "frame {1, 2, ib m} m (ext2_free_inode m ino)"
proof -
  let ?b = "unat (ino - 1)"
  obtain x m1 where 1: "ext2_read_block m (bg_inode_bitmap (gd m)) = (x, m1)"
    by (cases "ext2_read_block m (bg_inode_bitmap (gd m))") auto
  note r = read_block_io [OF assms 1]
  have m1: "sound m1" "gd m1 = gd m" "frame {1, 2, ib m} m m1" using io_sel [OF r(1)] assms io_frame [OF r(1)] frame_mono by auto
  obtain wr m2 where 2: "ext2_write_block m1 (bg_inode_bitmap (gd m1)) (bm_clear (the x) ?b) = (wr, m2)"
    by (cases "ext2_write_block m1 (bg_inode_bitmap (gd m1)) (bm_clear (the x) ?b)") auto
  note w = write_block_io(1) [OF m1(1) 2]
  have m2: "sound m2" "frame {1, 2, ib m} m m2"
    using io_sel(8) [OF w m1(1)] frame_trans1 [OF m1(3) frame_mono [OF io_frame [OF w]]] m1(2) by (auto simp: ib_def)
  obtain ok m3 where 3: "ext2_write_counts (free_inodes_inc m2) = (ok, m3)"
    by (cases "ext2_write_counts (free_inodes_inc m2)") auto
  note t = counts_tail [OF undoes_pairs(4) m2(1) 3]
  have m3: "frame {1, 2, ib m} m m3" "frame {1, 2, ib m} m (ext2_rewrite_counts (free_inodes_dec m3))"
    using frame_trans1 [OF m2(2) frame_mono [OF t(3)]] frame_trans1 [OF m2(2) frame_mono [OF io_frame [OF t(1)]]] by auto
  have "ext2_free_inode m ino \<in> {m, m1, m2, m3, ext2_rewrite_counts (free_inodes_dec m3)}"
    using 1 2 3 by (cases x) (simp_all add: ext2_free_inode_def Let_def)
  then show ?thesis using m1 m2 m3 by auto
qed

lemma step_fields:
  "sb m' = sb m \<Longrightarrow> gd m' = gd m \<Longrightarrow> sb (free_blocks_dec m') = sb (free_blocks_dec m) \<and> gd (free_blocks_dec m') = gd (free_blocks_dec m)"
  "sb m' = sb m \<Longrightarrow> gd m' = gd m \<Longrightarrow> sb (free_inodes_dec m') = sb (free_inodes_dec m) \<and> gd (free_inodes_dec m') = gd (free_inodes_dec m)"
  by (simp_all add: taken_defs cnt_blocks_def cnt_inodes_def)

lemma slice_zero [simp]: "slice zero_block 0 1024 = zero_block"
  by (simp add: slice_def zero_block_def fun_eq_iff)

text \<open>The writes of an allocation that found the clear bit \<open>i\<close>.\<close>

definition block_run :: "mount \<Rightarrow> nat \<Rightarrow> u32 \<Rightarrow> mount \<Rightarrow> bool" where
  "block_run m i r m' \<longleftrightarrow> (\<exists>m1 wr m2 zr m3 cr m4. let bm = bm_set (blk_data m (bb m)) i;
       undo = (\<lambda>n. snd (ext2_write_block n (bg_block_bitmap (gd n)) (bm_clear bm i))) in
     io {} m m1 \<and> ext2_write_block m1 (bg_block_bitmap (gd m1)) bm = (wr, m2) \<and>
     ext2_write_block m2 (of_nat i + 1) zero_block = (zr, m3) \<and> ext2_write_counts (free_blocks_dec m3) = (cr, m4) \<and>
     (r, m') = (if \<not> wr then (0, m2) else if \<not> zr then (0, undo m3)
        else if \<not> cr then (0, undo (ext2_rewrite_counts (free_blocks_inc m4))) else (of_nat i + 1, m4)))"

lemma alloc_block_run:
  assumes "sound m" and "ext2_alloc_block m = (r, m')"
  shows "(r = 0 \<and> io {} m m') \<or> (\<exists>i. i + 1 \<in> brange m - bused m \<and> unat (of_nat i + 1 :: u32) = i + 1 \<and> block_run m i r m')"
proof -
  let ?T = "s_blocks_count (sb m) - s_first_data_block (sb m)"
  have g: "geo m" using assms(1) by (simp add: sound_def)
  note f = geo_facts [OF g]
  obtain x m1 where 1: "ext2_read_block m (bg_block_bitmap (gd m)) = (x, m1)" by fastforce
  note r = read_block_io [OF assms(1) 1]
  note m1 = io_sel(1,2,3) [OF r(1)] io_skel(13) [OF r(1)]
  show ?thesis
  proof (cases "s_free_blocks_count (sb m) = 0 \<or> bg_free_blocks_count (gd m) = 0 \<or> x = None \<or>
      bm_find (the x) (alloc_start_bit m) ?T = None")
    case True
    then have "r = 0 \<and> (m' = m \<or> m' = m1)" using assms(2) 1 m1(1,3)
      by (cases x) (auto simp: ext2_alloc_block_def split: if_splits)
    then show ?thesis using r(1) by auto
  next
    case False
    then obtain v where v: "x = Some v" by (cases x) auto
    then have x: "x = Some (blk_data m (bb m))" using r(2) [OF v] by (simp add: bb_def)
    then obtain i where i: "bm_find (blk_data m (bb m)) (alloc_start_bit m) ?T = Some i" using False by auto
    have b: "unat (alloc_start_bit m) \<le> i" "i < unat ?T" "\<not> bm_test (blk_data m (bb m)) i" using bm_find_Some [OF i] by simp_all
    have k: "fdb m \<le> i + 1" "i + 1 < nblocks m" using b(1,2) f(10,11,12,17) by linarith+
    then have fr: "i + 1 \<in> brange m - bused m" using b(3) by (simp add: brange_def bused_def)
    have u: "unat (of_nat i + 1 :: u32) = i + 1" using unat_of_nat32 [of "i + 1"] k(2) f(2) by (simp add: add.commute)
    then have ok: "ext2_data_blk_ok m (of_nat i + 1)" "\<not> s_blocks_count (sb m) \<le> of_nat i + 1"
      using k by (simp_all add: data_blk_ok_iff word_le_nat_alt nblocks_def)
    let ?bm = "bm_set (blk_data m (bb m)) i"
    obtain wr m2 where 2: "ext2_write_block m1 (bg_block_bitmap (gd m1)) ?bm = (wr, m2)" by fastforce
    obtain zr m3 where 3: "ext2_write_block m2 (of_nat i + 1) zero_block = (zr, m3)" by fastforce
    obtain cr m4 where 4: "ext2_write_counts (free_blocks_dec m3) = (cr, m4)" by fastforce
    have "block_run m i r m'"
      using False x i 1 2 3 4 ok m1 r(1) unfolding block_run_def assms(2) [symmetric] ext2_alloc_block_def Let_def
      by (intro exI [of _ m1] exI [of _ wr] exI [of _ m2] exI [of _ zr] exI [of _ m3] exI [of _ cr] exI [of _ m4])
        (simp add: geo_simps(6) [OF g])
    with fr u show ?thesis by blast
  qed
qed

lemma block_run_faults:
  assumes "sound m" and k: "i + 1 \<in> brange m - bused m" and u: "unat (of_nat i + 1 :: u32) = i + 1" and "block_run m i r m'"
  shows "frame {1, 2, bb m, i + 1} m m' \<and> (r = 0 \<longrightarrow> io {1, 2, bb m, i + 1} m m') \<and>
    (r \<noteq> 0 \<longrightarrow> r = of_nat i + 1 \<and> i + 1 \<in> bused m' \<and> blk_data m' (i + 1) = zero_block \<and>
       sb m' = sb (free_blocks_dec m) \<and> gd m' = gd (free_blocks_dec m))"
proof -
  let ?S = "{1, 2, bb m, i + 1}" and ?bm = "bm_set (blk_data m (bb m)) i"
  let ?c = "\<lambda>n. snd (ext2_write_block n (bg_block_bitmap (gd n)) (bm_clear ?bm i))"
  have g: "geo m" using assms(1) by (simp add: sound_def)
  note f = geo_facts(3,4,8,10) [OF g]
  obtain m1 wr m2 zr m3 cr m4 where i1: "io {} m m1" and 2: "ext2_write_block m1 (bg_block_bitmap (gd m1)) ?bm = (wr, m2)"
    and 3: "ext2_write_block m2 (of_nat i + 1) zero_block = (zr, m3)" and 4: "ext2_write_counts (free_blocks_dec m3) = (cr, m4)"
    and e: "(r, m') = (if \<not> wr then (0, m2) else if \<not> zr then (0, ?c m3)
        else if \<not> cr then (0, ?c (ext2_rewrite_counts (free_blocks_inc m4))) else (of_nat i + 1, m4))"
    using assms(4) unfolding block_run_def Let_def by blast
  note w2 = write_block_io [OF io_sel(8) [OF i1 assms(1)] 2]
  have b1: "unat (bg_block_bitmap (gd m1)) = bb m" using io_sel(2) [OF i1] by (simp add: bb_def)
  then have i2: "io ?S m m2" by (intro io_mono [OF io_trans [OF i1 w2(1)]]) auto
  note w3 = write_block_io [OF io_sel(8) [OF i2 assms(1)] 3]
  have i3: "io ?S m m3" by (rule io_mono [OF io_trans [OF i2 w3(1)]]) (simp add: u)
  note t = counts_tail [OF undoes_pairs(1) io_sel(8) [OF i3 assms(1)] 4]
  have i5: "io ?S m (ext2_rewrite_counts (free_blocks_inc m4))" by (rule io_mono [OF io_trans [OF i3 t(1)]]) auto
  have ic: "io ?S m (?c n)" if n: "io ?S m n" for n
    using io_sel(2) [OF n] by (intro io_mono [OF io_trans [OF n write_io_snd [OF io_sel(8) [OF n assms(1)]]]]) (auto simp: bb_def)
  have f4: "frame ?S m m4" by (rule frame_trans1 [OF io_frame [OF i3] frame_mono [OF t(3)]]) auto
  show ?thesis
  proof (cases "wr \<and> zr \<and> cr")
    case True
    have n: "bb m \<notin> {1, 2}" "bb m \<notin> {i + 1}" "i + 1 \<notin> {1, 2}" using f k by (auto simp: brange_def)
    have "blk_data m4 (bb m) = slice ?bm 0 1024"
      using frame_blk [OF t(3) n(1)] io_blk [OF w3(1), of "bb m"] u n(2) w2(2) True b1 by simp
    then have "i + 1 \<in> bused m4"
      using k range_bounds(3) [OF g, of "i + 1"] frame_sel(5) [OF f4] range_skel [OF frame_sel(15) [OF f4]]
      by (simp add: bused_def bm_test_slice)
    moreover have "(of_nat i + 1 :: u32) \<noteq> 0" using u by (metis Suc_eq_plus1 nat.distinct(1) unat_0)
    ultimately show ?thesis using True e f4 frame_blk [OF t(3) n(3)] w3(2) u io_sel(1,2) [OF t(2)] step_fields(1) [OF io_sel(1,2) [OF i3]]
      by (simp add: n)
  next
    case False
    then have "r = 0 \<and> io ?S m m'" using e i2 ic [OF i3] ic [OF i5] by (auto split: if_splits)
    then show ?thesis using io_frame by auto
  qed
qed

lemma alloc_inode_faults:
  assumes "sound m" and "ext2_alloc_inode m = (r, m')"
  shows "frame {1, 2, ib m} m m' \<and> (r = 0 \<longrightarrow> io {1, 2, ib m} m m') \<and> (r \<noteq> 0 \<longrightarrow> unat r \<in> irange m - iused m \<and> unat r \<in> iused m')"
proof -
  let ?S = "{1, 2, ib m}"
  have g: "geo m" using assms(1) by (simp add: sound_def)
  obtain x m1 where 1: "ext2_read_block m (bg_inode_bitmap (gd m)) = (x, m1)" by fastforce
  note r = read_block_io [OF assms(1) 1]
  have i1: "io ?S m m1" by (rule io_mono [OF r(1)]) simp
  note m1 = io_sel(1,2) [OF i1] and s1 = io_sel(8) [OF i1 assms(1)]
  show ?thesis
  proof (cases "s_free_inodes_count (sb m) = 0 \<or> bg_free_inodes_count (gd m) = 0 \<or> x = None \<or>
      bm_find (the x) (EXT2_FIRST_NORMAL_INO - 1) (s_inodes_count (sb m)) = None")
    case True
    then have "r = 0 \<and> (m' = m \<or> m' = m1)" using assms(2) 1 m1(1)
      by (cases x) (auto simp: ext2_alloc_inode_def split: if_splits)
    then show ?thesis using i1 by (auto simp: io_frame)
  next
    case False
    then obtain v where v: "x = Some v" by (cases x) auto
    then have x: "x = Some (blk_data m (ib m))" using r(2) [OF v] by (simp add: ib_def)
    then obtain i where i: "bm_find (blk_data m (ib m)) (EXT2_FIRST_NORMAL_INO - 1) (s_inodes_count (sb m)) = Some i"
      using False by auto
    have b: "10 \<le> i" "i < ninodes m" "\<not> bm_test (blk_data m (ib m)) i"
      using bm_find_Some [OF i] by (simp_all add: EXT2_FIRST_NORMAL_INO_def ninodes_def)
    have u: "unat (of_nat i + 1 :: u32) = i + 1" using unat_of_nat32 [of "i + 1"] b(2) geo_facts(16) [OF g] by (simp add: add.commute)
    let ?bm = "bm_set (blk_data m (ib m)) i"
    let ?c = "\<lambda>n. snd (ext2_write_block n (bg_inode_bitmap (gd n)) (bm_clear ?bm i))"
    obtain wr m2 where 2: "ext2_write_block m1 (bg_inode_bitmap (gd m1)) ?bm = (wr, m2)" by fastforce
    obtain cr m3 where 3: "ext2_write_counts (free_inodes_dec m2) = (cr, m3)" by fastforce
    have e: "(r, m') = (if \<not> wr then (0, m2) else if \<not> cr then (0, ?c (ext2_rewrite_counts (free_inodes_inc m3))) else (of_nat i + 1, m3))"
      using False x i 1 2 3 m1 unfolding assms(2) [symmetric] ext2_alloc_inode_def Let_def by simp
    note w2 = write_block_io [OF s1 2]
    have b1: "unat (bg_inode_bitmap (gd m1)) = ib m" using m1 by (simp add: ib_def)
    then have i2: "io ?S m m2" by (intro io_mono [OF io_trans [OF i1 w2(1)]]) auto
    note t = counts_tail [OF undoes_pairs(3) io_sel(8) [OF i2 assms(1)] 3]
    have i5: "io ?S m (ext2_rewrite_counts (free_inodes_inc m3))" (is "io _ _ ?m5")
      by (rule io_mono [OF io_trans [OF i2 t(1)]]) auto
    have ic: "io ?S m (?c ?m5)" using io_sel(2) [OF i5]
      by (intro io_mono [OF io_trans [OF i5 write_io_snd [OF io_sel(8) [OF i5 assms(1)]]]]) (auto simp: ib_def)
    have f3: "frame ?S m m3" by (rule frame_trans1 [OF io_frame [OF i2] frame_mono [OF t(3)]]) auto
    have "wr \<Longrightarrow> blk_data m3 (ib m) = slice ?bm 0 1024" using frame_blk [OF t(3), of "ib m"] w2(2) b1 geo_facts(5,6) [OF g] by simp
    then have "wr \<Longrightarrow> i + 1 \<in> irange m - iused m \<and> i + 1 \<in> iused m3"
      using b range_bounds(3) [OF g, of "i + 1"] frame_sel(6) [OF f3] range_skel [OF frame_sel(15) [OF f3]]
      by (simp add: iused_def irange_def bm_test_slice)
    moreover have "(of_nat i + 1 :: u32) \<noteq> 0" using u by (metis Suc_eq_plus1 nat.distinct(1) unat_0)
    ultimately show ?thesis using e i2 ic f3 u io_frame by (auto split: if_splits)
  qed
qed

section \<open>Properties\<close>

text \<open>
  C11: Whatever transfers fail, allocating a block changes at most the superblock, the group
  descriptor, the block bitmap and data blocks that were free; if it returns 0 the free counters are
  what they were; otherwise the block returned was free, is now marked in use on the disk and holds
  zeros. Freeing a block changes at most the superblock, the group descriptor and the block bitmap.
  So no failure makes a block in use, an inode or the inode bitmap change.
\<close>

theorem ext2_alloc_faults:
  assumes "sound m"
  shows "(ext2_alloc_block m = (r, m') \<longrightarrow>
      (\<forall>c. c \<notin> {1, 2, bb m} \<and> c \<notin> brange m - bused m \<longrightarrow> blk_data m' c = blk_data m c) \<and>
      (r = 0 \<longrightarrow> sb m' = sb m \<and> gd m' = gd m) \<and>
      (r \<noteq> 0 \<longrightarrow> unat r \<in> brange m - bused m \<and> unat r \<in> bused m' \<and> blk_data m' (unat r) = zero_block)) \<and>
    (\<forall>c. c \<notin> {1, 2, bb m} \<longrightarrow> blk_data (ext2_free_block m b) c = blk_data m c)"
proof -
  have "(\<forall>c. c \<notin> {1, 2, bb m} \<and> c \<notin> brange m - bused m \<longrightarrow> blk_data m' c = blk_data m c) \<and>
      (r = 0 \<longrightarrow> sb m' = sb m \<and> gd m' = gd m) \<and>
      (r \<noteq> 0 \<longrightarrow> unat r \<in> brange m - bused m \<and> unat r \<in> bused m' \<and> blk_data m' (unat r) = zero_block)"
    if a: "ext2_alloc_block m = (r, m')"
    using alloc_block_run [OF assms a]
  proof (elim disjE exE)
    assume "r = 0 \<and> io {} m m'"
    then show ?thesis using io_sel(1,2) [of "{}" m m'] io_blk [of "{}" m m'] by simp
  next
    fix i
    assume h: "i + 1 \<in> brange m - bused m \<and> unat (of_nat i + 1 :: u32) = i + 1 \<and> block_run m i r m'"
    then have q: "frame {1, 2, bb m, i + 1} m m' \<and> (r = 0 \<longrightarrow> io {1, 2, bb m, i + 1} m m') \<and>
      (r \<noteq> 0 \<longrightarrow> r = of_nat i + 1 \<and> i + 1 \<in> bused m' \<and> blk_data m' (i + 1) = zero_block \<and>
        sb m' = sb (free_blocks_dec m) \<and> gd m' = gd (free_blocks_dec m))"
      using block_run_faults [OF assms, of i r m'] by blast
    then have "c \<notin> {1, 2, bb m} \<and> c \<notin> brange m - bused m \<Longrightarrow> blk_data m' c = blk_data m c" for c
      using frame_blk [of "{1, 2, bb m, i + 1}" m m' c] h by auto
    then show ?thesis using q h io_sel(1,2) [of "{1, 2, bb m, i + 1}" m m'] by auto
  qed
  moreover have "blk_data (ext2_free_block m b) c = blk_data m c" if "c \<notin> {1, 2, bb m}" for c
    using frame_blk [OF free_block_frame [OF assms] that] .
  ultimately show ?thesis by blast
qed

theorem ext2_alloc_faults_witness:
  "\<exists>r m'. ext2_alloc_block (demo_mount (\<lambda>_. 0)) = (r, m') \<and> blk_data m' 5 = blk_data (demo_mount (\<lambda>_. 0)) 5"
proof -
  let ?m = "demo_mount (\<lambda>_. 0)"
  obtain r m' where a: "ext2_alloc_block ?m = (r, m')" by fastforce
  have "(5 :: nat) \<notin> {1, 2, bb ?m}" "5 \<notin> brange ?m - bused ?m" by (simp_all add: demo_blank)
  then have "blk_data m' 5 = blk_data ?m 5"
    using ext2_alloc_faults [OF live_sound [OF demo_live], of "\<lambda>_. 0" r m'] a by blast
  with a show ?thesis by blast
qed

end
