(* ===== verification/Ext2_File.thy ===== *)
theory Ext2_File
  imports Ext2_Alloc_Faults
begin

text \<open>
  \<^verbatim>\<open>kernel/ext2.c\<close>, third part: reading and writing file data through the twelve direct blocks and
  the singly-indirect block.

  The loops carry a fuel argument; every iteration moves at least one byte, so the byte count the
  loop is given is enough fuel, which the properties below show by giving the value of the loop.
  The scratch buffer \<^verbatim>\<open>indirect\<close> is \<open>None\<close> while \<^verbatim>\<open>indirect_loaded\<close> is 0.
\<close>

text \<open>The part of a transfer of \<open>rest\<close> bytes that falls into the block it starts in.\<close>

definition chunk_len :: "u32 \<Rightarrow> u32 \<Rightarrow> u32 \<Rightarrow> u32" where
  "chunk_len bs in_blk rest = (if bs - in_blk > rest then rest else bs - in_blk)"

section \<open>Reading\<close>

text \<open>The physical block of file block \<open>bi\<close>; \<open>None\<close> is the loop's \<^verbatim>\<open>break\<close>.\<close>

definition read_phys :: "mount \<Rightarrow> ext2_inode \<Rightarrow> u32 \<Rightarrow> buf option \<Rightarrow> u32 option \<times> buf option \<times> mount" where
  "read_phys m n bi ind =
     (if bi < 12 then (Some (i_block n (unat bi)), ind, m)
      else if bi < 12 + block_size m div 4 then
        if i_block n 12 \<noteq> 0 then
          if \<not> ext2_data_blk_ok m (i_block n 12) then (None, ind, m)
          else case (case ind of Some b \<Rightarrow> (Some b, m) | None \<Rightarrow> ext2_read_block m (i_block n 12)) of
            (None, m) \<Rightarrow> (None, None, m)
          | (Some b, m) \<Rightarrow> (Some (le32 b (4 * unat (bi - 12))), Some b, m)
        else (Some 0, ind, m)
      else (None, ind, m))"

fun read_loop :: "nat \<Rightarrow> mount \<Rightarrow> ext2_inode \<Rightarrow> u32 \<Rightarrow> u32 \<Rightarrow> buf option \<Rightarrow> u32 \<Rightarrow> buf \<Rightarrow> u32 \<times> buf \<times> mount" where
  "read_loop 0 m n offset sz ind got b = (got, b, m)"
| "read_loop (Suc fuel) m n offset sz ind got b =
     (if got < sz then
        let bs = block_size m; foff = offset + got; bi = foff div bs; in_blk = foff mod bs;
            chunk = chunk_len bs in_blk (sz - got) in
        case read_phys m n bi ind of
          (None, ind, m) \<Rightarrow> (got, b, m)
        | (Some phys, ind, m) \<Rightarrow>
            if phys = 0 then read_loop fuel m n offset sz ind (got + chunk) (memset_at b (unat got) 0 (unat chunk))
            else if \<not> ext2_data_blk_ok m phys then (got, b, m)
            else case ext2_read_block m phys of
              (None, m) \<Rightarrow> (got, b, m)
            | (Some blk, m) \<Rightarrow>
                read_loop fuel m n offset sz ind (got + chunk) (memcpy_at b (unat got) blk (unat in_blk) (unat chunk))
      else (got, b, m))"

definition ext2_read_data :: "mount \<Rightarrow> ext2_inode \<Rightarrow> u32 \<Rightarrow> u32 \<Rightarrow> buf \<Rightarrow> u32 \<times> buf \<times> mount" where
  "ext2_read_data m n offset sz b =
     (if offset \<ge> i_size n then (0, b, m)
      else let sz = (if sz > i_size n - offset then i_size n - offset else sz)
           in read_loop (unat sz) m n offset sz None 0 b)"

section \<open>Writing\<close>

text \<open>State of the write loop: the mount, the inode being changed, the indirect block if loaded,
  and whether it has gained entries.\<close>

record wstate =
  w_mount :: mount
  w_inode :: ext2_inode
  w_ind :: "buf option"
  w_dirty :: bool

definition set_blk :: "wstate \<Rightarrow> mount \<Rightarrow> nat \<Rightarrow> u32 \<Rightarrow> wstate" where
  "set_blk s m k phys = s\<lparr>w_mount := m, w_inode :=
     set_i_blocks (set_i_block (w_inode s) k phys) (i_blocks (set_i_block (w_inode s) k phys) + block_size m div 512)\<rparr>"

text \<open>The indirect block, allocated or loaded as needed; \<open>None\<close> is a \<^verbatim>\<open>break\<close>. When the allocation
  fails the code stores 0 over the 0 that \<^verbatim>\<open>i_block[12]\<close> holds.\<close>

definition write_indirect :: "wstate \<Rightarrow> buf option \<times> wstate" where
  "write_indirect s =
     (let s1 = (if i_block (w_inode s) 12 = 0 then
          let (b, m) = ext2_alloc_block (w_mount s) in
          if b = 0 then (False, s\<lparr>w_mount := m, w_inode := set_i_block (w_inode s) 12 0\<rparr>)
          else (True, (set_blk s m 12 b)\<lparr>w_ind := Some zero_block\<rparr>)
        else (True, s)) in
      if \<not> fst s1 then (None, snd s1)
      else let s = snd s1 in
        if \<not> ext2_data_blk_ok (w_mount s) (i_block (w_inode s) 12) then (None, s)
        else case w_ind s of
          Some b \<Rightarrow> (Some b, s)
        | None \<Rightarrow> (case ext2_read_block (w_mount s) (i_block (w_inode s) 12) of
            (None, m) \<Rightarrow> (None, s\<lparr>w_mount := m\<rparr>)
          | (Some b, m) \<Rightarrow> (Some b, s\<lparr>w_mount := m, w_ind := Some b\<rparr>)))"

text \<open>The physical block of file block \<open>bi\<close>, allocated as needed; 0 is a \<^verbatim>\<open>break\<close>.\<close>

definition write_phys :: "wstate \<Rightarrow> u32 \<Rightarrow> u32 \<times> wstate" where
  "write_phys s bi =
     (if bi < 12 then
        let phys = i_block (w_inode s) (unat bi) in
        if phys = 0 then
          let (b, m) = ext2_alloc_block (w_mount s) in
          if b = 0 then (0, s\<lparr>w_mount := m\<rparr>) else (b, set_blk s m (unat bi) b)
        else (phys, s)
      else if bi < 12 + block_size (w_mount s) div 4 then
        case write_indirect s of
          (None, s) \<Rightarrow> (0, s)
        | (Some ents, s) \<Rightarrow>
            let phys = le32 ents (4 * unat (bi - 12)) in
            if phys = 0 then
              let (b, m) = ext2_alloc_block (w_mount s) in
              if b = 0 then (0, s\<lparr>w_mount := m\<rparr>)
              else (b, s\<lparr>w_mount := m, w_ind := Some (put32 ents (4 * unat (bi - 12)) b), w_dirty := True,
                      w_inode := set_i_blocks (w_inode s) (i_blocks (w_inode s) + block_size m div 512)\<rparr>)
            else (phys, s)
      else (0, s))"

fun write_loop :: "nat \<Rightarrow> wstate \<Rightarrow> u32 \<Rightarrow> u32 \<Rightarrow> buf \<Rightarrow> u32 \<Rightarrow> u32 \<times> wstate" where
  "write_loop 0 s offset sz b wrote = (wrote, s)"
| "write_loop (Suc fuel) s offset sz b wrote =
     (if wrote < sz then
        let bs = block_size (w_mount s); foff = offset + wrote; bi = foff div bs; in_blk = foff mod bs;
            chunk = chunk_len bs in_blk (sz - wrote);
            (phys, s) = write_phys s bi in
        if phys = 0 \<or> \<not> ext2_data_blk_ok (w_mount s) phys then (wrote, s)
        else case ext2_read_block (w_mount s) phys of
          (None, m) \<Rightarrow> (wrote, s\<lparr>w_mount := m\<rparr>)
        | (Some blk, m) \<Rightarrow>
            let (ok, m) = ext2_write_block m phys (memcpy_at blk (unat in_blk) b (unat wrote) (unat chunk)) in
            if \<not> ok then (wrote, s\<lparr>w_mount := m\<rparr>)
            else write_loop fuel (s\<lparr>w_mount := m\<rparr>) offset sz b (wrote + chunk)
      else (wrote, s))"

text \<open>The indirect block is written back when it gained entries; the result says whether it was lost.\<close>

definition flush_indirect :: "wstate \<Rightarrow> bool \<times> wstate" where
  "flush_indirect s =
     (case w_ind s of
        None \<Rightarrow> (False, s)
      | Some b \<Rightarrow>
          if w_dirty s then
            if \<not> ext2_data_blk_ok (w_mount s) (i_block (w_inode s) 12) then (True, s)
            else let (ok, m) = ext2_write_block (w_mount s) (i_block (w_inode s) 12) b in (\<not> ok, s\<lparr>w_mount := m\<rparr>)
          else (False, s))"

text \<open>Returns the count, the inode as changed in memory, and the mount.\<close>

definition ext2_write_data :: "mount \<Rightarrow> u32 \<Rightarrow> ext2_inode \<Rightarrow> u32 \<Rightarrow> u32 \<Rightarrow> buf \<Rightarrow> u32 \<times> ext2_inode \<times> mount" where
  "ext2_write_data m ino n offset sz b =
     (if offset > 0xFFFFFFFF - sz \<or> offset + sz > EXT2_MAX_FILE_BLOCKS * block_size m then (0, n, m)
      else let (wrote, s) = write_loop (unat sz) \<lparr>w_mount = m, w_inode = n, w_ind = None, w_dirty = False\<rparr> offset sz b 0;
               (lost, s) = flush_indirect s in
        if lost \<or> wrote = 0 then (0, w_inode s, w_mount s)
        else let n = (if offset + wrote > i_size (w_inode s) then set_i_size (w_inode s) (offset + wrote) else w_inode s);
                 (ok, m) = ext2_write_inode (w_mount s) ino n in
          if \<not> ok then (0, n, m) else (wrote, n, m))"

section \<open>The contents of a file\<close>

text \<open>The block that holds file block \<open>bi\<close> (0 for a hole) and the bytes of a file.\<close>

definition blk_of :: "mount \<Rightarrow> ext2_inode \<Rightarrow> nat \<Rightarrow> u32" where
  "blk_of m n bi = (if bi < 12 then i_block n bi
     else if bi < 268 \<and> i_block n 12 \<noteq> 0 then le32 (blk_data m (unat (i_block n 12))) (4 * (bi - 12)) else 0)"

definition file_byte :: "mount \<Rightarrow> ext2_inode \<Rightarrow> nat \<Rightarrow> u8" where
  "file_byte m n x = (let p = blk_of m n (x div 1024) in if p = 0 then 0 else blk_data m (unat p) (x mod 1024))"

text \<open>Every pointer of the file is 0 or a data block.\<close>

definition file_ok :: "mount \<Rightarrow> ext2_inode \<Rightarrow> bool" where
  "file_ok m n \<longleftrightarrow> ext2_data_blk_ok m (i_block n 12) \<and> (\<forall>bi < 268. ext2_data_blk_ok m (blk_of m n bi))"

lemma chunk_nat:
  fixes offset sz got :: u32
  assumes "unat offset + unat sz \<le> 274432" and "got < sz"
  defines "f \<equiv> unat offset + unat got" and "bo \<equiv> (offset + got) mod 1024"
  defines "k \<equiv> min (1024 - f mod 1024) (unat sz - unat got)"
    and "c \<equiv> chunk_len 1024 bo (sz - got)"
  shows "unat ((offset + got) div 1024) = f div 1024" "unat bo = f mod 1024" "unat c = k"
    "unat (got + c) = unat got + k" "0 < k" "unat got + k \<le> unat sz" "f div 1024 < 268" "k \<le> 1024 - f mod 1024"
proof -
  have l: "unat got < unat sz" using assms(2) by (simp add: word_less_nat_alt)
  have a: "unat (offset + got) = f" using assms(1) l unfolding f_def by (intro unat_add32) simp
  then show "unat ((offset + got) div 1024) = f div 1024" by (simp add: unat_div_distrib)
  show m: "unat bo = f mod 1024" using a by (simp add: bo_def unat_mod_distrib)
  have "unat bo < 1024" using m by simp
  then have r: "unat (1024 - bo) = 1024 - f mod 1024" using m by (simp add: unat_sub word_le_nat_alt less_imp_le)
  have "unat (sz - got) = unat sz - unat got" using assms(2) by (intro unat_sub32) simp
  note r = r this
  then show c: "unat c = k" by (simp add: word_less_nat_alt c_def k_def chunk_len_def)
  show k: "0 < k" "unat got + k \<le> unat sz" using l mod_less_divisor [of 1024 f] by (simp_all add: k_def)
  then show "unat (got + c) = unat got + k" using c assms(1) by (subst unat_add32) simp_all
  show "f div 1024 < 268" using assms(1) l unfolding f_def by (simp add: less_mult_imp_div_less)
  show "k \<le> 1024 - f mod 1024" by (simp add: k_def)
qed

definition ind_ok :: "mount \<Rightarrow> ext2_inode \<Rightarrow> buf option \<Rightarrow> bool" where
  "ind_ok m n ind \<longleftrightarrow> (\<forall>b. ind = Some b \<longrightarrow> i_block n 12 \<noteq> 0 \<and> b = blk_data m (unat (i_block n 12)))"

lemma data_blk_range:
  assumes "geo m" and "ext2_data_blk_ok m b" and "b \<noteq> 0"
  shows "fdb m \<le> unat b" "0 < unat b" "unat b < nblocks m" "unat b \<in> brange m"
  using assms geo_facts(10) [OF assms(1)] by (auto simp: data_blk_ok_iff brange_def)

lemma read_phys_live:
  assumes "live m" and "file_ok m n" and "ind_ok m n ind" and "unat bi < 268"
  shows "\<exists>ind'. read_phys m n bi ind = (Some (blk_of m n (unat bi)), ind', m) \<and> ind_ok m n ind'"
proof -
  have g: "geo m" using assms(1) by (simp add: live_def)
  show ?thesis
  proof (cases "bi < 12")
    case True
    then show ?thesis using assms(3) by (simp add: read_phys_def blk_of_def word_less_nat_alt)
  next
    case False
    then have bi: "\<not> unat bi < 12" "unat (bi - 12) = unat bi - 12" "bi < 12 + block_size m div 4"
      using assms(4) g by (simp_all add: word_less_nat_alt unat_sub word_le_nat_alt geo_simps)
    show ?thesis
    proof (cases "i_block n 12 = 0")
      case True
      then show ?thesis using bi False assms(3) by (simp add: read_phys_def blk_of_def)
    next
      case nz: False
      have ok: "ext2_data_blk_ok m (i_block n 12)" using assms(2) by (simp add: file_ok_def)
      note r = read_block_live [OF assms(1) data_blk_range(2,3) [OF g ok nz]]
      show ?thesis
        using bi False nz ok r assms(3,4) by (cases ind) (auto simp: read_phys_def blk_of_def ind_ok_def)
    qed
  qed
qed

text \<open>The buffer after bytes \<open>g\<close> to \<open>s\<close> of it have been filled from the file.\<close>

definition filled :: "mount \<Rightarrow> ext2_inode \<Rightarrow> nat \<Rightarrow> buf \<Rightarrow> nat \<Rightarrow> nat \<Rightarrow> buf" where
  "filled m n off b g s = (\<lambda>i. if g \<le> i \<and> i < s then file_byte m n (off + i) else b i)"

lemma filled_same [simp]: "filled m n off b g g = b"
  by (rule ext) (auto simp: filled_def)

lemma filled_step:
  assumes "\<And>i. g \<le> i \<Longrightarrow> i < g + k \<Longrightarrow> b' i = file_byte m n (off + i)" and "\<And>i. \<not> (g \<le> i \<and> i < g + k) \<Longrightarrow> b' i = b i"
    and "g + k \<le> s"
  shows "filled m n off b' (g + k) s = filled m n off b g s"
  using assms by (auto simp: filled_def fun_eq_iff)

lemma file_byte_chunk:
  assumes "f \<le> x" and "x < f + (1024 - f mod 1024)"
  shows "x div 1024 = f div (1024 :: nat)" "x mod 1024 = f mod 1024 + (x - f)"
proof -
  have "x = f div 1024 * 1024 + (f mod 1024 + (x - f))" using assms(1) by (simp add: algebra_simps)
  moreover have "f mod 1024 + (x - f) < 1024" using assms mod_less_divisor [of 1024 f] by linarith
  ultimately show "x div 1024 = f div 1024" "x mod 1024 = f mod 1024 + (x - f)"
    by (metis div_mult_self3 div_less add.right_neutral zero_neq_numeral add.commute,
        metis mod_mult_self3 mod_less)
qed

lemma read_loop_live:
  assumes "live m" and "file_ok m n" and "unat offset + unat sz \<le> 274432"
  shows "ind_ok m n ind \<Longrightarrow> got \<le> sz \<Longrightarrow> unat sz - unat got \<le> fuel \<Longrightarrow>
    read_loop fuel m n offset sz ind got b = (sz, filled m n (unat offset) b (unat got) (unat sz), m)"
proof (induction fuel arbitrary: ind got b)
  case 0
  then have "unat got = unat sz" by (simp add: word_le_nat_alt)
  then show ?case by (simp add: unat_eq_iff32)
next
  case (Suc fuel)
  have g: "geo m" using assms(1) by (simp add: live_def)
  show ?case
  proof (cases "got < sz")
    case False
    then have "got = sz" using Suc.prems(2) by simp
    then show ?thesis by simp
  next
    case True
    let ?f = "unat offset + unat got" and ?bo = "(offset + got) mod 1024" and ?bi = "(offset + got) div 1024"
    let ?c = "chunk_len 1024 ?bo (sz - got)"
    obtain k where k: "k = min (1024 - ?f mod 1024) (unat sz - unat got)" by simp
    note c = chunk_nat [OF assms(3) True, folded k]
    obtain ind' where r: "read_phys m n ?bi ind = (Some (blk_of m n (?f div 1024)), ind', m)" and i': "ind_ok m n ind'"
      using read_phys_live [OF assms(1,2) Suc.prems(1), of ?bi] c(1,7) by auto
    have ok: "ext2_data_blk_ok m (blk_of m n (?f div 1024))" using assms(2) c(7) by (simp add: file_ok_def)
    have le: "got + ?c \<le> sz" unfolding word_le_nat_alt c(4) by (rule c(6))
    have "unat sz - unat (got + ?c) \<le> fuel" unfolding c(4) using c(5) Suc.prems(3) by linarith
    note IH = Suc.IH [OF i' le this, unfolded c(4)]
    have at: "file_byte m n (unat offset + i) = (let p = blk_of m n (?f div 1024) in
        if p = 0 then 0 else blk_data m (unat p) (i - unat got + ?f mod 1024))" if "unat got \<le> i" "i < unat got + k" for i
    proof -
      have "?f \<le> unat offset + i" "unat offset + i < ?f + (1024 - ?f mod 1024)" using that c(8) by linarith+
      from file_byte_chunk [OF this] show ?thesis by (simp add: file_byte_def Let_def add.commute)
    qed
    show ?thesis
    proof (cases "blk_of m n (?f div 1024) = 0")
      case z: True
      have "filled m n (unat offset) (memset_at b (unat got) 0 k) (unat got + k) (unat sz) = filled m n (unat offset) b (unat got) (unat sz)"
        using c(6) by (intro filled_step) (auto simp: memset_at_def at z)
      then show ?thesis using True r z IH c(3) by (simp add: Let_def geo_simps(1) [OF g])
    next
      case nz: False
      note rb = read_block_live [OF assms(1) data_blk_range(2,3) [OF g ok nz]]
      let ?blk = "blk_data m (unat (blk_of m n (?f div 1024)))"
      have "filled m n (unat offset) (memcpy_at b (unat got) ?blk (?f mod 1024) k) (unat got + k) (unat sz) =
          filled m n (unat offset) b (unat got) (unat sz)"
        using c(6) by (intro filled_step) (auto simp: memcpy_at_def at nz)
      then show ?thesis using True r nz ok rb IH c(2,3) by (simp add: Let_def geo_simps(1) [OF g])
    qed
  qed
qed

section \<open>Properties\<close>

lemma demo_no_blocks: "i_block (\<lambda>_. 0) k = 0" "blk_of m (\<lambda>_. 0) bi = 0"
  by (simp_all add: blk_of_def i_block_def le32_def)

lemma read_data_live:
  assumes "live m" and "file_ok m n" and "unat (i_size n) \<le> 274432"
  shows "ext2_read_data m n offset sz b =
    (let cnt = (if i_size n \<le> offset then 0 else min (unat sz) (unat (i_size n) - unat offset))
     in (of_nat cnt, filled m n (unat offset) b 0 cnt, m))"
proof (cases "offset \<ge> i_size n")
  case True
  then show ?thesis by (simp add: ext2_read_data_def)
next
  case False
  let ?z = "if sz > i_size n - offset then i_size n - offset else sz"
  have d: "unat (i_size n - offset) = unat (i_size n) - unat offset" using False by (intro unat_sub32) simp
  have z: "unat ?z = min (unat sz) (unat (i_size n) - unat offset)" using d by (simp add: word_less_nat_alt)
  have "unat offset + unat ?z \<le> 274432" using z assms(3) False by (simp add: word_le_nat_alt)
  from read_loop_live [OF assms(1,2) this, of None 0 "unat ?z" b]
  have r: "read_loop (unat ?z) m n offset ?z None 0 b = (?z, filled m n (unat offset) b 0 (unat ?z), m)"
    by (simp add: ind_ok_def)
  show ?thesis unfolding ext2_read_data_def Let_def if_not_P [OF False] z [symmetric] r by (simp only: of_nat_unat ucast_id)
qed

text \<open>
  C9: On a file whose pointers are all 0 or data blocks, and whose size is within the capacity of
  the direct and indirect blocks, a read returns exactly the bytes of the file from the offset on,
  clamped to the end of the file also when offset plus length exceeds 32 bits; holes read as zeros,
  nothing outside the requested part of the buffer changes and neither does the disk.
\<close>

theorem ext2_read_data_spec:
  assumes "live m" and "file_ok m n" and "unat (i_size n) \<le> 274432"
  shows "ext2_read_data m n offset sz b =
    (let cnt = (if i_size n \<le> offset then 0 else min (unat sz) (unat (i_size n) - unat offset))
     in (of_nat cnt, filled m n (unat offset) b 0 cnt, m))"
  by (rule read_data_live [OF assms])

theorem ext2_read_data_spec_witness:
  "\<exists>b' m'. ext2_read_data (demo_mount (\<lambda>_. 0)) (set_i_size (\<lambda>_. 0) 5) 2 0xFFFFFFFF (\<lambda>_. 9) = (3, b', m') \<and> b' 2 = 0 \<and> b' 3 = 9"
proof -
  let ?n = "set_i_size (\<lambda>_. 0) 5" and ?m = "demo_mount (\<lambda>_. 0)"
  have i: "i_block ?n k = 0" for k using demo_no_blocks(1) by (simp add: i_block_def set_i_size_def nos_buf)
  then have b: "blk_of ?m ?n bi = 0" for bi by (simp add: blk_of_def)
  have "file_ok ?m ?n" by (simp add: file_ok_def i b ext2_data_blk_ok_def)
  moreover have "i_size ?n = 5" by (simp add: i_size_def set_i_size_def)
  ultimately show ?thesis
    using ext2_read_data_spec [OF demo_live, of "\<lambda>_. 0" ?n 2 "0xFFFFFFFF" "\<lambda>_. 9"] by (simp add: filled_def file_byte_def b)
qed

end
