(* ===== verification/Ext2_Dir.thy ===== *)
theory Ext2_Dir
  imports Ext2_File
begin

text \<open>
  \<^verbatim>\<open>kernel/ext2.c\<close>, fourth part: directory records, lookup, insertion and listing.

  A name is the list of its bytes, without the terminating NUL. The scans over the records of a
  block carry fuel; a record is at least 8 bytes long, so a scan of \<open>limit\<close> bytes ends within
  \<open>limit\<close> steps.
\<close>

definition de_inode :: "buf \<Rightarrow> u32 \<Rightarrow> u32" where "de_inode b off = le32 b (unat off)"
definition de_rec_len :: "buf \<Rightarrow> u32 \<Rightarrow> u16" where "de_rec_len b off = le16 b (unat off + 4)"
definition de_name_len :: "buf \<Rightarrow> u32 \<Rightarrow> u16" where "de_name_len b off = le16 b (unat off + 6)"

definition ext2_dirent_ok :: "buf \<Rightarrow> u32 \<Rightarrow> u32 \<Rightarrow> bool" where
  "ext2_dirent_ok b off limit \<longleftrightarrow>
     \<not> de_rec_len b off < 8 \<and> de_rec_len b off AND 3 = 0 \<and> \<not> off + ucast (de_rec_len b off) > limit \<and>
     \<not> de_name_len b off > de_rec_len b off - 8 \<and> \<not> de_name_len b off > 255"

text \<open>Header and name of a record written at \<open>off\<close>.\<close>

definition put_dirent :: "buf \<Rightarrow> u32 \<Rightarrow> u32 \<Rightarrow> u16 \<Rightarrow> u8 list \<Rightarrow> buf" where
  "put_dirent b off ino rec name =
     memcpy_at (put16 (put16 (put32 b (unat off) ino) (unat off + 4) rec) (unat off + 6) (of_nat (length name)))
       (unat off + 8) (list_buf name) 0 (length name)"

text \<open>The part of directory block \<open>b\<close> within the directory's size; \<open>None\<close> ends the walk.\<close>

definition dir_limit :: "u32 \<Rightarrow> u32 \<Rightarrow> nat \<Rightarrow> u32 option" where
  "dir_limit bs dir_size b =
     (if of_nat b * bs + bs > dir_size then
        if dir_size \<le> of_nat b * bs then None else Some (dir_size - of_nat b * bs)
      else Some bs)"

section \<open>Lookup\<close>

fun dir_scan :: "nat \<Rightarrow> buf \<Rightarrow> u32 \<Rightarrow> u32 \<Rightarrow> u8 list \<Rightarrow> u32" where
  "dir_scan 0 b off limit name = 0"
| "dir_scan (Suc fuel) b off limit name =
     (if off + 8 \<le> limit \<and> ext2_dirent_ok b off limit then
        if de_inode b off \<noteq> 0 \<and> unat (de_name_len b off) = length name \<and> buf_list b (unat off + 8) (length name) = name
        then de_inode b off
        else dir_scan fuel b (off + ucast (de_rec_len b off)) limit name
      else 0)"

fun lookup_blocks :: "nat list \<Rightarrow> mount \<Rightarrow> ext2_inode \<Rightarrow> u8 list \<Rightarrow> u32 \<times> mount" where
  "lookup_blocks [] m dir name = (0, m)"
| "lookup_blocks (b # bs) m dir name =
     (if i_block dir b = 0 then lookup_blocks bs m dir name
      else if \<not> ext2_data_blk_ok m (i_block dir b) then (0, m)
      else case ext2_read_block m (i_block dir b) of
        (None, m) \<Rightarrow> (0, m)
      | (Some buf, m) \<Rightarrow>
          (case dir_limit (block_size m) (i_size dir) b of
             None \<Rightarrow> (0, m)
           | Some limit \<Rightarrow>
               let ino = dir_scan (unat limit) buf 0 limit name in
               if ino \<noteq> 0 then (ino, m) else lookup_blocks bs m dir name))"

definition ext2_dir_lookup :: "mount \<Rightarrow> ext2_inode \<Rightarrow> u8 list \<Rightarrow> u32 \<times> mount" where
  "ext2_dir_lookup m dir name = lookup_blocks [0..<12] m dir name"

section \<open>Insertion\<close>

definition rec_need :: "u32 \<Rightarrow> u32" where
  "rec_need namelen = (8 + namelen + 3) AND NOT 3"

text \<open>The block with the new record split off the last one, if it has room.\<close>

fun add_scan :: "nat \<Rightarrow> buf \<Rightarrow> u32 \<Rightarrow> u32 \<Rightarrow> u32 \<Rightarrow> u8 list \<Rightarrow> buf option" where
  "add_scan 0 b off limit child name = None"
| "add_scan (Suc fuel) b off limit child name =
     (if off + 8 \<le> limit \<and> ext2_dirent_ok b off limit then
        let len = de_rec_len b off; actual = rec_need (ucast (de_name_len b off)) in
        if off + ucast len \<ge> limit \<and> ucast len \<ge> actual + rec_need (of_nat (length name))
        then Some (put_dirent (put16 b (unat off + 4) (ucast actual)) (off + actual) child (len - ucast actual) name)
        else add_scan fuel b (off + ucast len) limit child name
      else None)"

text \<open>A fresh directory block holding one record that spans it.\<close>

definition add_fresh :: "mount \<Rightarrow> u32 \<Rightarrow> ext2_inode \<Rightarrow> nat \<Rightarrow> u32 \<Rightarrow> u8 list \<Rightarrow> bool \<times> ext2_inode \<times> mount" where
  "add_fresh m dir_ino dir b child name =
     (let (nblk, m) = ext2_alloc_block m in
      if nblk = 0 then (False, dir, m)
      else let bs = block_size m;
               d1 = set_i_block dir b nblk;
               d2 = set_i_blocks d1 (i_blocks d1 + bs div 512);
               d3 = set_i_size d2 ((of_nat b + 1) * bs);
               buf = put_dirent (\<lambda>_. 0) 0 child (ucast bs) name;
               (ok, m) = ext2_write_block m nblk buf;
               (ok, m) = (if ok then ext2_write_inode m dir_ino d3 else (False, m)) in
        if \<not> ok
        then (False, set_i_size (set_i_blocks (set_i_block d3 b 0) (i_blocks dir)) (i_size dir), ext2_free_block m nblk)
        else (True, d3, m))"

fun add_blocks :: "nat list \<Rightarrow> mount \<Rightarrow> u32 \<Rightarrow> ext2_inode \<Rightarrow> u32 \<Rightarrow> u8 list \<Rightarrow> bool \<times> ext2_inode \<times> mount" where
  "add_blocks [] m dir_ino dir child name = (False, dir, m)"
| "add_blocks (b # bs) m dir_ino dir child name =
     (if i_block dir b = 0 then add_fresh m dir_ino dir b child name
      else if \<not> ext2_data_blk_ok m (i_block dir b) then (False, dir, m)
      else case ext2_read_block m (i_block dir b) of
        (None, m) \<Rightarrow> (False, dir, m)
      | (Some buf, m) \<Rightarrow>
          (case dir_limit (block_size m) (i_size dir) b of
             None \<Rightarrow> (False, dir, m)
           | Some limit \<Rightarrow>
               (case add_scan (unat limit) buf 0 limit child name of
                  None \<Rightarrow> add_blocks bs m dir_ino dir child name
                | Some buf' \<Rightarrow> let (ok, m) = ext2_write_block m (i_block dir b) buf' in (ok, dir, m))))"

text \<open>Returns success, the directory inode as changed in memory, and the mount.\<close>

definition ext2_dir_add :: "mount \<Rightarrow> u32 \<Rightarrow> ext2_inode \<Rightarrow> u32 \<Rightarrow> u8 list \<Rightarrow> bool \<times> ext2_inode \<times> mount" where
  "ext2_dir_add m dir_ino dir child name =
     (if length name > 255 then (False, dir, m) else add_blocks [0..<12] m dir_ino dir child name)"

section \<open>Listing\<close>

record dirent =
  d_name :: "u8 list"
  d_inode :: u32

text \<open>Scans one block with the number \<open>cur\<close> of entries seen so far: the entry asked for, or the new count.\<close>

fun list_scan :: "nat \<Rightarrow> buf \<Rightarrow> u32 \<Rightarrow> u32 \<Rightarrow> u32 \<Rightarrow> u32 \<Rightarrow> dirent + u32" where
  "list_scan 0 b off limit cur index = Inr cur"
| "list_scan (Suc fuel) b off limit cur index =
     (if off + 8 \<le> limit \<and> ext2_dirent_ok b off limit then
        let next = off + ucast (de_rec_len b off) in
        if de_inode b off \<noteq> 0 then
          if cur = index then
            let nl = unat (de_name_len b off); nl = (if nl > 127 then 127 else nl)
            in Inl \<lparr>d_name = buf_list b (unat off + 8) nl, d_inode = de_inode b off\<rparr>
          else list_scan fuel b next limit (cur + 1) index
        else list_scan fuel b next limit cur index
      else Inr cur)"

fun list_blocks :: "nat list \<Rightarrow> mount \<Rightarrow> ext2_inode \<Rightarrow> u32 \<Rightarrow> u32 \<Rightarrow> dirent option \<times> mount" where
  "list_blocks [] m dir cur index = (None, m)"
| "list_blocks (b # bs) m dir cur index =
     (if i_block dir b = 0 then list_blocks bs m dir cur index
      else if \<not> ext2_data_blk_ok m (i_block dir b) then (None, m)
      else case ext2_read_block m (i_block dir b) of
        (None, m) \<Rightarrow> (None, m)
      | (Some buf, m) \<Rightarrow>
          (case dir_limit (block_size m) (i_size dir) b of
             None \<Rightarrow> (None, m)
           | Some limit \<Rightarrow>
               (case list_scan (unat limit) buf 0 limit cur index of
                  Inl e \<Rightarrow> (Some e, m)
                | Inr cur \<Rightarrow> list_blocks bs m dir cur index)))"

end
