(* ===== verification/Ext2_Write.thy ===== *)
theory Ext2_Write
  imports Ext2_File
begin

text \<open>
  Correctness of \<^verbatim>\<open>ext2_write_data\<close> (\<^verbatim>\<open>kernel/ext2.c\<close>): what is written is read back, nothing else
  changes, and no write reaches metadata.
\<close>

section \<open>Ownership of blocks\<close>

text \<open>
  A file that owns its blocks: they are marked in use, no two file blocks share one, and the
  indirect block is none of them. \<open>v\<close> gives the file's block map and \<open>p\<close> the indirect block.
\<close>

definition owns :: "mount \<Rightarrow> (nat \<Rightarrow> u32) \<Rightarrow> u32 \<Rightarrow> bool" where
  "owns m v p \<longleftrightarrow> (\<forall>bi < 268. v bi \<noteq> 0 \<longrightarrow> unat (v bi) \<in> bused m \<and> v bi \<noteq> p) \<and>
     (\<forall>bi < 268. \<forall>bj < 268. v bi \<noteq> 0 \<and> v bi = v bj \<longrightarrow> bi = bj) \<and> (p \<noteq> 0 \<longrightarrow> unat p \<in> bused m)"

definition file_wf :: "mount \<Rightarrow> ext2_inode \<Rightarrow> bool" where
  "file_wf m n \<longleftrightarrow> owns m (blk_of m n) (i_block n 12)"

text \<open>The block map as the write loop sees it: through the loaded indirect block if there is one.\<close>

definition view :: "wstate \<Rightarrow> nat \<Rightarrow> u32" where
  "view s bi = (if bi < 12 then i_block (w_inode s) bi
     else if bi < 268 \<and> i_block (w_inode s) 12 \<noteq> 0 then
       le32 (case w_ind s of Some b \<Rightarrow> b | None \<Rightarrow> blk_data (w_mount s) (unat (i_block (w_inode s) 12))) (4 * (bi - 12))
     else 0)"

definition view_byte :: "wstate \<Rightarrow> nat \<Rightarrow> u8" where
  "view_byte s x = (let p = view s (x div 1024) in if p = 0 then 0 else blk_data (w_mount s) (unat p) (x mod 1024))"

definition winv :: "wstate \<Rightarrow> bool" where
  "winv s \<longleftrightarrow> blocks_inv (w_mount s) \<and> owns (w_mount s) (view s) (i_block (w_inode s) 12) \<and>
     (\<forall>b. w_ind s = Some b \<longrightarrow> i_block (w_inode s) 12 \<noteq> 0 \<and>
        (\<not> w_dirty s \<longrightarrow> b = blk_data (w_mount s) (unat (i_block (w_inode s) 12)))) \<and> (w_dirty s \<longrightarrow> w_ind s \<noteq> None)"

lemma bused_meta:
  assumes "geo m" and "c \<in> bused m"
  shows "c \<notin> {1, 2, bb m}" "fdb m \<le> c" "c < nblocks m" "0 < c"
  using assms geo_facts(8,10) [OF assms(1)] by (auto simp: bused_def brange_def)

text \<open>An allocation as its caller sees it.\<close>

definition fresh_step :: "mount \<Rightarrow> u32 \<Rightarrow> mount \<Rightarrow> bool" where
  "fresh_step m b m' \<longleftrightarrow> blocks_inv m' \<and> skel m' = skel m \<and> b \<noteq> 0 \<and> unat b \<in> brange m - bused m \<and>
     bused m' = insert (unat b) (bused m) \<and> blk_data m' (unat b) = zero_block \<and>
     (\<forall>c. c \<notin> {1, 2, bb m, unat b} \<longrightarrow> blk_data m' c = blk_data m c)"

lemma alloc_step:
  assumes "blocks_inv m" and "ext2_alloc_block m = (b, m')"
  shows "b = 0 \<Longrightarrow> m' = m \<and> brange m = bused m" "b \<noteq> 0 \<Longrightarrow> fresh_step m b m'"
proof -
  have l: "live m" using assms(1) by (simp add: blocks_inv_def)
  show "m' = m \<and> brange m = bused m" if "b = 0"
  proof (cases "brange m = bused m")
    case False
    then obtain m2 where "ext2_alloc_block m = (of_nat (Min (brange m - bused m)), m2)" using blocks.alloc_first assms(1) by blast
    then have "of_nat (Min (brange m - bused m)) = (0 :: u32)" using assms(2) that by simp
    moreover have ne: "brange m - bused m \<noteq> {}" using False by (auto simp: bused_def)
    then have "Min (brange m - bused m) \<in> brange m" using Min_in [of "brange m - bused m"] by auto
    then have "0 < Min (brange m - bused m)" "Min (brange m - bused m) \<le> 8192"
      using range_bounds(1,2) [of m "Min (brange m - bused m)"] l by (auto simp: live_def)
    ultimately show ?thesis using unat_of_nat32 [of "Min (brange m - bused m)"] by simp
  qed (use blocks.alloc_full assms that in auto)
  show "fresh_step m b m'" if nz: "b \<noteq> 0"
  proof -
    have ne: "brange m \<noteq> bused m" using blocks.alloc_full [OF assms(1)] assms(2) nz by auto
    obtain i where i: "i + 1 \<in> brange m - bused m" "unat (of_nat i + 1 :: u32) = i + 1" "block_run m i b m'"
      using alloc_block_run [OF live_sound [OF l] assms(2)] nz by blast
    from block_run_faults [OF live_sound [OF l] i]
    have q: "frame {1, 2, bb m, i + 1} m m'" "b = of_nat i + 1" "blk_data m' (i + 1) = zero_block" using nz by auto
    have u: "unat b = i + 1" using q(2) i(2) by simp
    obtain m2 where m2: "ext2_alloc_block m = (of_nat (Min (brange m - bused m)), m2)" "blocks_inv m2"
        "bused m2 = insert (Min (brange m - bused m)) (bused m)" using blocks.alloc_first [OF assms(1) ne] by blast
    have "Min (brange m - bused m) \<in> brange m" using Min_in [of "brange m - bused m"] ne by (auto simp: bused_def)
    then have "Min (brange m - bused m) < 4294967296" using range_bounds(2) [of m "Min (brange m - bused m)"] l by (auto simp: live_def)
    from unat_of_nat32 [OF this] have "unat b = Min (brange m - bused m)" "m2 = m'" using m2(1) assms(2) by simp_all
    then have "blocks_inv m'" "bused m' = insert (unat b) (bused m)" using m2(2,3) by simp_all
    then show ?thesis
      unfolding fresh_step_def using q(3) i(1) nz frame_sel(15) [OF q(1)] frame_blk [OF q(1)]
      by (intro conjI allI impI) (simp_all only: u simp_thms not_False_eq_True)
  qed
qed

lemma fresh_used:
  assumes "fresh_step m b m'" and "geo m" and "c \<in> bused m"
  shows "blk_data m' c = blk_data m c" "c \<noteq> unat b" "c \<in> bused m'"
  using assms bused_meta [OF assms(2,3)] by (auto simp: fresh_step_def)

text \<open>
  What a part of a write keeps: the blocks in use stay in use, and of the blocks that were in use
  only the file's own change; below the data area only the superblock, the group descriptor and the
  block bitmap may change.
\<close>

definition own :: "wstate \<Rightarrow> nat set" where
  "own s = {unat (view s bi) |bi. bi < 268 \<and> view s bi \<noteq> 0} \<union> (if i_block (w_inode s) 12 = 0 then {} else {unat (i_block (w_inode s) 12)})"

definition kept :: "wstate \<Rightarrow> wstate \<Rightarrow> bool" where
  "kept s s' \<longleftrightarrow> (let m = w_mount s; m' = w_mount s' in
     skel m' = skel m \<and> bused m \<subseteq> bused m' \<and> own s' \<inter> bused m \<subseteq> own s \<and> i_size (w_inode s') = i_size (w_inode s) \<and>
     (\<forall>c. c \<in> bused m - own s \<or> (c < fdb m \<and> c \<notin> {1, 2, bb m}) \<longrightarrow> blk_data m' c = blk_data m c))"

lemma kept_refl [simp, intro]: "kept s s"
  by (simp add: kept_def)

lemma kept_trans:
  assumes "kept a b" and "kept b c"
  shows "kept a c"
proof -
  have "fdb (w_mount b) = fdb (w_mount a)" "bb (w_mount b) = bb (w_mount a)"
    using assms(1) skel_sel(5,9) [of "w_mount b" "w_mount a"] by (simp_all add: kept_def Let_def)
  moreover have "skel (w_mount c) = skel (w_mount a)" "bused (w_mount a) \<subseteq> bused (w_mount c)"
    "own c \<inter> bused (w_mount a) \<subseteq> own a" "i_size (w_inode c) = i_size (w_inode a)"
    using assms unfolding kept_def Let_def by auto
  moreover have "blk_data (w_mount c) k = blk_data (w_mount b) k"
    if "k \<in> bused (w_mount a) - own a \<or> (k < fdb (w_mount a) \<and> k \<notin> {1, 2, bb (w_mount a)})" for k
  proof -
    have "k \<in> bused (w_mount b) - own b \<or> (k < fdb (w_mount b) \<and> k \<notin> {1, 2, bb (w_mount b)})"
      using that assms(1) unfolding kept_def Let_def calculation(1,2) by blast
    then show ?thesis using assms(2) unfolding kept_def Let_def by blast
  qed
  ultimately show ?thesis using assms(1) unfolding kept_def Let_def by simp
qed

lemma owns_upd:
  assumes "owns m v p" and "fresh_step m b m'" and "v k = 0" and "k < 268"
  shows "owns m' (v(k := b)) p"
  using assms by (auto simp: owns_def fresh_step_def)

lemma owns_ind:
  assumes "owns m v 0" and "fresh_step m b m'"
  shows "owns m' v b"
  using assms unfolding owns_def fresh_step_def by (metis Diff_iff insert_iff)

section \<open>One allocation\<close>

lemma i_block_set [simp]:
  "k < 15 \<Longrightarrow> j < 15 \<Longrightarrow> i_block (set_i_block n k v) j = (if j = k then v else i_block n j)"
  "i_block (set_i_blocks n x) j = i_block n j" "i_size (set_i_blocks n x) = i_size n" "k < 15 \<Longrightarrow> i_size (set_i_block n k v) = i_size n"
  "i_block (set_i_size n x) j = i_block n j" "i_size (set_i_size n x) = x"
proof -
  show "i_block (set_i_block n k v) j = (if j = k then v else i_block n j)" if "k < 15" "j < 15"
    using that by (cases "j = k") (auto simp: i_block_def set_i_block_def intro!: le32_put32_other)
qed (simp_all add: i_block_def i_size_def set_i_blocks_def set_i_block_def set_i_size_def nos_buf)

lemma winv_live:
  assumes "winv s"
  shows "live (w_mount s)" "geo (w_mount s)" "blocks_inv (w_mount s)"
  using assms by (simp_all add: winv_def blocks_inv_def live_def)

lemma own_used: "winv s \<Longrightarrow> own s \<subseteq> bused (w_mount s)"
  by (auto simp: own_def winv_def owns_def)

text \<open>A block added to the map, or taken for the indirect block, changes no byte of the file.\<close>

lemma fresh_view:
  assumes "winv s" and f: "fresh_step (w_mount s) b (w_mount s')"
    and v: "view s' = (view s)(k := b) \<and> view s k = 0 \<and> k < 268 \<and> i_block (w_inode s') 12 = i_block (w_inode s) 12 \<or>
      view s' = view s \<and> i_block (w_inode s) 12 = 0 \<and> i_block (w_inode s') 12 = b"
    and "i_size (w_inode s') = i_size (w_inode s)"
  shows "view_byte s' = view_byte s" "kept s s'" "owns (w_mount s') (view s') (i_block (w_inode s') 12)" "blocks_inv (w_mount s')"
proof -
  note l = winv_live [OF assms(1)] and u = fresh_used [OF f winv_live(2) [OF assms(1)]]
  have o: "owns (w_mount s) (view s) (i_block (w_inode s) 12)" using assms(1) by (simp add: winv_def)
  show "owns (w_mount s') (view s') (i_block (w_inode s') 12)"
    using v owns_upd [OF o f, of k] owns_ind [OF _ f, of "view s"] o by auto
  show "blocks_inv (w_mount s')" using f by (simp add: fresh_step_def)
  have z: "blk_data (w_mount s') (unat b) i = 0" for i using f by (simp add: fresh_step_def zero_block_def)
  have "bi < 268" if "view s bi \<noteq> 0" for bi using that by (auto simp: view_def split: if_splits)
  then have old: "blk_data (w_mount s') (unat (view s bi)) = blk_data (w_mount s) (unat (view s bi))" if "view s bi \<noteq> 0" for bi
    using u(1) o that by (simp add: owns_def)
  show "view_byte s' = view_byte s"
  proof
    fix x
    show "view_byte s' x = view_byte s x"
      using v z old [of "x div 1024"] unfolding view_byte_def Let_def by (auto split: if_splits)
  qed
  have "own s' \<subseteq> insert (unat b) (own s)" using v unfolding own_def by (auto split: if_splits)
  then have "own s' \<inter> bused (w_mount s) \<subseteq> own s" using f by (auto simp: fresh_step_def)
  moreover have "unat b \<in> brange (w_mount s)" "unat b \<notin> bused (w_mount s)" using f by (auto simp: fresh_step_def)
  ultimately show "kept s s'"
    using f assms(4) bused_meta(1) [OF l(2)] unfolding kept_def Let_def fresh_step_def by (auto simp: brange_def)
qed

text \<open>Reads of the indirect block while it is not loaded come from a block in use, so an allocation
  does not disturb the map.\<close>

lemma ind_mount:
  assumes "winv s" and "fresh_step (w_mount s) b m'" and "i_block (w_inode s) 12 \<noteq> 0"
  shows "blk_data m' (unat (i_block (w_inode s) 12)) = blk_data (w_mount s) (unat (i_block (w_inode s) 12))"
  using fresh_used(1) [OF assms(2) winv_live(2) [OF assms(1)]] assms(1,3) by (simp add: winv_def owns_def)

lemma view_mount:
  assumes "winv s" and "fresh_step (w_mount s) b m'"
  shows "view (s\<lparr>w_mount := m'\<rparr>) = view s"
  using ind_mount [OF assms] by (intro ext) (auto simp: view_def split: option.splits)

text \<open>What getting a block ready for writing does.\<close>

definition ready :: "wstate \<Rightarrow> wstate \<Rightarrow> bool" where
  "ready s s' \<longleftrightarrow> winv s' \<and> kept s s' \<and> view_byte s' = view_byte s"

lemma ready_refl [simp, intro]: "winv s \<Longrightarrow> ready s s"
  by (simp add: ready_def)

lemma ready_trans: "ready a b \<Longrightarrow> ready b c \<Longrightarrow> ready a c"
  using kept_trans by (auto simp: ready_def)

lemma set_blk_direct:
  assumes "winv s" and "fresh_step (w_mount s) b m'" and "i_block (w_inode s) k = 0" and "k < 12"
  shows "ready s (set_blk s m' k b)" "view (set_blk s m' k b) k = b"
proof -
  let ?s = "set_blk s m' k b"
  have v: "view ?s = (view s)(k := b)"
    using assms(4) ind_mount [OF assms(1,2)] by (intro ext) (auto simp: view_def set_blk_def split: option.splits)
  then show "view ?s k = b" by simp
  have f: "fresh_step (w_mount s) b (w_mount ?s)" and i: "i_block (w_inode ?s) 12 = i_block (w_inode s) 12"
    using assms(2,4) by (simp_all add: set_blk_def)
  note r = fresh_view [OF assms(1) f]
  have "view s k = 0" using assms(3,4) by (simp add: view_def)
  then have "view_byte ?s = view_byte s" "kept s ?s" "owns m' (view ?s) (i_block (w_inode s) 12)" "blocks_inv m'"
    using r [of k] v i assms(4) by (auto simp: set_blk_def)
  moreover have "winv ?s" using assms(1) calculation(3,4) i ind_mount [OF assms(1,2)] by (auto simp: winv_def) (auto simp: set_blk_def)
  ultimately show "ready s ?s" by (simp add: ready_def)
qed

lemma set_blk_indirect:
  assumes "winv s" and "fresh_step (w_mount s) b m'" and "i_block (w_inode s) 12 = 0"
  defines "s' \<equiv> (set_blk s m' 12 b)\<lparr>w_ind := Some zero_block\<rparr>"
  shows "ready s s'" "i_block (w_inode s') 12 = b"
proof -
  have z: "le32 zero_block x = 0" for x by (simp add: le32_def zero_block_def)
  have n: "\<not> w_dirty s" "w_ind s = None" using assms(1,3) by (auto simp: winv_def)
  show i: "i_block (w_inode s') 12 = b" by (simp add: s'_def set_blk_def)
  have v: "view s' = view s"
    using assms(3) by (intro ext) (simp add: view_def s'_def set_blk_def z)
  have f: "fresh_step (w_mount s) b (w_mount s')" using assms(2) by (simp add: s'_def set_blk_def)
  note r = fresh_view [OF assms(1) f, of 0]
  have "view_byte s' = view_byte s" "kept s s'" "owns (w_mount s') (view s') b" "blocks_inv (w_mount s')"
    using r v i assms(3) by (auto simp: s'_def set_blk_def)
  moreover have "winv s'"
    using calculation(3,4) i n(1) assms(2) unfolding winv_def by (auto simp: s'_def set_blk_def fresh_step_def)
  ultimately show "ready s s'" by (simp add: ready_def)
qed

lemma set_entry:
  fixes x :: u32
  assumes "winv s" and "fresh_step (w_mount s) b m'" and "w_ind s = Some ents" and "le32 ents (4 * (k - 12)) = 0" and "12 \<le> k" "k < 268"
  defines "s' \<equiv> s\<lparr>w_mount := m', w_ind := Some (put32 ents (4 * (k - 12)) b), w_dirty := True, w_inode := set_i_blocks (w_inode s) x\<rparr>"
  shows "ready s s'" "view s' k = b"
proof -
  have nz: "i_block (w_inode s) 12 \<noteq> 0" using assms(1,3) by (simp add: winv_def)
  have "le32 (put32 ents (4 * (k - 12)) b) (4 * (j - 12)) = (if j = k then b else le32 ents (4 * (j - 12)))" if "12 \<le> j" for j
    using that assms(5) by (cases "j = k") (auto intro!: le32_put32_other)
  then have v: "view s' = (view s)(k := b)"
    using assms(3,5,6) nz by (intro ext) (auto simp: view_def s'_def)
  then show "view s' k = b" by simp
  have f: "fresh_step (w_mount s) b (w_mount s')" using assms(2) by (simp add: s'_def)
  have "view s k = 0" using assms(3-6) nz by (simp add: view_def)
  then have "view_byte s' = view_byte s" "kept s s'" "owns (w_mount s') (view s') (i_block (w_inode s') 12)" "blocks_inv (w_mount s')"
    using fresh_view [OF assms(1) f, of k] v assms(6) by (auto simp: s'_def)
  moreover have "winv s'" using calculation(3,4) nz unfolding winv_def by (simp add: s'_def)
  ultimately show "ready s s'" by (simp add: ready_def)
qed

lemma winv_ok:
  assumes "winv s"
  shows "ext2_data_blk_ok (w_mount s) (i_block (w_inode s) 12)" "k < 268 \<Longrightarrow> ext2_data_blk_ok (w_mount s) (view s k)"
  using assms unfolding winv_def owns_def data_blk_ok_iff bused_def brange_def by auto

lemma write_indirect_spec:
  assumes "winv s" and "write_indirect s = (r, s')"
  shows "ready s s'" "r = Some b \<Longrightarrow> w_ind s' = Some b" "r = None \<Longrightarrow> brange (w_mount s') = bused (w_mount s')"
proof -
  have load: "ready s t \<and> (\<exists>b. w_ind t = Some b \<and> r = Some b)"
    if "winv s0" "ready s s0" "i_block (w_inode s0) 12 \<noteq> 0"
      "(r, t) = (case w_ind s0 of Some b \<Rightarrow> (Some b, s0)
        | None \<Rightarrow> (case ext2_read_block (w_mount s0) (i_block (w_inode s0) 12) of
            (None, m) \<Rightarrow> (None, s0\<lparr>w_mount := m\<rparr>) | (Some b, m) \<Rightarrow> (Some b, s0\<lparr>w_mount := m, w_ind := Some b\<rparr>)))" for s0 t r
  proof (cases "w_ind s0")
    case (Some b)
    then show ?thesis using that by simp
  next
    case None
    let ?b = "blk_data (w_mount s0) (unat (i_block (w_inode s0) 12))"
    note l = winv_live [OF that(1)]
    have e: "r = Some ?b" "t = s0\<lparr>w_ind := Some ?b\<rparr>"
      using that(4) None read_block_live [OF l(1) data_blk_range(2,3) [OF l(2) winv_ok(1) [OF that(1)] that(3)]] by simp_all
    have v: "view t = view s0" using e(2) None by (intro ext) (simp add: view_def)
    have "winv t" using that(1,3) None v e(2) by (simp add: winv_def)
    moreover have "view_byte t = view_byte s0" using v e(2) by (intro ext) (simp add: view_byte_def Let_def)
    moreover have "kept s0 t" using v e(2) by (simp add: kept_def own_def)
    ultimately show ?thesis using ready_trans [OF that(2), of t] e by (simp add: ready_def)
  qed
  have "ready s s' \<and> (\<forall>b. r = Some b \<longrightarrow> w_ind s' = Some b) \<and> (r = None \<longrightarrow> brange (w_mount s') = bused (w_mount s'))"
  proof (cases "i_block (w_inode s) 12 = 0")
    case True
    obtain b m' where a: "ext2_alloc_block (w_mount s) = (b, m')" by fastforce
    note st = alloc_step [OF winv_live(3) [OF assms(1)] a]
    show ?thesis
    proof (cases "b = 0")
      case z: True
      have "set_i_block (w_inode s) 12 0 = w_inode s" using True by (simp add: set_i_block_def i_block_def flip: True)
      then have "s' = s \<and> r = None" using assms(2) True a z st(1) by (simp add: write_indirect_def)
      then show ?thesis using st(1) [OF z] assms(1) by simp
    next
      case nz: False
      let ?s = "(set_blk s m' 12 b)\<lparr>w_ind := Some zero_block\<rparr>"
      note i = set_blk_indirect [OF assms(1) st(2) [OF nz] True]
      have w: "winv ?s" using i(1) by (simp add: ready_def)
      have "(r, s') = (Some zero_block, ?s)"
        unfolding assms(2) [symmetric] using True a nz winv_ok(1) [OF w] by (simp add: write_indirect_def)
      then show ?thesis using i(1) by simp
    qed
  next
    case False
    then have "(r, s') = (case w_ind s of Some b \<Rightarrow> (Some b, s)
        | None \<Rightarrow> (case ext2_read_block (w_mount s) (i_block (w_inode s) 12) of
            (None, m) \<Rightarrow> (None, s\<lparr>w_mount := m\<rparr>) | (Some b, m) \<Rightarrow> (Some b, s\<lparr>w_mount := m, w_ind := Some b\<rparr>)))"
      using assms(2) winv_ok(1) [OF assms(1)] by (simp add: write_indirect_def)
    from load [OF assms(1) ready_refl [OF assms(1)] False this] show ?thesis by auto
  qed
  then show "ready s s'" "r = Some b \<Longrightarrow> w_ind s' = Some b" "r = None \<Longrightarrow> brange (w_mount s') = bused (w_mount s')" by blast+
qed

lemma write_phys_spec:
  assumes "winv s" and "unat bi < 268" and "write_phys s bi = (p, s')"
  shows "ready s s'" "p \<noteq> 0 \<Longrightarrow> view s' (unat bi) = p" "p = 0 \<Longrightarrow> brange (w_mount s') = bused (w_mount s')"
proof -
  have "ready s s' \<and> (p \<noteq> 0 \<longrightarrow> view s' (unat bi) = p) \<and> (p = 0 \<longrightarrow> brange (w_mount s') = bused (w_mount s'))"
  proof (cases "bi < 12")
    case True
    then have k: "unat bi < 12" by (simp add: word_less_nat_alt)
    obtain b m' where a: "ext2_alloc_block (w_mount s) = (b, m')" by fastforce
    note st = alloc_step [OF winv_live(3) [OF assms(1)] a]
    have e: "(p, s') = (if i_block (w_inode s) (unat bi) = 0 then if b = 0 then (0, s\<lparr>w_mount := m'\<rparr>) else (b, set_blk s m' (unat bi) b)
        else (i_block (w_inode s) (unat bi), s))"
      unfolding assms(3) [symmetric] using True a by (simp add: write_phys_def Let_def)
    show ?thesis
      using e assms(1) k st set_blk_direct [OF assms(1), of b m' "unat bi"]
      by (auto simp: view_def split: if_splits)
  next
    case False
    then have k: "12 \<le> unat bi" "unat (bi - 12) = unat bi - 12" "bi < 12 + block_size (w_mount s) div 4"
      using assms(2) winv_live(2) [OF assms(1)] by (simp_all add: word_less_nat_alt unat_sub word_le_nat_alt geo_simps)
    obtain r s1 where 1: "write_indirect s = (r, s1)" by fastforce
    note i = write_indirect_spec [OF assms(1) 1]
    show ?thesis
    proof (cases r)
      case None
      then have "(p, s') = (0, s1)" using assms(3) False k 1 by (simp add: write_phys_def)
      then show ?thesis using i None by simp
    next
      case (Some ents)
      have w: "winv s1" "w_ind s1 = Some ents" using i(1,2) Some by (simp_all add: ready_def)
      let ?e = "le32 ents (4 * (unat bi - 12))"
      obtain b m' where a: "ext2_alloc_block (w_mount s1) = (b, m')" by fastforce
      note st = alloc_step [OF winv_live(3) [OF w(1)] a]
      have nz: "i_block (w_inode s1) 12 \<noteq> 0" using w by (simp add: winv_def)
      let ?s = "s1\<lparr>w_mount := m', w_ind := Some (put32 ents (4 * (unat bi - 12)) b), w_dirty := True,
        w_inode := set_i_blocks (w_inode s1) (i_blocks (w_inode s1) + block_size m' div 512)\<rparr>"
      have e: "(p, s') = (if ?e = 0 then if b = 0 then (0, s1\<lparr>w_mount := m'\<rparr>) else (b, ?s) else (?e, s1))"
        unfolding assms(3) [symmetric] write_phys_def k(2) using False k(3) 1 Some a by (simp add: Let_def)
      have "view s1 (unat bi) = ?e" using w(2) nz k(1) assms(2) by (simp add: view_def)
      then show ?thesis
        using e i(1) st set_entry [OF w(1) _ w(2) _ k(1) assms(2), of b m'] ready_trans [OF i(1)]
        by (auto split: if_splits)
    qed
  qed
  then show "ready s s'" "p \<noteq> 0 \<Longrightarrow> view s' (unat bi) = p" "p = 0 \<Longrightarrow> brange (w_mount s') = bused (w_mount s')" by blast+
qed

section \<open>The write loop\<close>

lemma bused_upd:
  assumes "c \<noteq> bb m"
  shows "bused (upd_blk m c v) = bused m" "brange (upd_blk m c v) = brange m" "blocks_inv (upd_blk m c v) = blocks_inv m"
  using assms by (simp_all add: bused_def brange_def blk_data_upd blocks_inv_def)

lemma put_data:
  fixes v :: buf
  assumes "winv s" and "view s bi = p" and "p \<noteq> 0"
  defines "s' \<equiv> s\<lparr>w_mount := upd_blk (w_mount s) (unat p) v\<rparr>"
  shows "winv s'" "kept s s'" "view s' = view s"
    "view_byte s' x = (if x div 1024 = bi then slice v 0 1024 (x mod 1024) else view_byte s x)"
proof -
  have bi: "bi < 268" using assms(2,3) by (auto simp: view_def split: if_splits)
  have o: "owns (w_mount s) (view s) (i_block (w_inode s) 12)" using assms(1) by (simp add: winv_def)
  have p: "unat p \<in> bused (w_mount s)" "p \<noteq> i_block (w_inode s) 12" using o assms(2,3) bi by (auto simp: owns_def)
  note b = bused_meta [OF winv_live(2) [OF assms(1)] p(1)]
  note u = bused_upd [of "unat p" "w_mount s" v]
  have i: "blk_data (w_mount s') (unat (i_block (w_inode s) 12)) = blk_data (w_mount s) (unat (i_block (w_inode s) 12))"
    using p(2) by (simp add: s'_def blk_data_upd unat_eq_iff32)
  then show v: "view s' = view s" by (intro ext) (auto simp: view_def s'_def split: option.splits)
  show "winv s'" using assms(1) v i u b(1) by (auto simp: winv_def owns_def) (auto simp: s'_def)
  have "unat p \<in> own s" using assms(2,3) bi by (auto simp: own_def)
  moreover have os: "own s' = own s" by (simp add: own_def v) (simp add: s'_def)
  ultimately show "kept s s'" unfolding kept_def Let_def os using u(1) b(1,2) by (auto simp: s'_def blk_data_upd)
  have d: "unat (view s k) = unat p \<longleftrightarrow> k = bi" if "view s k \<noteq> 0" for k
  proof -
    have "k < 268" using that by (auto simp: view_def split: if_splits)
    moreover have "\<forall>bi < 268. \<forall>bj < 268. view s bi \<noteq> 0 \<and> view s bi = view s bj \<longrightarrow> bi = bj"
      using o unfolding owns_def by (elim conjE)
    ultimately have "view s k = view s bi \<longrightarrow> k = bi" using that bi by simp
    then have "view s k = p \<longleftrightarrow> k = bi" using assms(2) by auto
    then show ?thesis by (simp add: unat_eq_iff32)
  qed
  show "view_byte s' x = (if x div 1024 = bi then slice v 0 1024 (x mod 1024) else view_byte s x)"
  proof (cases "view s (x div 1024) = 0")
    case True
    then show ?thesis using assms(2,3) by (auto simp: view_byte_def v Let_def)
  next
    case False
    then show ?thesis
      using d [OF False] assms(2) by (simp add: view_byte_def v Let_def) (simp add: s'_def blk_data_upd)
  qed
qed

lemma put_chunk:
  assumes "winv s" and "view s (f div 1024) = p" and "p \<noteq> 0" and "k \<le> 1024 - f mod 1024"
  shows "view_byte (s\<lparr>w_mount := upd_blk (w_mount s) (unat p)
      (memcpy_at (blk_data (w_mount s) (unat p)) (f mod 1024) b r k)\<rparr>) x =
    (if f \<le> x \<and> x < f + k then b (x - f + r) else view_byte s x)"
proof (cases "x div 1024 = f div 1024")
  case True
  then have x: "x + f mod 1024 = f + x mod 1024" 
    using div_mult_mod_eq [of x 1024] div_mult_mod_eq [of f 1024] by linarith
  have m: "f mod 1024 < 1024" "x mod 1024 < 1024" by simp_all
  have "f \<le> x \<longleftrightarrow> f mod 1024 \<le> x mod 1024" "x < f + k \<longleftrightarrow> x mod 1024 < f mod 1024 + k" "x mod 1024 - f mod 1024 = x - f"
    using x by linarith+
  moreover have "view_byte s x = blk_data (w_mount s) (unat p) (x mod 1024)"
    using assms(2,3) True by (simp add: view_byte_def)
  ultimately show ?thesis using True m(2) unfolding put_data(4) [OF assms(1-3)] by (simp add: memcpy_at_def slice_def)
next
  case False
  then have "\<not> (f \<le> x \<and> x < f + k)" using file_byte_chunk(1) [of f x] assms(4) by linarith
  then show ?thesis using False unfolding put_data(4) [OF assms(1-3)] by auto
qed

lemma write_loop_spec:
  assumes "unat offset + unat sz \<le> 274432"
  shows "winv s \<Longrightarrow> wrote \<le> sz \<Longrightarrow> unat sz - unat wrote \<le> fuel \<Longrightarrow> write_loop fuel s offset sz b wrote = (w, s') \<Longrightarrow>
    winv s' \<and> kept s s' \<and> wrote \<le> w \<and> w \<le> sz \<and> (w < sz \<longrightarrow> brange (w_mount s') = bused (w_mount s')) \<and>
    (wrote < sz \<and> w = wrote \<longrightarrow> fst (write_phys s ((offset + wrote) div 1024)) = 0) \<and>
    (\<forall>x. view_byte s' x = (if unat offset + unat wrote \<le> x \<and> x < unat offset + unat w then b (x - unat offset) else view_byte s x))"
proof (induction fuel arbitrary: s wrote)
  case 0
  then have "wrote = sz" by (simp add: unat_eq_iff32 word_le_nat_alt)
  then show ?case using 0 by auto
next
  case (Suc fuel)
  show ?case
  proof (cases "wrote < sz")
    case False
    then have "w = wrote \<and> s' = s \<and> wrote = sz" using Suc.prems(2,4) by simp
    then show ?thesis using Suc.prems(1) by auto
  next
    case True
    let ?f = "unat offset + unat wrote" and ?bo = "(offset + wrote) mod 1024" and ?bi = "(offset + wrote) div 1024"
    let ?c = "chunk_len 1024 ?bo (sz - wrote)"
    obtain k where k: "k = min (1024 - ?f mod 1024) (unat sz - unat wrote)" by simp
    note c = chunk_nat [OF assms True, folded k]
    obtain p s1 where 1: "write_phys s ?bi = (p, s1)" by fastforce
    have "unat ?bi < 268" using c(1,7) by simp
    note ph = write_phys_spec [OF Suc.prems(1) this 1, unfolded c(1)]
    have g: "block_size (w_mount s) = 1024" using geo_simps(1) winv_live(2) [OF Suc.prems(1)] .
    have w1: "winv s1" "kept s s1" "view_byte s1 = view_byte s" using ph(1) by (simp_all add: ready_def)
    show ?thesis
    proof (cases "p = 0")
      case z: True
      then have "w = wrote \<and> s' = s1" using Suc.prems(4) True 1 g by (simp add: Let_def)
      then show ?thesis using w1 ph(3) [OF z] Suc.prems(2) 1 z by auto
    next
      case nz: False
      note v = ph(2) [OF nz]
      let ?blk = "blk_data (w_mount s1) (unat p)"
      let ?v = "memcpy_at ?blk (?f mod 1024) b (unat wrote) k"
      let ?s2 = "s1\<lparr>w_mount := upd_blk (w_mount s1) (unat p) ?v\<rparr>"
      note l = winv_live [OF w1(1)] and ok = winv_ok(2) [OF w1(1) c(7), unfolded v]
      note r = data_blk_range(2,3) [OF l(2) ok nz]
      note pd = put_data [OF w1(1) v nz, of ?v]
      note pc = put_chunk [OF w1(1) v nz c(8), where b = b and r = "unat wrote"]
      have e: "write_loop fuel ?s2 offset sz b (wrote + ?c) = (w, s')"
        using Suc.prems(4) True 1 g nz ok read_block_live [OF l(1) r] write_block_live [OF l(1) r] c(2,3) by (simp add: Let_def)
      have le: "wrote + ?c \<le> sz" unfolding word_le_nat_alt c(4) by (rule c(6))
      have "unat sz - unat (wrote + ?c) \<le> fuel" unfolding c(4) using c(5) Suc.prems(3) by linarith
      note IH = Suc.IH [OF pd(1) le this e, unfolded c(4)]
      have "wrote \<le> wrote + ?c" unfolding word_le_nat_alt c(4) by simp
      moreover have "wrote + ?c \<le> w" using IH by simp
      moreover from this have "unat wrote + k \<le> unat w" unfolding word_le_nat_alt c(4) .
      moreover have "kept s s'" using kept_trans [OF w1(2) kept_trans [OF pd(2)]] IH by blast
      moreover have "view_byte s' x = (if ?f \<le> x \<and> x < unat offset + unat w then b (x - unat offset) else view_byte s x)" for x
        using IH pc [of x] c(5) calculation(3) unfolding w1(3) by auto
      moreover have "w \<noteq> wrote" using calculation(3) c(5) by auto
      ultimately show ?thesis using IH by (meson order_trans)
    qed
  qed
qed

section \<open>The whole write\<close>

text \<open>The blocks a file occupies, the indirect block included.\<close>

definition file_blocks :: "mount \<Rightarrow> ext2_inode \<Rightarrow> nat set" where
  "file_blocks m n = {unat (blk_of m n bi) |bi. bi < 268 \<and> blk_of m n bi \<noteq> 0} \<union>
     (if i_block n 12 = 0 then {} else {unat (i_block n 12)})"

lemma view_clean:
  assumes "winv s" and "\<not> w_dirty s"
  shows "view s = blk_of (w_mount s) (w_inode s)"
  using assms by (intro ext) (auto simp: view_def blk_of_def winv_def split: option.splits)

lemma view_flushed:
  assumes "w_ind s = Some b" and "blk_data (w_mount s) (unat (i_block (w_inode s) 12)) = slice b 0 1024"
  shows "view s = blk_of (w_mount s) (w_inode s)"
proof
  fix bi
  have "le32 (slice b 0 1024) (4 * (bi - 12)) = le32 b (4 * (bi - 12))" if "bi < 268"
    using that by (intro le32_cong) (auto simp: slice_def)
  then show "view s bi = blk_of (w_mount s) (w_inode s) bi" using assms by (simp add: view_def blk_of_def)
qed

lemma flush_spec:
  assumes "winv s" and "flush_indirect s = (lost, s')"
  shows "\<not> lost" "ready s s'" "w_inode s' = w_inode s" "view s' = blk_of (w_mount s') (w_inode s')"
proof -
  have "\<not> lost \<and> ready s s' \<and> w_inode s' = w_inode s \<and> view s' = blk_of (w_mount s') (w_inode s')"
  proof (cases "w_dirty s")
    case False
    then have "\<not> lost \<and> s' = s" using assms(2) by (auto simp: flush_indirect_def split: option.splits)
    then show ?thesis using view_clean [OF assms(1) False] assms(1) by simp
  next
    case True
    let ?p = "i_block (w_inode s) 12"
    from True assms(1) obtain b where b: "w_ind s = Some b" "?p \<noteq> 0" by (auto simp: winv_def)
    define s2 where "s2 = s\<lparr>w_mount := upd_blk (w_mount s) (unat ?p) b\<rparr>"
    note l = winv_live [OF assms(1)] and ok = winv_ok(1) [OF assms(1)]
    have e: "lost = False" "s' = s2"
      using assms(2) True b(1) ok write_block_live [OF l(1) data_blk_range(2,3) [OF l(2) ok b(2)]]
      by (simp_all add: flush_indirect_def s2_def)
    have o: "owns (w_mount s) (view s) ?p" using assms(1) by (simp add: winv_def)
    have u: "unat ?p \<in> bused (w_mount s)" using o b(2) by (simp add: owns_def)
    note m = bused_meta [OF l(2) u] and bu = bused_upd [of "unat ?p" "w_mount s" b]
    have v: "view s2 = view s" using b by (intro ext) (simp add: view_def s2_def)
    have w: "winv s2" using assms(1) v bu m(1) True by (auto simp: winv_def owns_def) (auto simp: s2_def)
    have "view_byte s2 x = view_byte s x" for x
    proof (cases "view s (x div 1024) = 0")
      case False
      then have "x div 1024 < 268" by (auto simp: view_def split: if_splits)
      with False o have "view s (x div 1024) \<noteq> ?p" by (simp add: owns_def)
      then show ?thesis by (simp add: view_byte_def v Let_def) (simp add: s2_def blk_data_upd unat_eq_iff32)
    qed (simp add: view_byte_def v)
    then have vb: "view_byte s2 = view_byte s" ..
    have os: "own s2 = own s" by (simp add: own_def v) (simp add: s2_def)
    have "unat ?p \<in> own s" using b(2) by (simp add: own_def)
    then have "kept s s2" unfolding kept_def Let_def os using bu(1) m(1,2) by (auto simp: s2_def blk_data_upd)
    moreover have "view s2 = blk_of (w_mount s2) (w_inode s2)"
      using b(1) by (intro view_flushed [of _ b]) (simp_all add: s2_def blk_data_upd)
    ultimately show ?thesis using w vb e by (simp add: ready_def s2_def)
  qed
  then show "\<not> lost" "ready s s'" "w_inode s' = w_inode s" "view s' = blk_of (w_mount s') (w_inode s')" by blast+
qed

text \<open>Storing an inode touches its table block only, which is no block of a file.\<close>

lemma put_inode_data:
  assumes "geo m" and "valid_ino m ino"
  shows "c \<noteq> iblk m ino \<Longrightarrow> blk_data (put_inode m ino x) c = blk_data m c"
    "bused (put_inode m ino x) = bused m" "brange (put_inode m ino x) = brange m" "blocks_inv (put_inode m ino x) = blocks_inv m"
    "iblk m ino < fdb m" "iblk m ino \<notin> {1, 2, bb m}"
proof -
  note b = iblk_bounds [OF assms]
  have g: "it m + itb m \<le> fdb m" "2 < it m" using geo_facts [OF assms(1)] by simp_all
  show "iblk m ino < fdb m" using b g by linarith
  have "bb m \<noteq> iblk m ino" using b assms(1) by (auto simp: geo_def)
  then show "bused (put_inode m ino x) = bused m" "brange (put_inode m ino x) = brange m" "blocks_inv (put_inode m ino x) = blocks_inv m"
    "iblk m ino \<notin> {1, 2, bb m}" using b g unfolding put_inode_def by (auto simp: bused_upd)
qed (simp add: put_inode_def blk_data_upd)

lemma put_inode_file:
  assumes "geo m" and "valid_ino m ino" and "file_wf m n"
  shows "blk_of (put_inode m ino x) n = blk_of m n" "file_byte (put_inode m ino x) n = file_byte m n" "file_wf (put_inode m ino x) n"
proof -
  note p = put_inode_data [OF assms(1,2)]
  have u: "blk_data (put_inode m ino x) c = blk_data m c" if "c \<in> bused m" for c
  proof (rule p(1))
    show "c \<noteq> iblk m ino" using p(5) bused_meta(2) [OF assms(1) that] by linarith
  qed
  have ind: "i_block n 12 \<noteq> 0 \<Longrightarrow> unat (i_block n 12) \<in> bused m"
    and blk: "blk_of m n k \<noteq> 0 \<Longrightarrow> k < 268 \<Longrightarrow> unat (blk_of m n k) \<in> bused m" for k
    using assms(3) unfolding file_wf_def owns_def by blast+
  show b: "blk_of (put_inode m ino x) n = blk_of m n"
    using u [OF ind] by (intro ext) (simp add: blk_of_def)
  have "blk_of m n k \<noteq> 0 \<Longrightarrow> k < 268" for k by (auto simp: blk_of_def split: if_splits)
  then show "file_byte (put_inode m ino x) n = file_byte m n"
    using u [OF blk] by (intro ext) (simp add: file_byte_def b Let_def)
  show "file_wf (put_inode m ino x) n" using assms(3) unfolding file_wf_def owns_def b p(2) .
qed

lemma set_size_file:
  "blk_of m (set_i_size n z) = blk_of m n" "file_byte m (set_i_size n z) = file_byte m n" "file_wf m (set_i_size n z) = file_wf m n"
proof -
  show b: "blk_of m (set_i_size n z) = blk_of m n" by (intro ext) (simp add: blk_of_def)
  show "file_byte m (set_i_size n z) = file_byte m n" by (intro ext) (simp add: file_byte_def b)
  show "file_wf m (set_i_size n z) = file_wf m n" by (simp add: file_wf_def b)
qed

lemma wf_file_ok:
  assumes "file_wf m n"
  shows "file_ok m n"
  using assms unfolding file_ok_def file_wf_def owns_def data_blk_ok_iff bused_def brange_def by auto

definition writer :: "mount \<Rightarrow> ext2_inode \<Rightarrow> wstate" where
  "writer m n = \<lparr>w_mount = m, w_inode = n, w_ind = None, w_dirty = False\<rparr>"

lemma writer_start:
  "view (writer m n) = blk_of m n" "view_byte (writer m n) = file_byte m n" "own (writer m n) = file_blocks m n"
  "blocks_inv m \<Longrightarrow> file_wf m n \<Longrightarrow> winv (writer m n)"
proof -
  show v: "view (writer m n) = blk_of m n" by (intro ext) (simp add: view_def blk_of_def writer_def)
  show "view_byte (writer m n) = file_byte m n"
    by (intro ext) (simp add: view_byte_def file_byte_def Let_def v, simp add: writer_def)
  show "own (writer m n) = file_blocks m n" unfolding own_def file_blocks_def v by (simp add: writer_def)
  show "blocks_inv m \<Longrightarrow> file_wf m n \<Longrightarrow> winv (writer m n)"
    unfolding winv_def v by (simp add: writer_def file_wf_def)
qed

text \<open>The loop and the write-back together, in terms of the file.\<close>

lemma write_run:
  assumes "blocks_inv m" and "file_wf m n" and "unat offset + unat sz \<le> 274432"
    and "write_loop (unat sz) (writer m n) offset sz b 0 = (w, s1)" and "flush_indirect s1 = (lost, s)"
  shows "\<not> lost" "w \<le> sz" "w < sz \<Longrightarrow> brange (w_mount s) = bused (w_mount s)" "blocks_inv (w_mount s)" "skel (w_mount s) = skel m"
    "file_wf (w_mount s) (w_inode s)" "i_size (w_inode s) = i_size n" "bused m \<subseteq> bused (w_mount s)"
    "file_byte (w_mount s) (w_inode s) x =
       (if unat offset \<le> x \<and> x < unat offset + unat w then b (x - unat offset) else file_byte m n x)"
    "c \<in> bused m - file_blocks m n \<or> c < fdb m \<and> c \<notin> {1, 2, bb m} \<Longrightarrow> blk_data (w_mount s) c = blk_data m c"
    "0 < sz \<Longrightarrow> w = 0 \<Longrightarrow> fst (write_phys (writer m n) (offset div 1024)) = 0"
proof -
  have l: "winv s1" "kept (writer m n) s1" "w \<le> sz" "w < sz \<longrightarrow> brange (w_mount s1) = bused (w_mount s1)"
      "0 < sz \<Longrightarrow> w = 0 \<Longrightarrow> fst (write_phys (writer m n) (offset div 1024)) = 0"
      "view_byte s1 x = (if unat offset \<le> x \<and> x < unat offset + unat w then b (x - unat offset) else file_byte m n x)" for x
    using write_loop_spec [OF assms(3) writer_start(4) [OF assms(1,2)] _ _ assms(4)] by (simp_all add: writer_start)
  note f = flush_spec [OF l(1) assms(5)]
  have r: "winv s" "kept s1 s" "view_byte s = view_byte s1" using f(2) by (simp_all add: ready_def)
  have k: "kept (writer m n) s" using kept_trans [OF l(2) r(2)] .
  show "\<not> lost" "w \<le> sz" by (fact f(1) l(3))+
  show "blocks_inv (w_mount s)" using r(1) by (simp add: winv_def)
  show "file_wf (w_mount s) (w_inode s)" using r(1) by (simp add: winv_def file_wf_def f(4))
  have "view_byte s = file_byte (w_mount s) (w_inode s)" by (intro ext) (simp add: view_byte_def file_byte_def f(4))
  then show "file_byte (w_mount s) (w_inode s) x =
      (if unat offset \<le> x \<and> x < unat offset + unat w then b (x - unat offset) else file_byte m n x)"
    using l(6) [of x] r(3) by simp
  show "0 < sz \<Longrightarrow> w = 0 \<Longrightarrow> fst (write_phys (writer m n) (offset div 1024)) = 0" by (fact l(5))
  have wm: "w_mount (writer m n) = m" "w_inode (writer m n) = n" by (simp_all add: writer_def)
  show "skel (w_mount s) = skel m" "i_size (w_inode s) = i_size n" "bused m \<subseteq> bused (w_mount s)"
    using k unfolding kept_def Let_def wm by blast+
  show "c \<in> bused m - file_blocks m n \<or> c < fdb m \<and> c \<notin> {1, 2, bb m} \<Longrightarrow> blk_data (w_mount s) c = blk_data m c"
    using k unfolding kept_def Let_def wm writer_start(3) by blast
  show "brange (w_mount s) = bused (w_mount s)" if "w < sz"
  proof -
    have "brange (w_mount s1) = bused (w_mount s1)" using l(4) that by simp
    moreover have "bused (w_mount s1) \<subseteq> bused (w_mount s)" "brange (w_mount s) = brange (w_mount s1)"
      using r(2) range_skel [of "w_mount s" "w_mount s1"] by (simp_all add: kept_def Let_def)
    ultimately show ?thesis by (auto simp: bused_def)
  qed
qed

lemma write_fits:
  fixes offset sz :: u32
  assumes "unat offset + unat sz \<le> 274432"
  shows "\<not> offset > 0xFFFFFFFF - sz" "\<not> offset + sz > EXT2_MAX_FILE_BLOCKS * 1024" "unat (offset + sz) = unat offset + unat sz"
proof -
  show a: "unat (offset + sz) = unat offset + unat sz" using assms by (intro unat_add32) simp
  have "unat (0xFFFFFFFF - sz) = 4294967295 - unat sz"
    by (subst unat_sub) (simp_all add: word_le_nat_alt unat_lt_2p32 less_Suc_eq_le [symmetric])
  then show "\<not> offset > 0xFFFFFFFF - sz" using assms by (simp add: word_less_nat_alt)
  show "\<not> offset + sz > EXT2_MAX_FILE_BLOCKS * 1024"
    using assms a by (simp add: word_less_nat_alt EXT2_MAX_FILE_BLOCKS_def)
qed

lemma write_data_eq:
  assumes "blocks_inv m" and "file_wf m n" and "valid_ino m ino" and le: "unat offset + unat sz \<le> 274432"
    and 1: "write_loop (unat sz) (writer m n) offset sz b 0 = (w, s1)" and 2: "flush_indirect s1 = (lost, s)"
  defines "n1 \<equiv> (if offset + w > i_size (w_inode s) then set_i_size (w_inode s) (offset + w) else w_inode s)"
  shows "ext2_write_data m ino n offset sz b =
    (if w = 0 then (0, w_inode s, w_mount s) else (w, n1, put_inode (w_mount s) ino n1))"
proof -
  note r = write_run [OF assms(1,2) le 1 2]
  have g: "geo m" using assms(1) by (simp add: blocks_inv_def live_def)
  have "live (w_mount s)" using r(4) by (simp add: blocks_inv_def)
  moreover have "valid_ino (w_mount s) ino" using skel_sel(12) [OF r(5)] assms(3) by simp
  ultimately have "ext2_write_inode (w_mount s) ino n1 = (True, put_inode (w_mount s) ino n1)" by (rule write_inode_live)
  then show ?thesis
    using 1 2 r(1) write_fits(1,2) [OF le] geo_simps(1) [OF g]
    unfolding ext2_write_data_def writer_def n1_def by (simp add: Let_def)
qed

lemma grown_inode:
  assumes "unat offset + unat w \<le> 274432" and "n1 = (if offset + w > i_size n then set_i_size n (offset + w) else n)"
  shows "unat (i_size n1) = max (unat (i_size n)) (unat offset + unat w)" "file_wf m n1 = file_wf m n" "file_byte m n1 = file_byte m n"
  using assms(2) write_fits(3) [OF assms(1)] by (auto simp: set_size_file word_less_nat_alt)

text \<open>A write that would leave the 268 blocks of a file, or wrap around, is refused as a whole.\<close>

lemma write_refused:
  fixes offset sz :: u32
  assumes "geo m" and "274432 < unat offset + unat sz"
  shows "ext2_write_data m ino n offset sz b = (0, n, m)"
proof -
  have s: "unat (0xFFFFFFFF - sz) = 4294967295 - unat sz"
    by (subst unat_sub) (simp_all add: word_le_nat_alt unat_lt_2p32 less_Suc_eq_le [symmetric])
  have "offset + sz > EXT2_MAX_FILE_BLOCKS * 1024" if "\<not> offset > 0xFFFFFFFF - sz"
  proof -
    have "unat offset + unat sz < 4294967296" using that s unat_lt_2p32 [of sz] by (simp add: word_less_nat_alt del: unat_lt_2p32)
    from unat_add32 [OF this] show ?thesis using assms(2) by (simp add: word_less_nat_alt EXT2_MAX_FILE_BLOCKS_def)
  qed
  then show ?thesis using geo_simps(1) [OF assms(1)] by (auto simp: ext2_write_data_def)
qed

text \<open>A write that starts in a direct block makes progress unless the volume is full.\<close>

lemma write_progress:
  assumes "blocks_inv m" and "file_wf m n" and "valid_ino m ino" and "unat offset + unat sz \<le> 274432"
    and "ext2_write_data m ino n offset sz b = (w, n', m')" and "0 < sz" and "offset div 1024 < 12" and "brange m \<noteq> bused m"
  shows "0 < w"
proof -
  obtain w1 s1 where 1: "write_loop (unat sz) (writer m n) offset sz b 0 = (w1, s1)" by fastforce
  obtain lost s where 2: "flush_indirect s1 = (lost, s)" by fastforce
  have "fst (write_phys (writer m n) (offset div 1024)) \<noteq> 0"
    using assms(7,8) alloc_step(1) [OF assms(1)]
    by (auto simp: write_phys_def writer_def Let_def case_prod_beta prod_eq_iff)
  then have nz: "w1 \<noteq> 0" using write_run(11) [OF assms(1,2,4) 1 2] assms(6) by blast
  have "w = w1" using write_data_eq [OF assms(1-4) 1 2] assms(5) unfolding if_not_P [OF nz] by simp
  then show ?thesis using nz by (simp add: word_gt_0)
qed

lemma write_in_range:
  assumes "blocks_inv m" and "file_wf m n" and "valid_ino m ino" and "unat offset + unat sz \<le> 268 * 1024"
    and "ext2_write_data m ino n offset sz b = (w, n', m')"
  shows "w \<le> sz \<and> blocks_inv m' \<and> bused m \<subseteq> bused m' \<and> (w < sz \<longrightarrow> brange m' = bused m') \<and>
    (0 < w \<longrightarrow> ext2_read_inode m' ino = (Some (slice n' 0 INODE_SIZE), m') \<and> file_wf m' n' \<and> file_ok m' n' \<and>
       unat (i_size n') = max (unat (i_size n)) (unat offset + unat w) \<and>
       (\<forall>x. file_byte m' n' x =
          (if unat offset \<le> x \<and> x < unat offset + unat w then b (x - unat offset) else file_byte m n x))) \<and>
    (\<forall>c. c \<in> bused m - file_blocks m n \<or> c < fdb m \<and> c \<notin> {1, 2, bb m, iblk m ino} \<longrightarrow> blk_data m' c = blk_data m c)"
proof -
  obtain w1 s1 where 1: "write_loop (unat sz) (writer m n) offset sz b 0 = (w1, s1)" by fastforce
  obtain lost s where 2: "flush_indirect s1 = (lost, s)" by fastforce
  have le: "unat offset + unat sz \<le> 274432" using assms(4) by simp
  note r = write_run [OF assms(1,2) le 1 2] and e = write_data_eq [OF assms(1-3) le 1 2]
  define n1 where "n1 = (if offset + w1 > i_size (w_inode s) then set_i_size (w_inode s) (offset + w1) else w_inode s)"
  show ?thesis
  proof (cases "w1 = 0")
    case True
    then have "w = 0" "m' = w_mount s" using assms(5) e by simp_all
    moreover have "0 < sz \<longrightarrow> brange (w_mount s) = bused (w_mount s)" using r(3) True by simp
    ultimately show ?thesis using r(4,8) r(10) by simp
  next
    case False
    then have "ext2_write_data m ino n offset sz b = (w1, n1, put_inode (w_mount s) ino n1)" using e unfolding n1_def by (simp only: if_False)
    then have eq: "w = w1" "n' = n1" "m' = put_inode (w_mount s) ino n1" using assms(5) by simp_all
    have lv: "live (w_mount s)" "geo (w_mount s)" "geo m" using r(4) assms(1) by (simp_all add: blocks_inv_def live_def)
    have vi: "valid_ino (w_mount s) ino" "iblk (w_mount s) = iblk m" using skel_sel(11,12) [OF r(5)] assms(3) by simp_all
    note pd = put_inode_data [OF lv(2) vi(1)]
    have "unat offset + unat w1 \<le> 274432" using le r(2) by (simp add: word_le_nat_alt)
    note gr = grown_inode [OF this n1_def]
    have wf: "file_wf (w_mount s) n1" using r(6) gr(2) by simp
    note pf = put_inode_file [OF lv(2) vi(1) wf]
    have "file_wf m' n'" using pf(3) eq by simp
    moreover have "ext2_read_inode m' ino = (Some (slice n' 0 INODE_SIZE), m')"
      using read_inode_live [of m' ino] inode_at_put [OF lv(2) vi(1) vi(1)] eq lv(1) vi(1) by simp
    moreover have "blk_data m' c = blk_data m c"
      if c: "c \<in> bused m - file_blocks m n \<or> c < fdb m \<and> c \<notin> {1, 2, bb m, iblk m ino}" for c
    proof -
      have "iblk m ino < fdb m" using put_inode_data(5) [OF lv(3) assms(3)] .
      then have "c \<noteq> iblk m ino" using c bused_meta(2) [OF lv(3), of c] by auto
      then show ?thesis using r(10) [of c] c pd(1) [of c n1] vi(2) eq(3) by auto
    qed
    moreover have "file_byte m' n' x = (if unat offset \<le> x \<and> x < unat offset + unat w1 then b (x - unat offset) else file_byte m n x)" for x
      using pf(2) gr(3) r(9) [of x] eq by simp
    ultimately show ?thesis
      using r(2,3,4,7,8) eq pd(2,3,4) gr(1) wf_file_ok [of m' n'] by simp
  qed
qed

section \<open>Properties\<close>

text \<open>
  C7: Writing to a file that owns its blocks, on a device that does not fail. A write that would end beyond
  the 268 blocks a file can have (the sum not wrapped) is refused and changes nothing. Otherwise at most
  \<open>sz\<close> bytes are written, and fewer only when no block of the volume is free. If anything was written, the
  inode on disk is the one in memory, the file still owns its blocks, its size covers the written part
  and never shrinks, its bytes are the new ones in the written part and the old ones elsewhere
  (holes still read as zeros). In every case the blocks of other files and all metadata
  outside the superblock, the group descriptor, the block bitmap and the inode itself are as before.
\<close>

theorem ext2_write_spec:
  assumes "blocks_inv m" and "file_wf m n" and "valid_ino m ino"
    and "ext2_write_data m ino n offset sz b = (w, n', m')"
  shows "if 268 * 1024 < unat offset + unat sz then w = 0 \<and> n' = n \<and> m' = m
    else w \<le> sz \<and> blocks_inv m' \<and> bused m \<subseteq> bused m' \<and> (w < sz \<longrightarrow> brange m' = bused m') \<and>
    (0 < w \<longrightarrow> ext2_read_inode m' ino = (Some (slice n' 0 INODE_SIZE), m') \<and> file_wf m' n' \<and> file_ok m' n' \<and>
       unat (i_size n') = max (unat (i_size n)) (unat offset + unat w) \<and>
       (\<forall>x. file_byte m' n' x =
          (if unat offset \<le> x \<and> x < unat offset + unat w then b (x - unat offset) else file_byte m n x))) \<and>
    (\<forall>c. c \<in> bused m - file_blocks m n \<or> c < fdb m \<and> c \<notin> {1, 2, bb m, iblk m ino} \<longrightarrow> blk_data m' c = blk_data m c)"
proof (cases "268 * 1024 < unat offset + unat sz")
  case True
  then have "ext2_write_data m ino n offset sz b = (0, n, m)"
    using assms(1) by (intro write_refused) (simp_all add: blocks_inv_def live_def)
  then show ?thesis using assms(4) True by simp
next
  case False
  then have le: "unat offset + unat sz \<le> 268 * 1024" by (simp only: not_less)
  show ?thesis unfolding if_not_P [OF False] by (rule write_in_range [OF assms(1-3) le assms(4)])
qed

theorem ext2_write_spec_witness:
  "\<exists>w n' m'. ext2_write_data (demo_mount (\<lambda>_. 0)) 11 (\<lambda>_. 0) 1020 8 (\<lambda>i. of_nat i + 65) = (w, n', m') \<and>
     0 < w \<and> w \<le> 8 \<and> file_byte m' n' 1020 = 65 \<and> file_byte m' n' 3 = 0 \<and> unat (i_size n') = 1020 + unat w \<and>
     ext2_read_inode m' 11 = (Some (slice n' 0 INODE_SIZE), m')"
proof -
  let ?m = "demo_mount (\<lambda>_. 0)"
  obtain w n' m' where r: "ext2_write_data ?m 11 (\<lambda>_. 0) 1020 8 (\<lambda>i. of_nat i + 65) = (w, n', m')"
    by (metis prod_cases3)
  have f: "file_wf ?m (\<lambda>_. 0)" by (simp add: file_wf_def owns_def demo_no_blocks)
  have v: "valid_ino ?m 11" by (simp add: valid_ino_def)
  have "brange ?m \<noteq> bused ?m" by (simp add: demo_blank)
  then have w: "0 < w" using write_progress [OF demo_blank(5) f v _ r] by simp
  from ext2_write_spec [OF demo_blank(5) f v r]
  have "w \<le> 8" and "0 < w \<longrightarrow> ext2_read_inode m' 11 = (Some (slice n' 0 INODE_SIZE), m') \<and>
      unat (i_size n') = max (unat (i_size (\<lambda>_. 0))) (1020 + unat w) \<and>
      (\<forall>x. file_byte m' n' x = (if 1020 \<le> x \<and> x < 1020 + unat w then of_nat (x - 1020) + 65 else file_byte ?m (\<lambda>_. 0) x))"
    by simp_all
  moreover have "file_byte ?m (\<lambda>_. 0) x = 0" for x by (simp add: file_byte_def demo_no_blocks)
  moreover have "i_size (\<lambda>_. 0) = 0" by (simp add: i_size_def le32_def)
  ultimately show ?thesis using r w by (intro exI conjI) (auto simp: word_less_nat_alt)
qed

end
