(* ===== verification/Ext2_Dir_Spec.thy ===== *)
theory Ext2_Dir_Spec
  imports Ext2_Dir Ext2_Write
begin

text \<open>
  Directories of \<^verbatim>\<open>kernel/ext2.c\<close> as lists of records: what the scans of lookup and insertion compute on
  a block whose records tile it, and that a name that was added is found.
\<close>

section \<open>The records of a block\<close>

text \<open>A record: inode number, name, length in the block. \<open>dir_chain b off limit es\<close>: the records
  \<open>es\<close> tile the bytes from \<open>off\<close> to \<open>limit\<close>.\<close>

type_synonym dir_rec = "u32 \<times> u8 list \<times> nat"

fun dir_chain :: "buf \<Rightarrow> nat \<Rightarrow> nat \<Rightarrow> dir_rec list \<Rightarrow> bool" where
  "dir_chain b off limit [] \<longleftrightarrow> off = limit"
| "dir_chain b off limit ((i, nm, l) # es) \<longleftrightarrow>
     8 \<le> l \<and> l mod 4 = 0 \<and> off + l \<le> limit \<and> length nm \<le> l - 8 \<and> length nm \<le> 255 \<and>
     le32 b off = i \<and> le16 b (off + 4) = of_nat l \<and> le16 b (off + 6) = of_nat (length nm) \<and>
     buf_list b (off + 8) (length nm) = nm \<and> dir_chain b (off + l) limit es"

definition dir_find :: "dir_rec list \<Rightarrow> u8 list \<Rightarrow> u32" where
  "dir_find es name = (case find (\<lambda>(i, nm, l). i \<noteq> 0 \<and> nm = name) es of None \<Rightarrow> 0 | Some (i, _) \<Rightarrow> i)"

lemma dir_find_simps [simp]:
  "dir_find [] name = 0"
  "dir_find ((i, nm, l) # es) name = (if i \<noteq> 0 \<and> nm = name then i else dir_find es name)"
  by (simp_all add: dir_find_def)

lemma dir_find_append:
  "dir_find (es @ fs) name = (if dir_find es name \<noteq> 0 then dir_find es name else dir_find fs name)"
  by (induction es) auto

lemma dir_chain_cong:
  "(\<And>i. off \<le> i \<Longrightarrow> i < limit \<Longrightarrow> b i = c i) \<Longrightarrow> dir_chain b off limit es = dir_chain c off limit es"
proof (induction es arbitrary: off)
  case (Cons e es)
  obtain i nm l where e: "e = (i, nm, l)" using prod_cases3 by blast
  show ?case
  proof (cases "8 \<le> l \<and> off + l \<le> limit \<and> length nm \<le> l - 8")
    case True
    then have "le32 b off = le32 c off" "le16 b (off + 4) = le16 c (off + 4)" "le16 b (off + 6) = le16 c (off + 6)"
        "buf_list b (off + 8) (length nm) = buf_list c (off + 8) (length nm)"
      using Cons.prems by (auto intro!: le32_cong le16_cong buf_list_cong)
    moreover have "dir_chain b (off + l) limit es = dir_chain c (off + l) limit es"
      using Cons.prems by (intro Cons.IH) simp
    ultimately show ?thesis by (simp add: e)
  next
    case False
    then show ?thesis by (auto simp: e)
  qed
qed simp

lemma dir_chain_slice: "dir_chain (slice v 0 1024) 0 1024 es = dir_chain v 0 1024 es"
  by (rule dir_chain_cong) (simp add: slice_def)

section \<open>Words and numbers\<close>

lemma unat16: "n < 65536 \<Longrightarrow> unat (of_nat n :: u16) = n"
  by (simp add: unat_of_nat take_bit_nat_eq_self)

lemma and3_mod4: "(of_nat l :: u16) AND 3 = 0 \<longleftrightarrow> l mod 4 = 0" if "l < 65536"
proof -
  have m: "(3 :: u16) = mask 2" by (simp add: mask_eq_exp_minus_1)
  have "unat ((of_nat l :: u16) AND 3) = l mod 4"
    unfolding m take_bit_eq_mask [symmetric] unsigned_take_bit_eq unat16 [OF that] by (simp add: take_bit_eq_mod)
  then show ?thesis by (metis unat_eq_zero)
qed

text \<open>A record of the chain passes the checks of \<^verbatim>\<open>ext2_dirent_ok\<close>.\<close>

lemma chain_dirent_ok:
  assumes "dir_chain b off limit ((i, nm, l) # es)" and "limit \<le> 1024"
  shows "ext2_dirent_ok b (of_nat off) (of_nat limit)" "de_inode b (of_nat off) = i" "unat (de_name_len b (of_nat off)) = length nm"
    "de_rec_len b (of_nat off) = of_nat l" "(of_nat off :: u32) + ucast (de_rec_len b (of_nat off)) = of_nat (off + l)"
    "(of_nat off :: u32) + 8 \<le> of_nat limit" "buf_list b (unat (of_nat off :: u32) + 8) (length nm) = nm"
proof -
  have c: "8 \<le> l" "l mod 4 = 0" "off + l \<le> limit" "length nm \<le> l - 8" "length nm \<le> 255" "le32 b off = i"
      "le16 b (off + 4) = of_nat l" "le16 b (off + 6) = of_nat (length nm)" "buf_list b (off + 8) (length nm) = nm"
    using assms(1) by simp_all
  have o: "unat (of_nat off :: u32) = off" "unat (of_nat limit :: u32) = limit" "unat (of_nat (off + l) :: u32) = off + l"
    using c(3) assms(2) by (simp_all only: unat_of_nat32)
  have u: "unat (of_nat l :: u16) = l" "unat (of_nat (length nm) :: u16) = length nm" using c assms(2) by (auto intro!: unat16)
  show "de_inode b (of_nat off) = i" "buf_list b (unat (of_nat off :: u32) + 8) (length nm) = nm" using c o by (simp_all add: de_inode_def)
  show r: "de_rec_len b (of_nat off) = of_nat l" using c o by (simp add: de_rec_len_def)
  show n: "unat (de_name_len b (of_nat off)) = length nm" using c o u by (simp add: de_name_len_def)
  have "(ucast (of_nat l :: u16) :: u32) = of_nat l"
    using u(1) unat_of_nat32 [of l] c assms(2) by (simp add: word_unat_eq_iff unat_ucast16_32)
  then show a: "(of_nat off :: u32) + ucast (de_rec_len b (of_nat off)) = of_nat (off + l)" by (simp add: r)
  show "(of_nat off :: u32) + 8 \<le> of_nat limit"
    using o c assms(2) unat_add32 [of "of_nat off" 8] by (simp add: word_le_nat_alt)
  have "\<not> off + l > limit" using c by simp
  then have "\<not> (of_nat off :: u32) + ucast (de_rec_len b (of_nat off)) > of_nat limit" unfolding a by (simp add: word_less_nat_alt o del: of_nat_add)
  moreover have "\<not> (of_nat l :: u16) < 8" using u(1) c(1) by (simp add: word_less_nat_alt)
  moreover have "unat ((of_nat l :: u16) - 8) = l - 8" using u(1) c(1) by (simp add: unat_sub word_le_nat_alt)
  moreover have "\<not> de_name_len b (of_nat off) > of_nat l - 8" "\<not> de_name_len b (of_nat off) > 255"
    using n c calculation(3) by (simp_all add: word_less_nat_alt)
  ultimately show "ext2_dirent_ok b (of_nat off) (of_nat limit)"
    using and3_mod4 [of l] c assms(2) unfolding ext2_dirent_ok_def r by simp
qed

section \<open>The scans\<close>

lemma dir_chain_end: "dir_chain b off limit es \<Longrightarrow> off \<le> limit"
  by (induction es arbitrary: off) auto

lemma dir_scan_chain:
  "dir_chain b off limit es \<Longrightarrow> limit \<le> 1024 \<Longrightarrow> limit - off \<le> fuel \<Longrightarrow>
   dir_scan fuel b (of_nat off) (of_nat limit) name = dir_find es name"
proof (induction es arbitrary: off fuel)
  case Nil
  have "\<not> (of_nat limit :: u32) + 8 \<le> of_nat limit"
    using Nil unat_add32 [of "of_nat limit" 8] unat_of_nat32 [of limit] by (simp add: word_le_nat_alt)
  then show ?case using Nil by (cases fuel) simp_all
next
  case (Cons e es)
  obtain i nm l where e: "e = (i, nm, l)" using prod_cases3 by blast
  have c: "dir_chain b (off + l) limit es" "8 \<le> l" "off + l \<le> limit" using Cons.prems(1) by (simp_all add: e)
  then obtain f where f: "fuel = Suc f" "limit - (off + l) \<le> f" using Cons.prems(3) by (cases fuel) auto
  note ok = chain_dirent_ok [OF Cons.prems(1) [unfolded e] Cons.prems(2)]
  have "unat (de_name_len b (of_nat off)) = length name \<and> buf_list b (unat (of_nat off :: u32) + 8) (length name) = name \<longleftrightarrow> nm = name"
    using ok(3,7) by auto
  then show ?case
    using Cons.IH [OF c(1) Cons.prems(2) f(2)] ok(1,2,5,6) by (simp add: e f(1) del: of_nat_add)
qed

definition need :: "nat \<Rightarrow> nat" where
  "need n = (n + 11) div 4 * 4"

lemma rec_need_nat: "n < 1000 \<Longrightarrow> rec_need (of_nat n) = of_nat (need n) \<and> unat (rec_need (of_nat n)) = need n"
proof -
  assume n: "n < 1000"
  have "(3 :: u32) = mask 2" by (simp add: mask_eq_exp_minus_1)
  then have "unat ((of_nat (n + 11) :: u32) AND NOT 3) = (n + 11) div 4 * 4"
    using unat_and_not_mask [of "of_nat (n + 11)" 2] unat_of_nat32 [of "n + 11"] n by simp
  then have u: "unat (rec_need (of_nat n)) = need n" by (simp add: rec_need_def need_def add.commute)
  moreover have "unat (of_nat (need n) :: u32) = need n" using n by (intro unat_of_nat32) (simp add: need_def)
  ultimately show ?thesis by (simp add: word_unat_eq_iff)
qed

lemma need_bounds: "n + 8 \<le> need n" "need n \<le> n + 11" "need n mod 4 = 0" "8 \<le> need n"
proof -
  have "need n = n + 11 - (n + 11) mod 4" by (simp add: need_def minus_mod_eq_div_mult)
  moreover have "(n + 11) mod 4 < 4" by simp
  ultimately show "n + 8 \<le> need n" "need n \<le> n + 11" "8 \<le> need n" by linarith+
qed (simp add: need_def)

text \<open>Insertion splits the last record when its slack holds the new one.\<close>

fun split_last :: "dir_rec list \<Rightarrow> u32 \<Rightarrow> u8 list \<Rightarrow> dir_rec list option" where
  "split_last [] child name = None"
| "split_last [(i, nm, l)] child name =
     (if need (length nm) + need (length name) \<le> l
      then Some [(i, nm, need (length nm)), (child, name, l - need (length nm))] else None)"
| "split_last (e # es) child name = map_option (Cons e) (split_last es child name)"

lemma put_dirent_fields:
  assumes "unat off = p"
  shows "le32 (put_dirent b off ino rec name) p = ino" "le16 (put_dirent b off ino rec name) (p + 4) = rec"
    "le16 (put_dirent b off ino rec name) (p + 6) = of_nat (length name)"
    "buf_list (put_dirent b off ino rec name) (p + 8) (length name) = name"
    "i < p \<or> p + 8 + length name \<le> i \<Longrightarrow> put_dirent b off ino rec name i = b i"
proof -
  show "le32 (put_dirent b off ino rec name) p = ino" "le16 (put_dirent b off ino rec name) (p + 4) = rec"
    "le16 (put_dirent b off ino rec name) (p + 6) = of_nat (length name)"
    unfolding put_dirent_def assms by (simp_all add: nos_buf)
  show "buf_list (put_dirent b off ino rec name) (p + 8) (length name) = name"
    unfolding put_dirent_def assms by (rule nth_equalityI) (simp_all add: memcpy_at_inside list_buf_def)
  show "i < p \<or> p + 8 + length name \<le> i \<Longrightarrow> put_dirent b off ino rec name i = b i"
    unfolding put_dirent_def assms by (auto simp: memcpy_at_outside put16_outside put32_outside)
qed

text \<open>The two records that replace the last one.\<close>

lemma split_chain:
  fixes child :: u32
  assumes "dir_chain b off limit [(i, nm, l)]" and "limit \<le> 1024" and "length name \<le> 255"
    and "need (length nm) + need (length name) \<le> l"
  defines "a \<equiv> need (length nm)"
  defines "b' \<equiv> put_dirent (put16 b (off + 4) (of_nat a)) (of_nat (off + a)) child (of_nat (l - a)) name"
  shows "dir_chain b' off limit [(i, nm, a), (child, name, l - a)]" "k < off \<Longrightarrow> b' k = b k"
proof -
  note n = need_bounds [of "length nm"] need_bounds [of "length name"]
  have c: "8 \<le> l" "l mod 4 = 0" "off + l = limit" "le32 b off = i" "le16 b (off + 6) = of_nat (length nm)"
      "buf_list b (off + 8) (length nm) = nm" "length nm \<le> 255" using assms(1) by simp_all
  have u: "unat (of_nat (off + a) :: u32) = off + a" using c(3) assms(2,4) unfolding a_def by (intro unat_of_nat32) linarith
  note p = put_dirent_fields [OF u, where b = "put16 b (off + 4) (of_nat a)" and ino = child and rec = "of_nat (l - a)" and name = name, folded b'_def]
  have out: "b' k = put16 b (off + 4) (of_nat a) k" if "k < off + a" for k using p(5) that by simp
  have a: "length nm + 8 \<le> a" using n(1) by (simp add: a_def)
  have "le32 b' off = le32 (put16 b (off + 4) (of_nat a)) off" using a by (intro le32_cong out) linarith
  moreover have "le16 b' (off + 4) = le16 (put16 b (off + 4) (of_nat a)) (off + 4)" using a by (intro le16_cong out) linarith
  moreover have "le16 b' (off + 6) = le16 (put16 b (off + 4) (of_nat a)) (off + 6)" using a by (intro le16_cong out) linarith
  moreover have "buf_list b' (off + 8) (length nm) = buf_list (put16 b (off + 4) (of_nat a)) (off + 8) (length nm)"
    using a by (intro buf_list_cong out) linarith
  moreover have "buf_list (put16 b (off + 4) (of_nat a)) (off + 8) (length nm) = buf_list b (off + 8) (length nm)"
    by (intro buf_list_cong) (simp add: put16_outside)
  ultimately have f: "le32 b' off = i" "le16 b' (off + 4) = of_nat a" "le16 b' (off + 6) = of_nat (length nm)"
      "buf_list b' (off + 8) (length nm) = nm"
    using c by (simp_all add: nos_buf)
  have m: "(l - a) mod 4 = 0" using c(2) n(3) unfolding a_def by (simp add: mod_eq_0_iff_dvd dvd_diff_nat)
  have b: "8 \<le> a" "a mod 4 = 0" "length nm \<le> a - 8" "a + 8 \<le> l" "length name \<le> l - a - 8" "off + a + (l - a) = limit" "off + a \<le> limit"
    using n assms(4) c(3) unfolding a_def by linarith+
  show "dir_chain b' off limit [(i, nm, a), (child, name, l - a)]"
    using f p(1-4) m b c(7) assms(3) by (simp only: dir_chain.simps) simp
  show "k < off \<Longrightarrow> b' k = b k" using out [of k] by (simp add: put16_outside)
qed

lemma add_scan_end: "limit \<le> 1024 \<Longrightarrow> add_scan fuel b (of_nat limit) (of_nat limit) child name = None"
proof -
  assume l: "limit \<le> 1024"
  have "\<not> (of_nat limit :: u32) + 8 \<le> of_nat limit"
    using l unat_add32 [of "of_nat limit" 8] unat_of_nat32 [of limit] by (simp add: word_le_nat_alt)
  then show ?thesis by (cases fuel) simp_all
qed

lemma add_scan_last:
  assumes "dir_chain b off limit [(i, nm, l)]" and "limit \<le> 1024" and "length name \<le> 255"
  defines "a \<equiv> need (length nm)"
  shows "add_scan (Suc fuel) b (of_nat off) (of_nat limit) child name =
    (if a + need (length name) \<le> l
     then Some (put_dirent (put16 b (off + 4) (of_nat a)) (of_nat (off + a)) child (of_nat (l - a)) name) else None)"
proof -
  note ok = chain_dirent_ok [OF assms(1,2)]
  have c: "off + l = limit" "length nm \<le> 255" "8 \<le> l" using assms(1) by simp_all
  have o: "unat (of_nat off :: u32) = off" using c assms(2) by (intro unat_of_nat32) linarith
  have nl: "(ucast (de_name_len b (of_nat off)) :: u32) = of_nat (length nm)"
    using ok(3) c(2) unat_of_nat32 [of "length nm"] by (simp add: word_unat_eq_iff unat_ucast16_32)
  have need: "rec_need (of_nat (length nm)) = of_nat a" "unat (rec_need (of_nat (length nm))) = a"
      "unat (rec_need (of_nat (length name))) = need (length name)"
    unfolding a_def using rec_need_nat [of "length nm"] rec_need_nat [of "length name"] c(2) assms(3) by linarith+
  have ua: "unat (rec_need (of_nat (length nm)) + rec_need (of_nat (length name))) = a + need (length name)"
    using need need_bounds(2) [of "length nm"] need_bounds(2) [of "length name"] c(2) assms(3) unfolding a_def
    by (subst unat_add32) simp_all
  have lu: "unat (of_nat l :: u16) = l" "l \<le> 1024" using c assms(2) by (auto intro!: unat16)
  have cond: "ucast (of_nat l :: u16) \<ge> rec_need (of_nat (length nm)) + rec_need (of_nat (length name)) \<longleftrightarrow> a + need (length name) \<le> l"
    unfolding word_le_nat_alt ua using lu by (simp add: unat_ucast16_32)
  have ca: "(ucast (of_nat a :: u32) :: u16) = of_nat a" 
    using need_bounds(2) [of "length nm"] c(2) by (simp add: unsigned_of_nat take_bit_nat_eq_self a_def)
  have "add_scan (Suc fuel) b (of_nat off) (of_nat limit) child name =
    (if a + need (length name) \<le> l
     then Some (put_dirent (put16 b (off + 4) (of_nat a)) (of_nat off + of_nat a) child (of_nat l - of_nat a) name)
     else add_scan fuel b (of_nat limit) (of_nat limit) child name)"
    using ok(1,4,5,6) cond o c(1) by (simp add: Let_def nl need(1) ca)
  then show ?thesis
    using add_scan_end [OF assms(2)] by (auto simp: of_nat_diff)
qed

lemma add_scan_chain:
  "dir_chain b off limit es \<Longrightarrow> limit \<le> 1024 \<Longrightarrow> limit - off \<le> fuel \<Longrightarrow> length name \<le> 255 \<Longrightarrow>
   (case add_scan fuel b (of_nat off) (of_nat limit) child name of
      None \<Rightarrow> split_last es child name = None
    | Some b' \<Rightarrow> \<exists>es'. split_last es child name = Some es' \<and> dir_chain b' off limit es' \<and> (\<forall>k < off. b' k = b k))"
proof (induction es child name arbitrary: off fuel rule: split_last.induct)
  case (1 child name)
  then show ?case using add_scan_end [of limit fuel b child name] by simp
next
  case (2 i nm l child name)
  then obtain f where f: "fuel = Suc f" by (cases fuel) auto
  show ?case
    using add_scan_last [OF 2(1,2,4), of f child] split_chain [OF 2(1,2,4), where child = child] by (auto simp: f)
next
  case (3 e e2 es child name)
  obtain i nm l where e: "e = (i, nm, l)" using prod_cases3 by blast
  obtain i2 nm2 l2 where e2: "e2 = (i2, nm2, l2)" using prod_cases3 by blast
  have c: "dir_chain b (off + l) limit (e2 # es)" "8 \<le> l" "off + l < limit" using "3.prems"(1) by (simp_all add: e e2)
  then obtain f where f: "fuel = Suc f" "limit - (off + l) \<le> f" using "3.prems"(3) by (cases fuel) auto
  note ok = chain_dirent_ok [OF "3.prems"(1) [unfolded e] "3.prems"(2)]
  have u: "unat (of_nat (off + l) :: u32) = off + l" "unat (of_nat limit :: u32) = limit"
    using c(3) "3.prems"(2) by (simp_all only: unat_of_nat32)
  then have "\<not> (of_nat limit :: u32) \<le> of_nat (off + l)" using c(3) unfolding word_le_nat_alt u by simp
  then have s: "add_scan fuel b (of_nat off) (of_nat limit) child name = add_scan f b (of_nat (off + l)) (of_nat limit) child name"
    using ok(1,5,6) by (simp add: f(1) Let_def del: of_nat_add)
  have keep: "dir_chain b' off limit (e # es')" if "dir_chain b' (off + l) limit es'" "\<forall>k < off + l. b' k = b k" for b' es'
  proof -
    have "length nm + 8 \<le> l" using "3.prems"(1) by (auto simp: e)
    then have "le32 b' off = le32 b off" "le16 b' (off + 4) = le16 b (off + 4)" "le16 b' (off + 6) = le16 b (off + 6)"
        "buf_list b' (off + 8) (length nm) = buf_list b (off + 8) (length nm)"
      using that(2) by (auto intro!: le32_cong le16_cong buf_list_cong)
    then show ?thesis using "3.prems"(1) that(1) by (simp add: e)
  qed
  show ?case
    using "3.IH" [OF c(1) "3.prems"(2) f(2) "3.prems"(4)] keep unfolding s by (auto split: option.splits)
qed

section \<open>Directories\<close>

text \<open>
  A directory whose first blocks hold the records \<open>ess\<close>: the blocks are different data blocks in use, each
  tiled by its records, and the size is that of the blocks.
\<close>

definition dir_ok :: "mount \<Rightarrow> ext2_inode \<Rightarrow> dir_rec list list \<Rightarrow> bool" where
  "dir_ok m d ess \<longleftrightarrow> length ess \<le> 12 \<and> i_size d = of_nat (length ess * 1024) \<and>
     (\<forall>b. length ess \<le> b \<and> b < 12 \<longrightarrow> i_block d b = 0) \<and>
     (\<forall>b < length ess. i_block d b \<noteq> 0 \<and> unat (i_block d b) \<in> bused m \<and>
        dir_chain (blk_data m (unat (i_block d b))) 0 1024 (ess ! b)) \<and>
     inj_on (i_block d) {..<length ess}"

lemma dir_limit_full:
  assumes "b < n" and "n \<le> 12"
  shows "dir_limit 1024 (of_nat (n * 1024)) b = Some 1024"
proof -
  have "of_nat b * 1024 + 1024 = (of_nat ((b + 1) * 1024) :: u32)" by (simp add: algebra_simps)
  moreover have "unat (of_nat ((b + 1) * 1024) :: u32) = (b + 1) * 1024" "unat (of_nat (n * 1024) :: u32) = n * 1024"
    using assms by (auto intro!: unat_of_nat32 simp del: of_nat_mult of_nat_add of_nat_Suc)
  ultimately have "\<not> of_nat b * 1024 + 1024 > (of_nat (n * 1024) :: u32)"
    using assms(1) by (simp only: word_less_nat_alt) simp
  then show ?thesis unfolding dir_limit_def by (simp only: if_False)
qed

lemma dir_block:
  assumes "live m" and "dir_ok m d ess" and "b < length ess"
  shows "i_block d b \<noteq> 0" "ext2_data_blk_ok m (i_block d b)" "ext2_read_block m (i_block d b) = (Some (blk_data m (unat (i_block d b))), m)"
    "dir_limit (block_size m) (i_size d) b = Some 1024" "dir_chain (blk_data m (unat (i_block d b))) 0 1024 (ess ! b)"
proof -
  have g: "geo m" using assms(1) by (simp add: live_def)
  have u: "i_block d b \<noteq> 0" "unat (i_block d b) \<in> bused m" using assms(2,3) by (simp_all add: dir_ok_def)
  note bm = bused_meta [OF g u(2)]
  show "i_block d b \<noteq> 0" "ext2_data_blk_ok m (i_block d b)" using u bm by (simp_all add: data_blk_ok_iff)
  show "ext2_read_block m (i_block d b) = (Some (blk_data m (unat (i_block d b))), m)"
    using read_block_live [OF assms(1)] bm by simp
  have "length ess \<le> 12" "i_size d = of_nat (length ess * 1024)" using assms(2) by (simp_all add: dir_ok_def)
  then show "dir_limit (block_size m) (i_size d) b = Some 1024"
    using dir_limit_full [OF assms(3)] geo_simps(1) [OF g] by simp
  show "dir_chain (blk_data m (unat (i_block d b))) 0 1024 (ess ! b)" using assms(2,3) by (simp add: dir_ok_def)
qed

lemma lookup_rest:
  assumes "\<forall>b \<in> set bs. i_block d b = 0"
  shows "lookup_blocks bs m d name = (0, m)"
  using assms by (induction bs) auto

lemma lookup_from:
  assumes "live m" and "dir_ok m d ess"
  shows "k + j = length ess \<Longrightarrow> lookup_blocks ([k..<length ess] @ bs) m d name =
    (if dir_find (concat (drop k ess)) name \<noteq> 0 then (dir_find (concat (drop k ess)) name, m) else lookup_blocks bs m d name)"
proof (induction j arbitrary: k)
  case (Suc j)
  then have k: "k < length ess" "Suc k + j = length ess" by simp_all
  note b = dir_block [OF assms k(1)]
  have s: "dir_scan 1024 (blk_data m (unat (i_block d k))) 0 1024 name = dir_find (ess ! k) name"
    using dir_scan_chain [OF b(5), of 1024 name] by simp
  have d: "drop k ess = ess ! k # drop (Suc k) ess" using k(1) by (rule Cons_nth_drop_Suc [symmetric])
  show ?case
    using k(1) b s Suc.IH [OF k(2)] unfolding d by (simp add: upt_conv_Cons dir_find_append)
qed simp

lemma dir_lookup_eq:
  assumes "live m" and "dir_ok m d ess"
  shows "ext2_dir_lookup m d name = (dir_find (concat ess) name, m)"
proof -
  have l: "length ess \<le> 12" "\<forall>b \<in> set [length ess..<12]. i_block d b = 0" using assms(2) by (auto simp: dir_ok_def)
  have "[0..<12] = [0..<length ess] @ [length ess..<12]" using upt_add_eq_append [of 0 "length ess" "12 - length ess"] l(1) by simp
  then show ?thesis
    unfolding ext2_dir_lookup_def using lookup_from [OF assms, of 0 "length ess"] lookup_rest [OF l(2)] by simp
qed

section \<open>Adding a name\<close>

lemma split_last_find:
  "split_last es child name = Some es' \<Longrightarrow> child \<noteq> 0 \<Longrightarrow>
   dir_find es' nm = (if dir_find es nm \<noteq> 0 then dir_find es nm else if nm = name then child else 0)"
  by (induction es child name arbitrary: es' rule: split_last.induct) (auto split: if_splits)

lemma concat_upd_find:
  assumes "b < length ess" and "split_last (ess ! b) child name = Some es'" and "child \<noteq> 0" and "dir_find (concat ess) name = 0"
  shows "dir_find (concat (ess[b := es'])) nm = (if nm = name then child else dir_find (concat ess) nm)"
proof -
  have e: "concat ess = concat (take b ess) @ ess ! b @ concat (drop (Suc b) ess)"
    using id_take_nth_drop [OF assms(1)] by (metis concat.simps(2) concat_append)
  have "concat (ess[b := es']) = concat (take b ess) @ es' @ concat (drop (Suc b) ess)"
    using assms(1) by (simp add: upd_conv_take_nth_drop)
  then show ?thesis
    using split_last_find [OF assms(2,3), of nm] assms(3,4) unfolding e by (auto simp: dir_find_append split: if_splits)
qed

lemma add_from:
  assumes "live m" and "dir_ok m d ess" and "length name \<le> 255"
  shows "k + j = length ess \<Longrightarrow>
    (\<exists>b es' v. b < length ess \<and> split_last (ess ! b) child name = Some es' \<and> dir_chain v 0 1024 es' \<and>
       add_blocks ([k..<length ess] @ bs) m ino d child name = (True, d, upd_blk m (unat (i_block d b)) v)) \<or>
    (\<forall>b. k \<le> b \<and> b < length ess \<longrightarrow> split_last (ess ! b) child name = None) \<and>
       add_blocks ([k..<length ess] @ bs) m ino d child name = add_blocks bs m ino d child name"
proof (induction j arbitrary: k)
  case (Suc j)
  then have k: "k < length ess" "Suc k + j = length ess" by simp_all
  note b = dir_block [OF assms(1,2) k(1)]
  have l: "[k..<length ess] = k # [Suc k..<length ess]" using k(1) by (rule upt_conv_Cons)
  note sc = add_scan_chain [OF b(5), of 1024 name child, OF _ _ assms(3), simplified]
  show ?case
  proof (cases "add_scan 1024 (blk_data m (unat (i_block d k))) 0 1024 child name")
    case None
    then have n: "split_last (ess ! k) child name = None" using sc by simp
    have e: "add_blocks ([k..<length ess] @ bs) m ino d child name = add_blocks ([Suc k..<length ess] @ bs) m ino d child name"
      unfolding l using b None by simp
    have "split_last (ess ! b) child name = None" if "\<forall>b. Suc k \<le> b \<and> b < length ess \<longrightarrow> split_last (ess ! b) child name = None"
        "k \<le> b \<and> b < length ess" for b
      using that n by (cases "b = k") auto
    then show ?thesis using Suc.IH [OF k(2)] unfolding e by blast
  next
    case (Some v)
    then obtain es' where v: "split_last (ess ! k) child name = Some es'" "dir_chain v 0 1024 es'" using sc by auto
    have g: "geo m" using assms(1) by (simp add: live_def)
    have "ext2_write_block m (i_block d k) v = (True, upd_blk m (unat (i_block d k)) v)"
      using write_block_live [OF assms(1)] data_blk_range(2,3) [OF g b(2,1)] by simp
    then have "add_blocks ([k..<length ess] @ bs) m ino d child name = (True, d, upd_blk m (unat (i_block d k)) v)"
      unfolding l using b Some by simp
    then show ?thesis using v k(1) by blast
  qed
qed auto

text \<open>The directory after a split.\<close>

lemma dir_ok_split:
  assumes "geo m" and "dir_ok m d ess" and "b < length ess" and "dir_chain v 0 1024 es'"
  shows "dir_ok (upd_blk m (unat (i_block d b)) v) d (ess[b := es'])" "blocks_inv (upd_blk m (unat (i_block d b)) v) = blocks_inv m"
proof -
  let ?p = "unat (i_block d b)"
  have "?p \<in> bused m" using assms(2,3) by (simp add: dir_ok_def)
  from bused_meta [OF assms(1) this] have u: "?p \<noteq> bb m" by simp
  have c: "dir_chain (slice v 0 1024) 0 1024 es'" using assms(4) by (simp add: dir_chain_slice)
  have "unat (i_block d k) = ?p \<longleftrightarrow> k = b" if "k < length ess" for k
    using assms(2,3) that by (auto simp: dir_ok_def unat_eq_iff32 inj_on_def)
  then show "dir_ok (upd_blk m ?p v) d (ess[b := es'])"
    using assms(2) c bused_upd(1) [OF u] by (auto simp: dir_ok_def blk_data_upd nth_list_update)
  show "blocks_inv (upd_blk m ?p v) = blocks_inv m" using bused_upd(3) [OF u] .
qed

text \<open>The directory after a fresh block.\<close>

lemma fresh_chain: "length name \<le> 255 \<Longrightarrow> dir_chain (slice (put_dirent (\<lambda>_. 0) 0 child 1024 name) 0 1024) 0 1024 [(child, name, 1024)]"
proof -
  assume n: "length name \<le> 255"
  note p = put_dirent_fields [of 0 0, where b = "\<lambda>_. 0" and ino = child and rec = 1024 and name = name, simplified]
  show ?thesis unfolding dir_chain_slice using p n by simp
qed

lemma dir_ok_grow:
  assumes "dir_ok m d ess" and "length ess < 12" and "i_size d' = (of_nat (length ess) + 1) * 1024"
    and ib: "\<And>k. k < 12 \<Longrightarrow> i_block d' k = (if k = length ess then nb else i_block d k)"
    and nb: "nb \<noteq> 0" "unat nb \<notin> bused m" and bu: "bused m' = insert (unat nb) (bused m)"
    and dat: "\<And>c. c \<in> bused m \<Longrightarrow> blk_data m' c = blk_data m c" and ch: "dir_chain (blk_data m' (unat nb)) 0 1024 es"
  shows "dir_ok m' d' (ess @ [es])"
  unfolding dir_ok_def
proof (intro conjI allI impI)
  have dk: "unat (i_block d k) \<in> bused m" "i_block d k \<noteq> 0" "dir_chain (blk_data m (unat (i_block d k))) 0 1024 (ess ! k)" if "k < length ess" for k
    using assms(1) that by (simp_all add: dir_ok_def)
  show "i_size d' = of_nat (length (ess @ [es]) * 1024)" using assms(3) by (simp add: algebra_simps)
  show "inj_on (i_block d') {..<length (ess @ [es])}"
    using assms(1,2) nb(2) dk(1) by (auto simp: inj_on_def ib dir_ok_def less_Suc_eq)
  fix k
  show "i_block d' k = 0" if "length (ess @ [es]) \<le> k \<and> k < 12" using that assms(1) by (simp add: ib dir_ok_def)
  assume k: "k < length (ess @ [es])"
  show "i_block d' k \<noteq> 0" "unat (i_block d' k) \<in> bused m'" using k assms(2) nb dk [of k] by (auto simp: ib bu)
  show "dir_chain (blk_data m' (unat (i_block d' k))) 0 1024 ((ess @ [es]) ! k)"
    using k assms(2) dk [of k] ch dat by (cases "k = length ess") (auto simp: ib nth_append)
qed (use assms(2) in simp)

lemma add_fresh_live:
  assumes "blocks_inv m" and "dir_ok m d ess" and "valid_ino m ino" and "length name \<le> 255" and "length ess < 12"
    and r: "add_fresh m ino d (length ess) child name = (ok, d', m')"
  shows "ok \<Longrightarrow> blocks_inv m' \<and> dir_ok m' d' (ess @ [[(child, name, 1024)]])"
    "\<not> ok \<Longrightarrow> d' = d \<and> m' = m \<and> brange m = bused m"
proof -
  obtain nb m1 where a: "ext2_alloc_block m = (nb, m1)" by fastforce
  note st = alloc_step [OF assms(1) a]
  have g: "geo m" using assms(1) by (simp add: blocks_inv_def live_def)
  let ?n = "length ess"
  have "(ok \<longrightarrow> blocks_inv m' \<and> dir_ok m' d' (ess @ [[(child, name, 1024)]])) \<and> (\<not> ok \<longrightarrow> d' = d \<and> m' = m \<and> brange m = bused m)"
  proof (cases "nb = 0")
    case True
    then show ?thesis using r a st(1) by (simp add: add_fresh_def)
  next
    case False
    note f = st(2) [OF False]
    have f1: "blocks_inv m1" "skel m1 = skel m" "unat nb \<in> bused m1" "unat nb \<notin> bused m" using f by (simp_all add: fresh_step_def)
    have l1: "live m1" "geo m1" using f1(1) by (simp_all add: blocks_inv_def live_def)
    have v1: "valid_ino m1 ino" using skel_sel(12) [OF f1(2)] assms(3) by simp
    let ?b = "put_dirent (\<lambda>_. 0) 0 child 1024 name"
    define m2 where "m2 = upd_blk m1 (unat nb) ?b"
    define d3 where "d3 = set_i_size (set_i_blocks (set_i_block d ?n nb) (i_blocks (set_i_block d ?n nb) + 2)) ((of_nat ?n + 1) * 1024)"
    note bm = bused_meta [OF l1(2) f1(3)]
    have v2: "live m2" "geo m2" "valid_ino m2 ino" using l1 v1 by (simp_all add: m2_def valid_ino_def)
    have e: "ok = True" "d' = d3" "m' = put_inode m2 ino d3"
      using r a False write_block_live [OF l1(1), of nb ?b] write_inode_live [OF v2(1,3)] bm geo_simps(1) [OF l1(2)]
      by (auto simp: add_fresh_def Let_def m2_def d3_def)
    note pi = put_inode_data [OF v2(2,3)]
    have nbb: "unat nb \<noteq> bb m1" using bm(1) by simp
    have bu: "bused m2 = bused m1" "blocks_inv m2 = blocks_inv m1" using bused_upd [OF nbb] by (simp_all add: m2_def)
    have dat: "blk_data m' c = (if c = unat nb then slice ?b 0 1024 else blk_data m c)" if "c \<in> insert (unat nb) (bused m)" for c
    proof -
      have "c \<in> bused m1" using that f1(3) fresh_used(3) [OF f g] by auto
      then have "c \<noteq> iblk m2 ino" using bused_meta(2) [OF v2(2), of c] bu(1) pi(5) by auto
      then show ?thesis using pi(1) [of c d3] that fresh_used(1) [OF f g] unfolding e(3) by (auto simp: m2_def blk_data_upd)
    qed
    have ib: "i_block d3 k = (if k = ?n then nb else i_block d k)" if "k < 12" for k using that assms(5) by (simp add: d3_def)
    have "dir_ok m' d3 (ess @ [[(child, name, 1024)]])"
    proof (rule dir_ok_grow [OF assms(2,5) _ ib False f1(4)])
      show "bused m' = insert (unat nb) (bused m)" using f pi(2) bu(1) unfolding e(3) by (simp add: fresh_step_def)
      show "i_size d3 = (of_nat ?n + 1) * 1024" by (simp add: d3_def)
      show "blk_data m' c = blk_data m c" if "c \<in> bused m" for c using dat [of c] that f1(4) by auto
      show "dir_chain (blk_data m' (unat nb)) 0 1024 [(child, name, 1024)]" using dat [of "unat nb"] fresh_chain [OF assms(4)] by simp
    qed
    then show ?thesis using e pi(4) bu(2) f1(1) by simp
  qed
  then show "ok \<Longrightarrow> blocks_inv m' \<and> dir_ok m' d' (ess @ [[(child, name, 1024)]])"
    "\<not> ok \<Longrightarrow> d' = d \<and> m' = m \<and> brange m = bused m" by blast+
qed

section \<open>Properties\<close>

text \<open>
  C8: Adding a name to a directory and looking names up, on a device that does not fail. The directory stays
  well formed. If the insertion succeeds, the new name is found with its inode and every other
  name is found as before; if it fails, nothing has changed, no block of the directory has room
  for the record, and the directory has all its blocks or the volume is full. Both scans end
  on every such directory.
\<close>

theorem ext2_dir_add_lookup:
  assumes "blocks_inv m" and "dir_ok m d ess" and "valid_ino m ino" and "length name \<le> 255" and "child \<noteq> 0"
    and "ext2_dir_lookup m d name = (0, m)" and "ext2_dir_add m ino d child name = (ok, d', m')"
  shows "blocks_inv m' \<and> (\<exists>ess'. dir_ok m' d' ess') \<and>
    (\<forall>nm. fst (ext2_dir_lookup m' d' nm) = (if ok \<and> nm = name then child else fst (ext2_dir_lookup m d nm))) \<and>
    (\<not> ok \<longrightarrow> d' = d \<and> m' = m \<and> (\<forall>es \<in> set ess. split_last es child name = None) \<and> (length ess = 12 \<or> brange m = bused m))"
proof -
  let ?n = "length ess"
  have l: "live m" "geo m" using assms(1) by (simp_all add: blocks_inv_def live_def)
  have z: "dir_find (concat ess) name = 0" using dir_lookup_eq [OF l(1) assms(2)] assms(6) by simp
  have fin: ?thesis if "blocks_inv m'" "dir_ok m' d' ess'" "ok"
      "\<And>nm. dir_find (concat ess') nm = (if nm = name then child else dir_find (concat ess) nm)" for ess'
  proof -
    have "live m'" using that(1) by (simp add: blocks_inv_def)
    then show ?thesis using that dir_lookup_eq [OF l(1) assms(2)] dir_lookup_eq [OF _ that(2)] by auto
  qed
  have n: "?n \<le> 12" using assms(2) by (simp add: dir_ok_def)
  then have sp: "[0..<12] = [0..<?n] @ [?n..<12]" using upt_add_eq_append [of 0 ?n "12 - ?n"] by simp
  have r: "add_blocks ([0..<?n] @ [?n..<12]) m ino d child name = (ok, d', m')"
    using assms(4,7) by (simp add: ext2_dir_add_def sp)
  from add_from [OF l(1) assms(2,4), of 0 ?n child "[?n..<12]" ino, unfolded r]
  consider (split) b es' v where "b < ?n" "split_last (ess ! b) child name = Some es'" "dir_chain v 0 1024 es'"
      "(ok, d', m') = (True, d, upd_blk m (unat (i_block d b)) v)"
    | (full) "\<forall>b < ?n. split_last (ess ! b) child name = None" "(ok, d', m') = add_blocks [?n..<12] m ino d child name"
    by auto
  then show ?thesis
  proof cases
    case split
    then show ?thesis
      using dir_ok_split [OF l(2) assms(2) split(1,3)] concat_upd_find [OF split(1,2) assms(5) z] assms(1)
      by (intro fin [of "ess[b := es']"]) simp_all
  next
    case full
    have ns: "\<forall>es \<in> set ess. split_last es child name = None" using full(1) by (auto simp: in_set_conv_nth)
    show ?thesis
    proof (cases "?n = 12")
      case True
      then show ?thesis using full(2) ns assms(1,2) by auto
    next
      case False
      then have "[?n..<12] = ?n # [Suc ?n..<12]" "i_block d ?n = 0" using n assms(2) by (simp_all add: upt_conv_Cons dir_ok_def)
      then have "add_fresh m ino d ?n child name = (ok, d', m')" using full(2) by simp
      note f = add_fresh_live [OF assms(1-4) _ this]
      show ?thesis
      proof (cases ok)
        case True
        then show ?thesis using f n False z assms(5) by (intro fin [of "ess @ [[(child, name, 1024)]]"]) (auto simp: dir_find_append)
      next
        case no: False
        then show ?thesis using f(2) n False ns assms(1,2) by auto
      qed
    qed
  qed
qed

theorem ext2_dir_add_lookup_witness:
  "\<exists>d' m'. ext2_dir_add (demo_mount (\<lambda>_. 0)) 2 (\<lambda>_. 0) 11 [97] = (True, d', m') \<and> fst (ext2_dir_lookup m' d' [97]) = 11"
proof -
  let ?m = "demo_mount (\<lambda>_. 0)"
  have d: "dir_ok ?m (\<lambda>_. 0) []" using demo_no_blocks(1) by (simp add: dir_ok_def i_size_def le32_def)
  obtain ok d' m' where r: "ext2_dir_add ?m 2 (\<lambda>_. 0) 11 [97] = (ok, d', m')" by (metis prod_cases3)
  have l: "live ?m" using demo_blank(5) by (simp add: blocks_inv_def)
  have n: "ext2_dir_lookup ?m (\<lambda>_. 0) [97] = (0, ?m)" using dir_lookup_eq [OF l d] by simp
  have "{7..<32} \<noteq> ({} :: nat set)" by simp
  then have ok using ext2_dir_add_lookup [OF demo_blank(5) d _ _ _ n r] unfolding demo_blank(1,2) by (auto simp: valid_ino_def)
  then show ?thesis using ext2_dir_add_lookup [OF demo_blank(5) d _ _ _ n r] r by (auto simp: valid_ino_def)
qed

end
