(* ===== verification/Ext2_Ops.thy ===== *)
theory Ext2_Ops
  imports Ext2_Dir
begin

text \<open>
  \<^verbatim>\<open>kernel/ext2.c\<close>, fifth part: the node cache, the callbacks the file system layer calls, and
  mounting.

  A node is named by its inode number: the cache holds one node per inode, which is the object
  every lookup returns. A callback takes the volume's lock on entry and releases it before each of its
  returns. \<open>lock_mount\<close> is \<^verbatim>\<open>mutex_lock\<close> once it has found the lock free; that a task waits until then, and that
  no other task is in between, is shown in \<open>Mutex\<close>.
\<close>

definition lock_mount :: "mount \<Rightarrow> mount" where "lock_mount m = m\<lparr>lock := True\<rparr>"
definition unlock_mount :: "mount \<Rightarrow> mount" where "unlock_mount m = m\<lparr>lock := False\<rparr>"

section \<open>The node cache\<close>

definition set_length :: "mount \<Rightarrow> u32 \<Rightarrow> u32 \<Rightarrow> mount" where
  "set_length m ino len =
     m\<lparr>node_cache := (node_cache m)(unat (ino - 1) := map_option (\<lambda>n. n\<lparr>node_length := len\<rparr>) (node_cache m (unat (ino - 1))))\<rparr>"

definition ext2_get_node :: "mount \<Rightarrow> u32 \<Rightarrow> u8 list \<Rightarrow> u16 \<Rightarrow> u32 \<Rightarrow> ext2_node option \<times> mount" where
  "ext2_get_node m ino name mode len =
     (if ino < 1 \<or> ino > node_cache_size m then (None, m)
      else let idx = unat (ino - 1) in
        case node_cache m idx of
          Some n \<Rightarrow> let n = n\<lparr>node_length := len\<rparr> in (Some n, m\<lparr>node_cache := (node_cache m)(idx := Some n)\<rparr>)
        | None \<Rightarrow>
            let n = \<lparr>node_name = take 127 name, node_inode = ino, node_length = len,
                     node_dir = (mode AND EXT2_S_IFMT = EXT2_S_IFDIR)\<rparr>
            in (Some n, m\<lparr>node_cache := (node_cache m)(idx := Some n)\<rparr>))"

section \<open>Callbacks\<close>

definition ext2_readdir :: "mount \<Rightarrow> u32 \<Rightarrow> u32 \<Rightarrow> dirent option \<times> mount" where
  "ext2_readdir m ino index =
     (case ext2_read_inode (lock_mount m) ino of
        (None, m) \<Rightarrow> (None, unlock_mount m)
      | (Some din, m) \<Rightarrow>
          if \<not> ext2_inode_pointers_ok m din then (None, unlock_mount m)
          else let (r, m) = list_blocks [0..<12] m din 0 index in (r, unlock_mount m))"

definition ext2_finddir :: "mount \<Rightarrow> u32 \<Rightarrow> u8 list \<Rightarrow> ext2_node option \<times> mount" where
  "ext2_finddir m dino name =
     (case ext2_read_inode (lock_mount m) dino of
        (None, m) \<Rightarrow> (None, unlock_mount m)
      | (Some din, m) \<Rightarrow>
          if \<not> ext2_inode_pointers_ok m din then (None, unlock_mount m)
          else let (ino, m) = ext2_dir_lookup m din name in
            if ino = 0 then (None, unlock_mount m)
            else case ext2_read_inode m ino of
              (None, m) \<Rightarrow> (None, unlock_mount m)
            | (Some n, m) \<Rightarrow>
                let fmt = i_mode n AND EXT2_S_IFMT in
                if fmt \<noteq> EXT2_S_IFDIR \<and> fmt \<noteq> EXT2_S_IFREG then (None, unlock_mount m)
                else let (fn, m) = ext2_get_node m ino name (i_mode n) (i_size n) in (fn, unlock_mount m))"

definition ext2_read_file :: "mount \<Rightarrow> u32 \<Rightarrow> u32 \<Rightarrow> u32 \<Rightarrow> buf \<Rightarrow> (u32 \<times> buf) \<times> mount" where
  "ext2_read_file m ino offset sz b =
     (case ext2_read_inode (lock_mount m) ino of
        (None, m) \<Rightarrow> ((0, b), unlock_mount m)
      | (Some n, m) \<Rightarrow>
          if \<not> ext2_inode_pointers_ok m n then ((0, b), unlock_mount m)
          else let (got, b, m) = ext2_read_data m n offset sz b in ((got, b), unlock_mount m))"

definition ext2_write_file :: "mount \<Rightarrow> u32 \<Rightarrow> u32 \<Rightarrow> u32 \<Rightarrow> buf \<Rightarrow> u32 \<times> mount" where
  "ext2_write_file m ino offset sz b =
     (case ext2_read_inode (lock_mount m) ino of
        (None, m) \<Rightarrow> (0, unlock_mount m)
      | (Some n, m) \<Rightarrow>
          if \<not> ext2_inode_pointers_ok m n then (0, unlock_mount m)
          else let (wrote, n, m) = ext2_write_data m ino n offset sz b in (wrote, unlock_mount (set_length m ino (i_size n))))"

text \<open>The inode with its block pointers, size and block count cleared.\<close>

definition cleared :: "ext2_inode \<Rightarrow> ext2_inode" where
  "cleared n = set_i_blocks (set_i_size (set_i_block (fold (\<lambda>i n. set_i_block n i 0) [0..<12] n) 12 0) 0) 0"

definition free_direct :: "mount \<Rightarrow> ext2_inode \<Rightarrow> mount" where
  "free_direct m n = fold (\<lambda>i m. if i_block n i \<noteq> 0 then ext2_free_block m (i_block n i) else m) [0..<12] m"

definition free_children :: "mount \<Rightarrow> buf \<Rightarrow> mount" where
  "free_children m ind = fold (\<lambda>i m. let child = le32 ind (4 * i) in
     if child \<noteq> 0 \<and> ext2_data_blk_ok m child then ext2_free_block m child else m) [0..<unat (block_size m div 4)] m"

definition truncate_commit :: "mount \<Rightarrow> u32 \<Rightarrow> ext2_inode \<Rightarrow> buf option \<Rightarrow> bool \<times> mount" where
  "truncate_commit m ino n ind =
     (let (ok, m) = ext2_write_inode m ino (cleared n) in
      if \<not> ok then (False, unlock_mount m)
      else let m = free_direct (set_length m ino 0) n in
        case ind of
          None \<Rightarrow> (True, unlock_mount m)
        | Some b \<Rightarrow> (True, unlock_mount (ext2_free_block (free_children m b) (i_block n 12))))"

definition ext2_truncate :: "mount \<Rightarrow> u32 \<Rightarrow> bool \<times> mount" where
  "ext2_truncate m ino =
     (case ext2_read_inode (lock_mount m) ino of
        (None, m) \<Rightarrow> (False, unlock_mount m)
      | (Some n, m) \<Rightarrow>
          if \<not> ext2_inode_pointers_ok m n then (False, unlock_mount m)
          else if i_block n 12 \<noteq> 0 then
            case ext2_read_block m (i_block n 12) of
              (None, m) \<Rightarrow> (False, unlock_mount m)
            | (Some ind, m) \<Rightarrow>
                if list_ex (\<lambda>i. le32 ind (4 * i) \<noteq> 0 \<and> \<not> ext2_data_blk_ok m (le32 ind (4 * i))) [0..<unat (block_size m div 4)]
                then (False, unlock_mount m)
                else truncate_commit m ino n (Some ind)
          else truncate_commit m ino n None)"

definition ext2_create :: "mount \<Rightarrow> u32 \<Rightarrow> u8 list \<Rightarrow> ext2_node option \<times> mount" where
  "ext2_create m dino name =
     (case ext2_read_inode (lock_mount m) dino of
        (None, m) \<Rightarrow> (None, unlock_mount m)
      | (Some din, m) \<Rightarrow>
          if \<not> ext2_inode_pointers_ok m din then (None, unlock_mount m)
          else let (old, m) = ext2_dir_lookup m din name in
            if old \<noteq> 0 then (None, unlock_mount m)
            else let (ino, m) = ext2_alloc_inode m in
              if ino = 0 then (None, unlock_mount m)
              else let n = set_i_links_count (set_i_mode (\<lambda>_. 0) (EXT2_S_IFREG OR 0x1A4)) 1;
                       (ok, m) = ext2_write_inode m ino n in
                if \<not> ok then (None, unlock_mount (ext2_free_inode m ino))
                else let (ok, din, m) = ext2_dir_add m dino din ino name in
                  if \<not> ok then (None, unlock_mount (ext2_free_inode m ino))
                  else let (fn, m) = ext2_get_node m ino name (EXT2_S_IFREG OR 0x1A4) 0 in (fn, unlock_mount m))"

section \<open>Making a directory\<close>

definition dot_block :: "u32 \<Rightarrow> u32 \<Rightarrow> u32 \<Rightarrow> buf" where
  "dot_block bs ino parent = put_dirent (put_dirent (\<lambda>_. 0) 0 ino 12 [46]) 12 parent (ucast (bs - 12)) [46, 46]"

definition dir_inode :: "u32 \<Rightarrow> u32 \<Rightarrow> ext2_inode" where
  "dir_inode bs blk = set_i_block (set_i_blocks (set_i_size (set_i_links_count
     (set_i_mode (\<lambda>_. 0) (EXT2_S_IFDIR OR 0x1ED)) 2) bs) 2) 0 blk"

definition set_used_dirs :: "mount \<Rightarrow> u16 \<Rightarrow> mount" where
  "set_used_dirs m v = m\<lparr>gd := put16 (gd m) 16 v\<rparr>"

text \<open>The child's block and inode are given back.\<close>

definition mkdir_undo :: "mount \<Rightarrow> u32 \<Rightarrow> u32 \<Rightarrow> mount" where
  "mkdir_undo m blk ino = ext2_free_inode (ext2_free_block m blk) ino"

text \<open>The steps after the checks and the two allocations.\<close>

definition mkdir_link :: "mount \<Rightarrow> u32 \<Rightarrow> ext2_inode \<Rightarrow> u8 list \<Rightarrow> u32 \<Rightarrow> u32 \<Rightarrow> bool \<times> mount" where
  "mkdir_link m dino din name ino blk =
     (let links = i_links_count din;
          din1 = set_i_links_count din (links + 1);
          (ok, m) = ext2_write_inode m dino din1 in
      if \<not> ok then (False, unlock_mount (mkdir_undo m blk ino))
      else let used = bg_used_dirs_count (gd m);
               (ok, m) = ext2_write_group_desc (set_used_dirs m (used + 1)) in
        if \<not> ok then
          let m = set_used_dirs m used; m = snd (ext2_write_inode m dino (set_i_links_count din1 links))
          in (False, unlock_mount (mkdir_undo m blk ino))
        else let (ok, din2, m) = ext2_dir_add m dino din1 ino name in
          if \<not> ok then
            let m = snd (ext2_write_group_desc (set_used_dirs m used));
                m = snd (ext2_write_inode m dino (set_i_links_count din2 links))
            in (False, unlock_mount (mkdir_undo m blk ino))
          else let (fn, m) = ext2_get_node m ino name (EXT2_S_IFDIR OR 0x1ED) (block_size m) in (True, unlock_mount m))"

definition mkdir_build :: "mount \<Rightarrow> u32 \<Rightarrow> ext2_inode \<Rightarrow> u8 list \<Rightarrow> bool \<times> mount" where
  "mkdir_build m dino din name =
     (let (ino, m) = ext2_alloc_inode m in
      if ino = 0 then (False, unlock_mount m)
      else let (blk, m) = ext2_alloc_block m in
        if blk = 0 then (False, unlock_mount (ext2_free_inode m ino))
        else let bs = block_size m; (ok, m) = ext2_write_block m blk (dot_block bs ino dino) in
          if \<not> ok then (False, unlock_mount (mkdir_undo m blk ino))
          else let (ok, m) = ext2_write_inode m ino (dir_inode bs blk) in
            if \<not> ok then (False, unlock_mount (mkdir_undo m blk ino))
            else mkdir_link m dino din name ino blk)"

definition ext2_mkdir :: "mount \<Rightarrow> u32 \<Rightarrow> u8 list \<Rightarrow> bool \<times> mount" where
  "ext2_mkdir m dino name =
     (case ext2_read_inode (lock_mount m) dino of
        (None, m) \<Rightarrow> (False, unlock_mount m)
      | (Some din, m) \<Rightarrow>
          if \<not> ext2_inode_pointers_ok m din then (False, unlock_mount m)
          else if i_mode din AND EXT2_S_IFMT \<noteq> EXT2_S_IFDIR then (False, unlock_mount m)
          else if length name = 0 \<or> length name > 255 then (False, unlock_mount m)
          else if name = [46] \<or> name = [46, 46] then (False, unlock_mount m)
          else let (old, m) = ext2_dir_lookup m din name in
            if old \<noteq> 0 then (False, unlock_mount m)
            else if i_links_count din = 0xFFFF then (False, unlock_mount m)
            else if ucast (bg_used_dirs_count (gd m)) \<ge> s_inodes_count (sb m) then (False, unlock_mount m)
            else mkdir_build m dino din name)"

section \<open>Mounting\<close>

definition spans_overlap :: "u32 \<Rightarrow> u32 \<Rightarrow> u32 \<Rightarrow> u32 \<Rightarrow> bool" where
  "spans_overlap a na b nb \<longleftrightarrow> a < b + nb \<and> b < a + na"

text \<open>The checks on the superblock alone, in the order of the code.\<close>

definition sb_valid :: "ext2_superblock \<Rightarrow> u32 \<Rightarrow> bool" where
  "sb_valid s sectors \<longleftrightarrow>
     s_magic s = EXT2_MAGIC \<and> s_rev_level s = EXT2_REV_OLD \<and> s_log_block_size s = 0 \<and>
     s_feature_compat s = 0 \<and> s_feature_incompat s = 0 \<and> s_feature_ro_compat s = 0 \<and>
     \<not> (s_blocks_count s = 0 \<or> s_inodes_count s < EXT2_FIRST_NORMAL_INO) \<and>
     \<not> (s_blocks_per_group s = 0 \<or> s_inodes_per_group s = 0) \<and> s_first_data_block s = 1 \<and>
     s_log_frag_size s = s_log_block_size s \<and> s_frags_per_group s = s_blocks_per_group s \<and>
     \<not> s_inodes_count s > s_inodes_per_group s \<and> \<not> s_inodes_count s > 0xFFFFFFFF div 128 \<and>
     \<not> s_blocks_count s > 0xFFFFFFFF div 2 \<and> \<not> s_blocks_count s * 2 > sectors \<and>
     \<not> s_blocks_count s > s_first_data_block s + s_blocks_per_group s \<and>
     \<not> s_blocks_per_group s > 8192 \<and> \<not> s_inodes_per_group s > 8192 \<and>
     \<not> s_free_blocks_count s > s_blocks_count s \<and> \<not> s_free_inodes_count s > s_inodes_count s"

definition table_blocks :: "ext2_superblock \<Rightarrow> u32" where
  "table_blocks s = (s_inodes_count s * 128 + 1024 - 1) div 1024"

text \<open>The checks on the group descriptor.\<close>

definition gd_valid :: "ext2_superblock \<Rightarrow> ext2_group_desc \<Rightarrow> bool" where
  "gd_valid s g \<longleftrightarrow>
     (let bb = bg_block_bitmap g; ib = bg_inode_bitmap g; it = bg_inode_table g; gb = s_first_data_block s + 1;
          sbb = s_first_data_block s; n = table_blocks s in
      \<not> (bb = 0 \<or> ib = 0 \<or> it = 0) \<and>
      ext2_blk_in_range_raw s bb \<and> ext2_blk_in_range_raw s ib \<and> ext2_blk_in_range_raw s it \<and>
      \<not> ucast (bg_free_blocks_count g) > s_blocks_per_group s \<and> \<not> ucast (bg_free_inodes_count g) > s_inodes_per_group s \<and>
      \<not> ucast (bg_used_dirs_count g) > s_inodes_count s \<and>
      s_free_blocks_count s = ucast (bg_free_blocks_count g) \<and> s_free_inodes_count s = ucast (bg_free_inodes_count g) \<and>
      \<not> it + n > s_blocks_count s \<and>
      \<not> spans_overlap sbb 1 gb 1 \<and> \<not> spans_overlap sbb 1 bb 1 \<and> \<not> spans_overlap sbb 1 ib 1 \<and> \<not> spans_overlap sbb 1 it n \<and>
      \<not> spans_overlap gb 1 bb 1 \<and> \<not> spans_overlap gb 1 ib 1 \<and> \<not> spans_overlap gb 1 it n \<and>
      \<not> spans_overlap bb 1 ib 1 \<and> \<not> spans_overlap bb 1 it n \<and> \<not> spans_overlap ib 1 it n)"

definition first_data :: "ext2_superblock \<Rightarrow> ext2_group_desc \<Rightarrow> u32" where
  "first_data s g =
     (let f = bg_inode_table g + table_blocks s;
          f = (if bg_block_bitmap g + 1 > f then bg_block_bitmap g + 1 else f);
          f = (if bg_inode_bitmap g + 1 > f then bg_inode_bitmap g + 1 else f)
      in if s_first_data_block s + 1 + 1 > f then s_first_data_block s + 1 + 1 else f)"

definition mount_context :: "block_device \<Rightarrow> disk \<Rightarrow> buf \<Rightarrow> buf \<Rightarrow> mount" where
  "mount_context dv d s g =
     \<lparr>dev = dv, disk = d, sb = slice s 0 SB_SIZE, gd = slice g 0 GD_SIZE, block_size = 1024, sectors_per_block = 2,
      inode_size = 128, inode_table_block = bg_inode_table g, inode_table_blocks = table_blocks s,
      first_data_block = first_data s g, alloc_start_bit = first_data s g - s_first_data_block s,
      sb_block = s_first_data_block s, gd_block = s_first_data_block s + 1, lock = False,
      node_cache = (\<lambda>_. None), node_cache_size = s_inodes_count s\<rparr>"

text \<open>The root node and the mount, or the disk the failed attempt leaves.\<close>

definition ext2_mount :: "block_device \<Rightarrow> disk \<Rightarrow> disk + ext2_node \<times> mount" where
  "ext2_mount dv d =
     (case block_read dv d 2 2 of
        (None, d) \<Rightarrow> Inl d
      | (Some s, d) \<Rightarrow>
          if \<not> sb_valid s (sector_count dv) then Inl d
          else case block_read dv d ((s_first_data_block s + 1) * 2) 2 of
            (None, d) \<Rightarrow> Inl d
          | (Some g, d) \<Rightarrow>
              if \<not> gd_valid s g \<or> first_data s g > s_blocks_count s then Inl d
              else case ext2_read_inode (mount_context dv d s g) EXT2_ROOT_INO of
                (None, m) \<Rightarrow> Inl (disk m)
              | (Some root, m) \<Rightarrow>
                  if i_mode root AND EXT2_S_IFMT \<noteq> EXT2_S_IFDIR \<or> \<not> ext2_inode_pointers_ok m root then Inl (disk m)
                  else case ext2_get_node m EXT2_ROOT_INO [100, 105, 115, 107] (i_mode root) (i_size root) of
                    (None, m) \<Rightarrow> Inl (disk m)
                  | (Some fn, m) \<Rightarrow> Inr (fn, m))"

section \<open>Mounting establishes the geometry\<close>

lemma slice_fields:
  "s_first_data_block (slice s 0 104) = s_first_data_block s" "s_blocks_count (slice s 0 104) = s_blocks_count s"
  "s_inodes_count (slice s 0 104) = s_inodes_count s" "s_free_blocks_count (slice s 0 104) = s_free_blocks_count s"
  "bg_block_bitmap (slice g 0 32) = bg_block_bitmap g" "bg_inode_bitmap (slice g 0 32) = bg_inode_bitmap g"
  "bg_inode_table (slice g 0 32) = bg_inode_table g"
  by (auto simp: field_defs slice_def intro!: le32_cong)

lemma spans_nat:
  assumes "unat a + unat na < 4294967296" and "unat b + unat nb < 4294967296"
  shows "spans_overlap a na b nb \<longleftrightarrow> unat a < unat b + unat nb \<and> unat b < unat a + unat na"
  using assms by (simp add: spans_overlap_def word_less_nat_alt unat_add32)

lemma sb_bounds:
  assumes "sb_valid s n"
  shows "11 \<le> unat (s_inodes_count s)" "unat (s_inodes_count s) \<le> 8192" "unat (s_blocks_count s) \<le> 8193"
    "2 * unat (s_blocks_count s) \<le> unat n" "s_first_data_block s = 1"
    "unat (table_blocks s) = (unat (s_inodes_count s) * 128 + 1023) div 1024"
proof -
  have a: "\<not> s_inodes_count s < 11" "\<not> s_inodes_count s > s_inodes_per_group s" "\<not> s_inodes_per_group s > 8192"
    "\<not> s_blocks_count s > s_first_data_block s + s_blocks_per_group s" "\<not> s_blocks_per_group s > 8192" "s_first_data_block s = 1"
    "\<not> s_blocks_count s * 2 > n"
    using assms by (auto simp: sb_valid_def EXT2_FIRST_NORMAL_INO_def)
  show i: "11 \<le> unat (s_inodes_count s)" "unat (s_inodes_count s) \<le> 8192" using a(1-3) by (auto simp: word_less_nat_alt)
  have "unat (s_blocks_per_group s) \<le> 8192" using a(5) by (simp add: word_less_nat_alt)
  then have "unat (1 + s_blocks_per_group s) = 1 + unat (s_blocks_per_group s)" by (simp add: unat_word_ariths)
  then show b: "unat (s_blocks_count s) \<le> 8193" using a(4,5,6) by (simp add: word_less_nat_alt)
  then have "unat (s_blocks_count s * 2) = unat (s_blocks_count s) * 2" by (simp add: unat_word_ariths)
  then show "2 * unat (s_blocks_count s) \<le> unat n" using a(7) by (simp add: word_less_nat_alt)
  show "s_first_data_block s = 1" by (rule a(6))
  have "unat (s_inodes_count s * 128) = unat (s_inodes_count s) * 128" using i(2) by (simp add: unat_word_ariths)
  then have "unat (s_inodes_count s * 128 + 1023) = unat (s_inodes_count s) * 128 + 1023" using i(2) by (simp add: unat_word_ariths)
  note e = this
  have t: "table_blocks s = (s_inodes_count s * 128 + 1023) div 1024" by (simp add: table_blocks_def add.commute)
  show "unat (table_blocks s) = (unat (s_inodes_count s) * 128 + 1023) div 1024"
    unfolding t unat_div_distrib e by simp
qed

lemma gd_bounds:
  assumes "sb_valid s n" and "gd_valid s g"
  defines "B \<equiv> unat (bg_block_bitmap g)" and "I \<equiv> unat (bg_inode_bitmap g)" and "T \<equiv> unat (bg_inode_table g)"
    and "N \<equiv> unat (table_blocks s)"
  shows "3 \<le> B" "3 \<le> I" "3 \<le> T" "B \<noteq> I" "\<not> (T \<le> B \<and> B < T + N)" "\<not> (T \<le> I \<and> I < T + N)"
    "unat (first_data s g) = max (max (T + N) (B + 1)) (I + 1)" "T + N \<le> unat (s_blocks_count s)"
proof -
  note b = sb_bounds [OF assms(1)]
  have N: "N \<le> 1024" "0 < N" using b(1,2,6) unfolding N_def by simp_all
  have r: "unat (bg_block_bitmap g) < unat (s_blocks_count s)" "unat (bg_inode_bitmap g) < unat (s_blocks_count s)"
    "unat (bg_inode_table g) < unat (s_blocks_count s)"
    "0 < unat (bg_block_bitmap g)" "0 < unat (bg_inode_bitmap g)" "0 < unat (bg_inode_table g)"
    using assms(2) by (auto simp: gd_valid_def Let_def ext2_blk_in_range_raw_def word_less_nat_alt unat_gt_0)
  then have s: "B < 8193" "I < 8193" "T < 8193" using b(3) by (simp_all add: B_def I_def T_def)
  have sp: "spans_overlap x 1 y m \<longleftrightarrow> unat x < unat y + unat m \<and> unat y < unat x + 1"
    if "unat x < 8193" "unat y < 8193" "unat m \<le> 1024" for x y m
    using spans_nat [of x 1 y m] that by simp
  note o = assms(2) [unfolded gd_valid_def Let_def b(5)]
  have g1: "\<not> spans_overlap 1 1 (bg_block_bitmap g) 1" "\<not> spans_overlap 1 1 (bg_inode_bitmap g) 1"
    "\<not> spans_overlap 1 1 (bg_inode_table g) (table_blocks s)" "\<not> spans_overlap 2 1 (bg_block_bitmap g) 1"
    "\<not> spans_overlap 2 1 (bg_inode_bitmap g) 1" "\<not> spans_overlap 2 1 (bg_inode_table g) (table_blocks s)"
    "\<not> spans_overlap (bg_block_bitmap g) 1 (bg_inode_bitmap g) 1"
    "\<not> spans_overlap (bg_block_bitmap g) 1 (bg_inode_table g) (table_blocks s)"
    "\<not> spans_overlap (bg_inode_bitmap g) 1 (bg_inode_table g) (table_blocks s)" using o by simp_all
  show "3 \<le> B" "3 \<le> I" "3 \<le> T" "B \<noteq> I" "\<not> (T \<le> B \<and> B < T + N)" "\<not> (T \<le> I \<and> I < T + N)"
    using g1 s N r sp [of 1 "bg_block_bitmap g" 1] sp [of 1 "bg_inode_bitmap g" 1] sp [of 1 "bg_inode_table g" "table_blocks s"]
      sp [of 2 "bg_block_bitmap g" 1] sp [of 2 "bg_inode_bitmap g" 1] sp [of 2 "bg_inode_table g" "table_blocks s"]
      sp [of "bg_block_bitmap g" "bg_inode_bitmap g" 1] sp [of "bg_block_bitmap g" "bg_inode_table g" "table_blocks s"]
      sp [of "bg_inode_bitmap g" "bg_inode_table g" "table_blocks s"]
    unfolding B_def [symmetric] I_def [symmetric] T_def [symmetric] N_def [symmetric] by auto
  have u: "unat (bg_inode_table g + table_blocks s) = T + N" "unat (bg_block_bitmap g + 1) = B + 1"
    "unat (bg_inode_bitmap g + 1) = I + 1"
    using s N by (simp_all add: unat_word_ariths B_def I_def T_def N_def)
  show "unat (first_data s g) = max (max (T + N) (B + 1)) (I + 1)"
    using u \<open>3 \<le> B\<close> unfolding first_data_def Let_def b(5) by (auto simp: word_less_nat_alt max_def)
  show "T + N \<le> unat (s_blocks_count s)" using o u(1) by (simp add: word_less_nat_alt)
qed

lemma mount_context_geo:
  assumes "sb_valid s (sector_count dv)" and "gd_valid s g" and "\<not> first_data s g > s_blocks_count s"
  shows "geo (mount_context dv d s g)"
proof -
  note b = sb_bounds [OF assms(1)] and g = gd_bounds [OF assms(1,2)]
  have f: "unat (first_data s g) \<le> unat (s_blocks_count s)" using assms(3) by (simp add: word_less_nat_alt)
  have "4 \<le> unat (first_data s g)" using g(1,7) by simp
  then have "unat (first_data s g - 1) = unat (first_data s g) - 1" by (simp add: unat_pred)
  moreover have "unat (bg_block_bitmap g) < unat (first_data s g)" "unat (bg_inode_bitmap g) < unat (first_data s g)"
    "unat (bg_inode_table g) + unat (table_blocks s) \<le> unat (first_data s g)" using g(7) by simp_all
  ultimately show ?thesis
    using b g(1-6) f unfolding geo_def mount_context_def by (simp add: geo_nat slice_fields SB_SIZE_def GD_SIZE_def)
qed

lemma get_node_same:
  assumes "ext2_get_node m ino name mode len = (r, m')"
  shows "skel m' = skel m" "dev m' = dev m" "lock m' = lock m" "disk m' = disk m"
proof -
  obtain nc where "m' = m\<lparr>node_cache := nc\<rparr>"
  proof (cases "ino < 1 \<or> ino > node_cache_size m")
    case True
    then have "m' = m\<lparr>node_cache := node_cache m\<rparr>" using assms by (simp add: ext2_get_node_def)
    then show ?thesis by (rule that)
  next
    case False
    then show ?thesis using assms that by (cases "node_cache m (unat (ino - 1))") (auto simp: ext2_get_node_def Let_def)
  qed
  then show "skel m' = skel m" "dev m' = dev m" "lock m' = lock m" "disk m' = disk m" by simp_all
qed

lemma get_node_dir: "ext2_get_node m ino name mode len = (Some n, m') \<Longrightarrow> node_cache m (unat (ino - 1)) = None \<Longrightarrow>
    node_dir n = (mode AND EXT2_S_IFMT = EXT2_S_IFDIR) \<and> node_inode n = ino \<and> node_length n = len"
  by (auto simp: ext2_get_node_def Let_def split: if_splits)

lemma same_disk [simp]: "\<exists>d. m = m\<lparr>disk := d\<rparr>"
  by (rule exI [of _ "disk m"]) simp

lemma read_inode_disk: "ext2_read_inode m ino = (r, m') \<Longrightarrow> \<exists>d. m' = m\<lparr>disk := d\<rparr>"
  by (auto simp: ext2_read_inode_def ext2_read_block_def Let_def split: if_splits prod.splits option.splits)

section \<open>Properties\<close>

text \<open>
  C4: A mount that succeeds has a sound geometry, whatever the image on the disk holds: one group of
  1 KiB blocks that fits the device, bitmaps and inode table that lie in the volume without
  overlapping each other, the superblock or the group descriptor, and a first data block above all
  of them. Its root is a directory node and the lock is free.
\<close>

theorem ext2_mount_sound:
  assumes "ext2_mount dv d = Inr (fn, m)"
  shows "geo m \<and> dev m = dv \<and> \<not> lock m \<and> node_dir fn \<and> node_inode fn = 2"
proof -
  obtain s d1 where 1: "block_read dv d 2 2 = (Some s, d1)" "sb_valid s (sector_count dv)"
    using assms by (auto simp: ext2_mount_def split: prod.splits option.splits if_splits)
  obtain g d2 where 2: "block_read dv d1 ((s_first_data_block s + 1) * 2) 2 = (Some g, d2)"
      "gd_valid s g" "\<not> first_data s g > s_blocks_count s"
    using assms 1 by (auto simp: ext2_mount_def split: prod.splits option.splits if_splits)
  obtain root m1 where 3: "ext2_read_inode (mount_context dv d2 s g) EXT2_ROOT_INO = (Some root, m1)"
      "i_mode root AND EXT2_S_IFMT = EXT2_S_IFDIR" "ext2_get_node m1 EXT2_ROOT_INO [100, 105, 115, 107] (i_mode root) (i_size root) = (Some fn, m)"
    using assms 1 2 by (auto simp: ext2_mount_def split: prod.splits option.splits if_splits)
  obtain d3 where "m1 = (mount_context dv d2 s g)\<lparr>disk := d3\<rparr>" using read_inode_disk [OF 3(1)] by blast
  moreover from this have "geo m1"
    using mount_context_geo [OF 1(2) 2(2,3), of d2] skel_sel(2) [of m1 "mount_context dv d2 s g"] by simp
  ultimately show ?thesis
    using get_node_same(2,3) [OF 3(3)] skel_sel(2) [OF get_node_same(1) [OF 3(3)]] get_node_dir [OF 3(3)] 3(2) by (simp add: mount_context_def EXT2_ROOT_INO_def)
qed

text \<open>A small image that mounts: the volume of \<open>demo_mount\<close> with an empty root directory.\<close>

definition demo_image :: disk where
  "demo_image = \<lparr>media = (\<lambda>x. if 1024 \<le> x \<and> x < 2048 then demo_sb (x - 1024) else if 2048 \<le> x \<and> x < 3072 then demo_gd (x - 2048)
     else if x = 5249 then 0x40 else 0), tick = 0\<rparr>"

lemma demo_image_blocks:
  "sector_data demo_image 2 2 = slice demo_sb 0 1024" "sector_data demo_image 4 2 = slice demo_gd 0 1024"
  "slice (blk_data (m\<lparr>disk := demo_image\<rparr>) 5) 128 128 = (\<lambda>i. if i = 1 then 0x40 else 0)"
  by (auto simp: sector_data_def slice_def demo_image_def blk_data_def fun_eq_iff)

lemma demo_image_valid: "sb_valid (slice demo_sb 0 1024) 64" "gd_valid (slice demo_sb 0 1024) (slice demo_gd 0 1024)"
  "first_data (slice demo_sb 0 1024) (slice demo_gd 0 1024) = 7" "s_first_data_block (slice demo_sb 0 1024) = 1"
  "s_blocks_count (slice demo_sb 0 1024) = 32"
proof -
  have c: "le32 (slice b 0 1024) p = le32 b p" if "p + 4 \<le> 1024" for b p using that by (intro le32_cong) (simp add: slice_def)
  have c16: "le16 (slice b 0 1024) p = le16 b p" if "p + 2 \<le> 1024" for b p using that by (intro le16_cong) (simp add: slice_def)
  have z: "le32 (\<lambda>_. 0) p = 0" "le16 (\<lambda>_. 0) p = 0" for p by (simp_all add: le32_def le16_def)
  note f = field_defs s_magic_def s_rev_level_def s_log_block_size_def s_log_frag_size_def s_blocks_per_group_def
    s_frags_per_group_def s_inodes_per_group_def s_feature_compat_def s_feature_incompat_def s_feature_ro_compat_def bg_used_dirs_count_def
  show "s_first_data_block (slice demo_sb 0 1024) = 1" "s_blocks_count (slice demo_sb 0 1024) = 32"
    by (simp_all add: f c demo_sb_def nos_buf)
  show "sb_valid (slice demo_sb 0 1024) 64"
    unfolding sb_valid_def f by (simp add: c c16 demo_sb_def nos_buf z EXT2_MAGIC_def EXT2_REV_OLD_def EXT2_FIRST_NORMAL_INO_def)
  have t: "table_blocks (slice demo_sb 0 1024) = 2" by (simp add: table_blocks_def f c demo_sb_def nos_buf)
  show "gd_valid (slice demo_sb 0 1024) (slice demo_gd 0 1024)"
    unfolding gd_valid_def t f Let_def ext2_blk_in_range_raw_def spans_overlap_def
    by (simp add: c c16 demo_sb_def demo_gd_def nos_buf z)
  show "first_data (slice demo_sb 0 1024) (slice demo_gd 0 1024) = 7"
    unfolding first_data_def t f Let_def by (simp add: c demo_sb_def demo_gd_def nos_buf)
qed

theorem ext2_mount_sound_witness:
  "\<exists>fn m. ext2_mount (ram_disk 64) demo_image = Inr (fn, m) \<and> geo m \<and> node_inode fn = 2"
proof -
  let ?s = "slice demo_sb 0 1024" and ?g = "slice demo_gd 0 1024"
  let ?m = "mount_context (ram_disk 64) demo_image ?s ?g" and ?r = "\<lambda>i. if i = 1 then 0x40 else (0 :: u8)"
  have r: "block_read (ram_disk 64) demo_image 2 2 = (Some ?s, demo_image)" "block_read (ram_disk 64) demo_image 4 2 = (Some ?g, demo_image)"
    using ram_disk_live(1) [of 64] by (auto simp: block_read_def block_range_ok_iff device_live_def in_device_def demo_image_blocks)
  have g: "geo ?m" by (rule mount_context_geo) (simp_all add: demo_image_valid)
  then have l: "live ?m" by (simp add: live_def mount_context_def)
  have b: "bg_inode_table ?g = 5" "s_inodes_count ?s = 16"
    by (simp_all add: bg_inode_table_def s_inodes_count_def demo_gd_def demo_sb_def slice_def nos_buf cong: le32_cong)
  then have n: "ninodes ?m = 16" "it ?m = 5"
    by (simp_all add: ninodes_def it_def mount_context_def SB_SIZE_def GD_SIZE_def slice_fields)
  have i: "iblk ?m 2 = 5" "ioff 2 = 128" by (simp_all add: iblk_def ioff_def n)
  have "inode_at ?m 2 = ?r" using demo_image_blocks(3) [of ?m] unfolding inode_at_def i INODE_SIZE_def by (simp add: mount_context_def)
  then have ri: "ext2_read_inode ?m 2 = (Some ?r, ?m)" using read_inode_live [OF l, of 2] by (simp add: valid_ino_def n)
  have p: "i_block ?r k = 0" "i_mode ?r = 0x4000" for k by (simp_all add: i_block_def i_mode_def le32_def le16_def)
  then have "ext2_inode_pointers_ok ?m ?r" by (simp add: ext2_inode_pointers_ok_def ext2_data_blk_ok_def)
  then obtain fn m where "ext2_mount (ram_disk 64) demo_image = Inr (fn, m)"
    using r ri p b by (simp add: ext2_mount_def demo_image_valid EXT2_ROOT_INO_def EXT2_S_IFMT_def EXT2_S_IFDIR_def
        ext2_get_node_def mount_context_def Let_def)
  moreover from ext2_mount_sound [OF this] have "geo m \<and> node_inode fn = 2" by simp
  ultimately show ?thesis by blast
qed

end
