(* ===== verification/Ext2_Ops_Spec.thy ===== *)
theory Ext2_Ops_Spec
  imports Ext2_Ops Ext2_Write
begin

text \<open>
  Reading and writing through the callbacks of \<^verbatim>\<open>kernel/ext2.c\<close>: the inode is fetched and checked on every call, so
  what \<^verbatim>\<open>ext2_write_file\<close> stores, \<^verbatim>\<open>ext2_read_file\<close> finds again on the disk.
\<close>

section \<open>The lock and the node cache are not part of the volume\<close>

lemma volume_sel [simp]:
  "skel (lock_mount m) = skel m" "skel (unlock_mount m) = skel m" "skel (set_length m ino len) = skel m"
  "blk_data (lock_mount m) = blk_data m" "blk_data (unlock_mount m) = blk_data m" "blk_data (set_length m ino len) = blk_data m"
  "sb (lock_mount m) = sb m" "gd (lock_mount m) = gd m"
  "\<not> lock (unlock_mount m)"
  by (simp_all add: lock_mount_def unlock_mount_def set_length_def)

lemma same_volume:
  assumes "skel m' = skel m" and "blk_data m' = blk_data m"
  shows "live m' = live m" "geo m' = geo m" "valid_ino m' = valid_ino m" "inode_at m' = inode_at m" "file_wf m' = file_wf m" "file_ok m' = file_ok m"
    "file_byte m' = file_byte m" "bused m' = bused m" "brange m' = brange m" "ext2_inode_pointers_ok m' = ext2_inode_pointers_ok m"
proof -
  note s = skel_sel [OF assms(1)]
  show "live m' = live m" "geo m' = geo m" "valid_ino m' = valid_ino m" "ext2_inode_pointers_ok m' = ext2_inode_pointers_ok m" by (fact s)+
  show r: "brange m' = brange m" using range_skel [OF assms(1)] by simp
  show u: "bused m' = bused m" by (simp add: bused_def r s assms(2))
  have b: "blk_of m' = blk_of m" by (intro ext) (simp add: blk_of_def assms(2))
  show "inode_at m' = inode_at m" by (intro ext) (simp add: inode_at_def s assms(2))
  show "file_wf m' = file_wf m" by (intro ext) (simp add: file_wf_def owns_def b u)
  show "file_ok m' = file_ok m" by (intro ext) (simp add: file_ok_def b s)
  show "file_byte m' = file_byte m" by (intro ext) (simp add: file_byte_def b assms(2) Let_def)
qed

lemmas locked_volume [simp] = same_volume [OF volume_sel(1,4)]
lemmas unlocked_volume [simp] = same_volume [OF volume_sel(2,5)]
lemmas sized_volume [simp] = same_volume [OF volume_sel(3,6)]

lemma locked_inv [simp]: "blocks_inv (lock_mount m) = blocks_inv m"
  by (simp add: blocks_inv_def)

section \<open>The inode a write leaves\<close>

text \<open>A write never sets the doubly and triply indirect pointers.\<close>

definition high_ptrs :: "ext2_inode \<Rightarrow> u32 \<times> u32" where
  "high_ptrs n = (i_block n 13, i_block n 14)"

lemma high_ptrs_set [simp]:
  "k < 13 \<Longrightarrow> high_ptrs (set_i_block n k v) = high_ptrs n" "high_ptrs (set_i_blocks n x) = high_ptrs n"
  "high_ptrs (set_i_size n x) = high_ptrs n"
  by (simp_all add: high_ptrs_def)

lemma high_ptrs_set_blk [simp]: "k < 13 \<Longrightarrow> high_ptrs (w_inode (set_blk s m k b)) = high_ptrs (w_inode s)"
  by (simp add: set_blk_def)

lemma write_indirect_high: "high_ptrs (w_inode (snd (write_indirect s))) = high_ptrs (w_inode s)"
  by (auto simp: write_indirect_def Let_def split: prod.splits option.splits)

lemma write_phys_high: "high_ptrs (w_inode (snd (write_phys s bi))) = high_ptrs (w_inode s)"
proof (cases "bi < 12")
  case True
  then have "unat bi < 13" by (simp add: word_less_nat_alt)
  then show ?thesis using True by (simp add: write_phys_def Let_def split: prod.splits)
next
  case False
  then show ?thesis
    using write_indirect_high [of s] by (auto simp: write_phys_def Let_def split: prod.splits option.splits)
qed

lemma write_loop_high: "high_ptrs (w_inode (snd (write_loop fuel s offset sz b wrote))) = high_ptrs (w_inode s)"
proof (induction fuel arbitrary: s wrote)
  case (Suc fuel)
  have "high_ptrs (w_inode s1) = high_ptrs (w_inode s)" if "write_phys s bi = (p, s1)" for p s1 bi
    using write_phys_high [of s bi] that by simp
  then show ?case by (auto simp: Let_def Suc split: prod.splits option.splits)
qed simp

lemma flush_high: "w_inode (snd (flush_indirect s)) = w_inode s"
  by (auto simp: flush_indirect_def split: option.splits prod.splits)

lemma write_data_high:
  assumes "ext2_write_data m ino n offset sz b = (w, n', m')"
  shows "high_ptrs n' = high_ptrs n"
proof -
  let ?s = "\<lparr>w_mount = m, w_inode = n, w_ind = None, w_dirty = False\<rparr>"
  have "high_ptrs (w_inode s2) = high_ptrs n"
    if "write_loop (unat sz) ?s offset sz b 0 = (w1, s1)" "flush_indirect s1 = (lost, s2)" for w1 s1 lost s2
    using write_loop_high [of "unat sz" ?s offset sz b 0] flush_high [of s1] that by simp
  then show ?thesis using assms by (auto simp: ext2_write_data_def Let_def split: prod.splits if_splits)
qed

text \<open>The inode on disk holds the 128 bytes the fields are in.\<close>

lemma stored_inode:
  defines "c n \<equiv> slice n 0 INODE_SIZE"
  shows "k < 15 \<Longrightarrow> i_block (c n) k = i_block n k" "i_size (c n) = i_size n" "high_ptrs (c n) = high_ptrs n"
    "file_wf m (c n) = file_wf m n" "file_byte m (c n) = file_byte m n"
proof -
  show b: "i_block (c n) k = i_block n k" if "k < 15" for k
    using that by (auto simp: c_def i_block_def slice_def INODE_SIZE_def intro!: le32_cong)
  show "i_size (c n) = i_size n" by (auto simp: c_def i_size_def slice_def INODE_SIZE_def intro!: le32_cong)
  show "high_ptrs (c n) = high_ptrs n" by (simp add: high_ptrs_def b)
  have k: "blk_of m (c n) = blk_of m n" by (intro ext) (simp add: blk_of_def b)
  show "file_wf m (c n) = file_wf m n" by (simp add: file_wf_def k b)
  show "file_byte m (c n) = file_byte m n" by (intro ext) (simp add: file_byte_def k)
qed

lemma pointers_ok_wf:
  assumes "file_wf m n" and "high_ptrs n = (0, 0)"
  shows "ext2_inode_pointers_ok m n"
proof -
  have "ext2_data_blk_ok m (blk_of m n k)" if "k < 12" for k using wf_file_ok [OF assms(1)] that by (simp add: file_ok_def)
  then have "ext2_data_blk_ok m (i_block n k)" if "k < 12" for k using that by (simp add: blk_of_def)
  then show ?thesis
    using wf_file_ok [OF assms(1)] assms(2) by (simp add: ext2_inode_pointers_ok_def file_ok_def high_ptrs_def)
qed

section \<open>Properties\<close>

text \<open>What a successful call of the write callback leaves, in terms of the inode on disk.\<close>

lemma write_file_stored:
  assumes "blocks_inv m" and "valid_ino m ino" and "file_wf m (inode_at m ino)" and "ext2_write_file m ino offset sz b = (w, m')" and "0 < w"
  shows "live m'" "valid_ino m' ino" "\<not> lock m'" "file_wf m' (inode_at m' ino)" "ext2_inode_pointers_ok m' (inode_at m' ino)"
    "w \<le> sz" "unat offset + unat sz \<le> 274432"
    "unat (i_size (inode_at m' ino)) = max (unat (i_size (inode_at m ino))) (unat offset + unat w)"
    "\<And>x. file_byte m' (inode_at m' ino) x =
       (if unat offset \<le> x \<and> x < unat offset + unat w then b (x - unat offset) else file_byte m (inode_at m ino) x)"
proof -
  let ?n = "inode_at m ino" and ?l = "lock_mount m"
  have l: "live m" using assms(1) by (simp add: blocks_inv_def)
  then have r: "ext2_read_inode ?l ino = (Some ?n, ?l)" using read_inode_live [of ?l ino] assms(2) by simp
  have ok: "ext2_inode_pointers_ok m ?n"
    using assms(4,5) r by (auto simp: ext2_write_file_def split: if_splits)
  obtain n1 m1 where wd: "ext2_write_data ?l ino ?n offset sz b = (w, n1, m1)" "m' = unlock_mount (set_length m1 ino (i_size n1))"
    using assms(4) r ok by (auto simp: ext2_write_file_def split: prod.splits)
  have pre: "blocks_inv ?l" "file_wf ?l ?n" "valid_ino ?l ino" "geo ?l" using assms(1-3) l by (simp_all add: live_def)
  show le: "unat offset + unat sz \<le> 274432"
    using write_refused [OF pre(4), of offset sz ino ?n b] wd(1) assms(5) by (cases "274432 < unat offset + unat sz") auto
  then have le': "unat offset + unat sz \<le> 268 * 1024" by simp
  note s = write_in_range [OF pre(1-3) le' wd(1)]
  then have lv: "live m1" and wf: "file_wf m1 n1" and ri: "ext2_read_inode m1 ino = (Some (slice n1 0 INODE_SIZE), m1)"
    and z: "unat (i_size n1) = max (unat (i_size ?n)) (unat offset + unat w)" and wz: "w \<le> sz"
    and fb: "\<And>x. file_byte m1 n1 x = (if unat offset \<le> x \<and> x < unat offset + unat w then b (x - unat offset) else file_byte ?l ?n x)"
    using assms(5) by (simp_all add: blocks_inv_def)
  have "geo m1" using lv by (simp add: live_def)
  then have v: "valid_ino m1 ino" using ri valid_ino_iff [of m1 ino] by (auto simp: ext2_read_inode_def)
  have i: "inode_at m1 ino = slice n1 0 INODE_SIZE" using read_inode_live [OF lv v] ri by simp
  show "live m'" "valid_ino m' ino" "\<not> lock m'" using lv v by (simp_all add: wd(2))
  show w2: "file_wf m' (inode_at m' ino)" using wf by (simp add: wd(2) i stored_inode)
  have "high_ptrs ?n = (0, 0)" using ok by (simp add: ext2_inode_pointers_ok_def high_ptrs_def)
  then show "ext2_inode_pointers_ok m' (inode_at m' ino)"
    using write_data_high [OF wd(1)] by (intro pointers_ok_wf [OF w2]) (simp add: wd(2) i stored_inode)
  show "unat (i_size (inode_at m' ino)) = max (unat (i_size ?n)) (unat offset + unat w)" using z by (simp add: wd(2) i stored_inode)
  show "w \<le> sz" by (rule wz)
  show "file_byte m' (inode_at m' ino) x =
       (if unat offset \<le> x \<and> x < unat offset + unat w then b (x - unat offset) else file_byte m ?n x)" for x
    using fb [of x] by (simp add: wd(2) i stored_inode)
qed

text \<open>
  C19: A file read through the callbacks after a write through them. On a volume whose counters agree with its
  bitmap, for an inode that owns its blocks and is within the capacity of a file, a write that returns a positive count
  returns at most the requested one, and any later read returns the bytes of the file clamped to its new end: the
  written bytes where the write put them and the old bytes everywhere else, in a buffer changed nowhere else.
  The read leaves the volume as it found it, and both calls leave its lock released.
\<close>

theorem ext2_file_roundtrip:
  assumes "blocks_inv m" and "valid_ino m ino" and "file_wf m (inode_at m ino)" and "unat (i_size (inode_at m ino)) \<le> 268 * 1024"
    and "ext2_write_file m ino offset sz b = (w, m')" and "0 < w"
  shows "w \<le> sz \<and> \<not> lock m' \<and>
    (let len = max (unat (i_size (inode_at m ino))) (unat offset + unat w);
         cnt = (if len \<le> unat start then 0 else min (unat n) (len - unat start))
     in ext2_read_file m' ino start n g =
       ((of_nat cnt, \<lambda>i. if i < cnt
           then (let x = unat start + i in if unat offset \<le> x \<and> x < unat offset + unat w then b (x - unat offset)
             else file_byte m (inode_at m ino) x)
           else g i), m'))"
proof -
  note s = write_file_stored [OF assms(1-3,5,6)]
  let ?n = "inode_at m' ino" and ?l = "lock_mount m'"
  have z: "unat (i_size ?n) \<le> 274432" using s(6,7,8) assms(4) by (simp add: word_le_nat_alt)
  have r: "ext2_read_inode ?l ino = (Some ?n, ?l)" using read_inode_live [of ?l ino] s(1,2) by simp
  have "unlock_mount ?l = m'" using s(3) by (simp add: lock_mount_def unlock_mount_def)
  then have "ext2_read_file m' ino start n g =
      (let (got, b, m) = ext2_read_data ?l ?n start n g in ((got, b), unlock_mount m))"
    using r s(5) by (simp add: ext2_read_file_def)
  moreover have "file_ok ?l ?n" using wf_file_ok [OF s(4)] by simp
  ultimately show ?thesis
    using read_data_live [of ?l ?n start n g] s(1,3,6) z \<open>unlock_mount ?l = m'\<close>
    by (simp add: Let_def s(8,9) filled_def word_le_nat_alt cong: if_cong)
qed

theorem ext2_file_roundtrip_witness:
  "\<exists>w m' b'. ext2_write_file (demo_mount (\<lambda>_. 0)) 11 1020 8 (\<lambda>i. of_nat i + 65) = (w, m') \<and> 0 < w \<and>
     ext2_read_file m' 11 1019 2 (\<lambda>_. 9) = ((2, b'), m') \<and> b' 0 = 0 \<and> b' 1 = 65 \<and> b' 2 = 9"
proof -
  let ?m = "demo_mount (\<lambda>_. 0)" and ?b = "\<lambda>i. of_nat i + 65 :: u8"
  have n: "inode_at ?m 11 = (\<lambda>_. 0)"
    by (auto simp: inode_at_def slice_def blk_data_def demo_mount_def fun_eq_iff)
  have v: "valid_ino ?m 11" and f: "file_wf ?m (\<lambda>_. 0)" by (simp_all add: valid_ino_def file_wf_def owns_def demo_no_blocks)
  have l: "live ?m" using demo_blank(5) by (simp add: blocks_inv_def)
  have r: "ext2_read_inode (lock_mount ?m) 11 = (Some (\<lambda>_. 0), lock_mount ?m)"
    using read_inode_live [of "lock_mount ?m" 11] l v n by simp
  have "ext2_inode_pointers_ok ?m (\<lambda>_. 0)" using pointers_ok_wf [OF f] by (simp add: high_ptrs_def demo_no_blocks)
  moreover obtain w n1 m1 where wd: "ext2_write_data (lock_mount ?m) 11 (\<lambda>_. 0) 1020 8 ?b = (w, n1, m1)" by (metis prod_cases3)
  ultimately obtain m' where wf: "ext2_write_file ?m 11 1020 8 ?b = (w, m')" using r by (simp add: ext2_write_file_def)
  have "0 < w"
    using write_progress [of "lock_mount ?m" "\<lambda>_. 0" 11 1020 8 ?b, OF _ _ _ _ wd] demo_blank v f by simp
  have z: "i_size (\<lambda>_. 0) = 0" "file_byte ?m (\<lambda>_. 0) x = 0" for x
    by (simp_all add: i_size_def le32_def file_byte_def demo_no_blocks)
  have "1 \<le> unat w" using \<open>0 < w\<close> by (simp add: word_less_nat_alt)
  then have "ext2_read_file m' 11 1019 2 (\<lambda>_. 9) = ((2, \<lambda>i. if i < Suc (Suc 0) then if Suc 0 \<le> i then 64 + of_nat i else 0 else 9), m')"
    using ext2_file_roundtrip [OF demo_blank(5) v _ _ wf \<open>0 < w\<close>, of 1019 2 "\<lambda>_. 9"] f unfolding n
    by (simp add: Let_def z cong: if_cong)
  then show ?thesis using wf \<open>0 < w\<close> by (intro exI conjI) (assumption+, simp_all)
qed

end
