(* ===== verification/Rtl8139.thy ===== *)
theory Rtl8139
  imports Nos_Prelude
begin

text \<open>
  \<^verbatim>\<open>drivers/rtl8139.c\<close>, transmit side: four bounce buffers handed to the chip in
  turn. Each slot has a transmit status register; the values that of slot \<open>s\<close> returns on successive reads
  are the stream \<open>tsd s\<close>. \<open>capr\<close> is the chip's
  read pointer as last written; \<open>dma\<close> records every transfer started, as the slot and the
  bytes of its buffer at that moment. The receive side, which calls into the
  protocol stack, is in \<^verbatim>\<open>Net_Input\<close>.
\<close>

definition TX_SLOTS :: nat where
  "TX_SLOTS = 4"

definition TX_POLL_LIMIT :: nat where
  "TX_POLL_LIMIT = 100000"

definition TSD_OWN :: u32 where
  "TSD_OWN = 0x2000"

record nic =
  nic_present :: bool
  mac :: buf
  rx_off :: u32
  capr :: u16
  tx_bufs :: "nat \<Rightarrow> buf"
  tx_next :: nat
  tx_used :: "nat \<Rightarrow> bool"
  tsd :: "nat \<Rightarrow> nat \<Rightarrow> u32"
  dma :: "(nat \<times> u8 list) list"

text \<open>The bounded poll: whether the slot's previous frame was seen to have left.\<close>

definition read_tsd :: "nat \<Rightarrow> 'a nic_scheme \<Rightarrow> u32 \<times> 'a nic_scheme" where
  "read_tsd slot c = (tsd c slot 0, c\<lparr>tsd := (tsd c)(slot := \<lambda>k. tsd c slot (Suc k))\<rparr>)"

primrec tx_poll :: "nat \<Rightarrow> nat \<Rightarrow> 'a nic_scheme \<Rightarrow> bool \<times> 'a nic_scheme" where
  "tx_poll slot 0 c = (False, c)"
| "tx_poll slot (Suc n) c =
     (let (v, c') = read_tsd slot c
      in if v AND TSD_OWN \<noteq> 0 then (True, c') else tx_poll slot n c')"

text \<open>The bounce buffer after the copy and the padding, and the length sent.\<close>

definition tx_pad :: "buf \<Rightarrow> buf \<Rightarrow> u32 \<Rightarrow> buf \<times> u32" where
  "tx_pad old frm len =
     (let b = memcpy_at old 0 frm 0 (unat len)
      in if len < 60 then (memset_at b (unat len) 0 (unat (60 - len)), 60) else (b, len))"

definition rtl8139_tx :: "buf \<Rightarrow> u32 \<Rightarrow> 'a nic_scheme \<Rightarrow> int \<times> 'a nic_scheme" where
  "rtl8139_tx frm len c =
     (if \<not> nic_present c \<or> 1514 < len then (-1, c)
      else
        let slot = tx_next c;
            (free, c) = (if tx_used c slot then tx_poll slot TX_POLL_LIMIT c else (True, c))
        in if \<not> free then (-1, c)
           else
             let (b, len) = tx_pad (tx_bufs c slot) frm len
             in (0, c\<lparr>tx_bufs := (tx_bufs c)(slot := b),
                      dma := dma c @ [(slot, buf_list b 0 (unat len))],
                      tx_used := (tx_used c)(slot := True),
                      tx_next := (slot + 1) mod TX_SLOTS\<rparr>))"

section \<open>What a call changes\<close>

lemma tx_poll_sel [simp]:
  "nic_present (snd (tx_poll sl n c)) = nic_present c"
  "mac (snd (tx_poll sl n c)) = mac c"
  "rx_off (snd (tx_poll sl n c)) = rx_off c"
  "capr (snd (tx_poll sl n c)) = capr c"
  "tx_bufs (snd (tx_poll sl n c)) = tx_bufs c"
  "tx_next (snd (tx_poll sl n c)) = tx_next c"
  "tx_used (snd (tx_poll sl n c)) = tx_used c"
  "dma (snd (tx_poll sl n c)) = dma c"
  "nic.more (snd (tx_poll sl n c)) = nic.more c"
  by (induction n arbitrary: c) (simp_all add: read_tsd_def)

lemma tx_poll_seen: "fst (tx_poll sl n c) \<longleftrightarrow> (\<exists>i < n. tsd c sl i AND TSD_OWN \<noteq> 0)"
proof (induction n arbitrary: c)
  case (Suc n)
  have "(\<exists>i < Suc n. tsd c sl i AND TSD_OWN \<noteq> 0) \<longleftrightarrow>
      tsd c sl 0 AND TSD_OWN \<noteq> 0 \<or> (\<exists>i < n. tsd c sl (Suc i) AND TSD_OWN \<noteq> 0)"
    using less_Suc_eq_0_disj by auto
  then show ?case using Suc.IH [of "snd (read_tsd sl c)"] by (simp add: read_tsd_def)
qed simp

text \<open>A call touches the transmit fields only, whatever record the driver's is part of.\<close>

lemma tx_poll_only: "\<exists>t. snd (tx_poll sl n c) = c\<lparr>tsd := t\<rparr>"
proof (induction n arbitrary: c)
  case 0
  show ?case by (intro exI [of _ "tsd c"]) simp
next
  case (Suc n)
  then obtain t where "snd (tx_poll sl n (snd (read_tsd sl c))) = snd (read_tsd sl c)\<lparr>tsd := t\<rparr>" by blast
  then show ?case by (auto simp: read_tsd_def)
qed

definition tx_only :: "'a nic_scheme \<Rightarrow> 'a nic_scheme \<Rightarrow> bool" where
  "tx_only c c' \<longleftrightarrow> (\<exists>tb nx us t d.
     c' = c\<lparr>tx_bufs := tb, tx_next := nx, tx_used := us, tsd := t, dma := d\<rparr>)"

lemma tx_only_refl: "tx_only c c"
  unfolding tx_only_def
  by (intro exI [of _ "tx_bufs c"] exI [of _ "tx_next c"] exI [of _ "tx_used c"] exI [of _ "tsd c"]
      exI [of _ "dma c"]) simp

lemma tx_only_tsd: "tx_only c (c\<lparr>tsd := t\<rparr>)"
  unfolding tx_only_def
  by (intro exI [of _ "tx_bufs c"] exI [of _ "tx_next c"] exI [of _ "tx_used c"] exI [of _ t]
      exI [of _ "dma c"]) simp

lemma rtl8139_tx_only: "tx_only c (snd (rtl8139_tx frm len c))"
proof -
  define w where "w = (if tx_used c (tx_next c) then tx_poll (tx_next c) TX_POLL_LIMIT c else (True, c))"
  obtain t where t: "snd w = c\<lparr>tsd := t\<rparr>"
  proof (cases "tx_used c (tx_next c)")
    case True
    then show ?thesis using tx_poll_only [of "tx_next c" TX_POLL_LIMIT c] that by (auto simp: w_def)
  next
    case False
    then show ?thesis using that [of "tsd c"] by (simp add: w_def)
  qed
  have sent: "tx_only c (snd w\<lparr>tx_bufs := b, dma := d, tx_used := u, tx_next := n\<rparr>)" for b d u n
    unfolding tx_only_def t
    by (intro exI [of _ b] exI [of _ n] exI [of _ u] exI [of _ t] exI [of _ d]) simp
  have "tx_only c (snd w)" unfolding t by (rule tx_only_tsd)
  then show ?thesis
    using sent tx_only_refl [of c]
    by (simp add: rtl8139_tx_def Let_def case_prod_beta w_def [symmetric])
qed

text \<open>The padded frame as a list.\<close>

definition padded :: "u8 list \<Rightarrow> u8 list" where
  "padded xs = xs @ replicate (60 - length xs) 0"

lemma tx_pad_bytes:
  assumes "tx_pad old frm len = (b, l)"
  shows "buf_list b 0 (unat l) = padded (buf_list frm 0 (unat len))"
proof (cases "len < 60")
  case True
  then have "unat len < 60" by (simp add: word_less_nat_alt)
  moreover have "unat (60 - len) = 60 - unat len" using True by (simp add: unat_sub order_less_imp_le)
  ultimately show ?thesis
    using assms True
    by (auto simp: tx_pad_def padded_def memset_at_def memcpy_at_def nth_append
        intro!: nth_equalityI)
next
  case False
  then have "60 \<le> unat len" by (simp add: word_less_nat_alt)
  then show ?thesis
    using assms False by (auto simp: tx_pad_def padded_def memcpy_at_def intro!: nth_equalityI)
qed

lemma rtl8139_tx_sel [simp]:
  "nic_present (snd (rtl8139_tx frm len c)) = nic_present c"
  "mac (snd (rtl8139_tx frm len c)) = mac c"
  "rx_off (snd (rtl8139_tx frm len c)) = rx_off c"
  "capr (snd (rtl8139_tx frm len c)) = capr c"
  "nic.more (snd (rtl8139_tx frm len c)) = nic.more c"
  by (simp_all add: rtl8139_tx_def Let_def case_prod_beta)

lemma rtl8139_tx_ok:
  assumes "rtl8139_tx frm len c = (0, c')"
  shows "dma c' = dma c @ [(tx_next c, padded (buf_list frm 0 (unat len)))]"
proof -
  have "dma c' = dma c @ [(tx_next c, buf_list (fst (tx_pad (tx_bufs c (tx_next c)) frm len)) 0
      (unat (snd (tx_pad (tx_bufs c (tx_next c)) frm len))))]"
    using assms by (auto simp: rtl8139_tx_def Let_def case_prod_beta split: if_splits)
  then show ?thesis
    using tx_pad_bytes [of "tx_bufs c (tx_next c)" frm len] by (metis prod.collapse)
qed

lemma rtl8139_tx_fail:
  "rtl8139_tx frm len c = (r, c') \<Longrightarrow> r \<noteq> 0 \<Longrightarrow> dma c' = dma c \<and> tx_bufs c' = tx_bufs c"
  by (auto simp: rtl8139_tx_def Let_def case_prod_beta split: if_splits)


definition demo_nic :: nic where
  "demo_nic = \<lparr>nic_present = True, mac = (\<lambda>_. 0x52), rx_off = 0, capr = 0, tx_bufs = (\<lambda>_ _. 0), tx_next = 3,
     tx_used = (\<lambda>_. False), tsd = (\<lambda>_ _. 0x2000), dma = []\<rparr>"


end
