(* ===== verification/Yield.thy ===== *)
theory Yield
  imports Nos_Prelude
begin

text \<open>
  The waiting idiom of the kernel: a task-context loop that tests a condition
  on shared state and calls \<^verbatim>\<open>task_switch\<close> while the condition holds.
  \<open>env k\<close> is what the interrupt handlers and the other tasks do to the state
  during the \<open>k\<close>-th yield. A loop that never ends has the value \<open>None\<close>.
\<close>

partial_function (option) yield_while ::
  "('s \<Rightarrow> bool) \<Rightarrow> (nat \<Rightarrow> 's \<Rightarrow> 's) \<Rightarrow> nat \<Rightarrow> 's \<Rightarrow> (nat \<times> 's) option" where
  "yield_while c env k s =
     (if c s then yield_while c env (Suc k) (env k s) else Some (k, s))"

primrec after_yields :: "(nat \<Rightarrow> 's \<Rightarrow> 's) \<Rightarrow> nat \<Rightarrow> 's \<Rightarrow> nat \<Rightarrow> 's" where
  "after_yields env k s 0 = s"
| "after_yields env k s (Suc j) = after_yields env (Suc k) (env k s) j"

lemma yield_while_now: "\<not> c s \<Longrightarrow> yield_while c env k s = Some (k, s)"
  by (subst yield_while.simps) simp

lemma yield_while_returns:
  assumes "\<not> c (after_yields env k s j)"
  shows "\<exists>i \<le> j. yield_while c env k s = Some (k + i, after_yields env k s i) \<and>
    \<not> c (after_yields env k s i)"
  using assms
proof (induction j arbitrary: k s)
  case 0
  then show ?case by (simp add: yield_while_now)
next
  case (Suc j)
  show ?case
  proof (cases "c s")
    case True
    obtain i where "i \<le> j" "yield_while c env (Suc k) (env k s)
        = Some (Suc k + i, after_yields env (Suc k) (env k s) i)"
        "\<not> c (after_yields env (Suc k) (env k s) i)"
      using Suc.IH [of "Suc k" "env k s"] Suc.prems by auto
    then show ?thesis
      using True by (intro exI [of _ "Suc i"]) (simp add: yield_while.simps [of c env k s])
  next
    case False
    then show ?thesis by (intro exI [of _ 0]) (simp add: yield_while_now)
  qed
qed

text \<open>What holds at the start and is kept by every yield holds when the loop ends, and
  the loop ends with its condition false.\<close>

lemma yield_while_post:
  assumes "yield_while c env k s = Some (k', s')"
    and "P s" and "\<And>j t. P t \<Longrightarrow> P (env j t)"
  shows "P s' \<and> \<not> c s'"
proof -
  have "yield_while c env k s = Some r \<Longrightarrow>
      (\<forall>j t. P t \<longrightarrow> P (env j t)) \<longrightarrow> P s \<longrightarrow> P (snd r) \<and> \<not> c (snd r)" for r
    by (erule yield_while.raw_induct [rotated]) (fastforce split: if_splits)
  with assms show ?thesis by fastforce
qed

end
