(* ===== verification/Net.thy ===== *)
theory Net
  imports Rtl8139 Yield
begin

text \<open>
  \<^verbatim>\<open>kernel/net.c\<close>: byte order and checksums, ethernet and ARP, IPv4 output, the DNS
  client. Packets are byte buffers with the offsets of the packed C structures;
  16- and 32-bit fields are little-endian stores of byte-swapped values, as in
  the source. The statics of the file extend the driver's record, so that one
  state value is passed through the whole stack. Input demultiplexing, which
  calls TCP, is in \<^verbatim>\<open>Net_Input\<close>.
\<close>

section \<open>Byte order and checksum\<close>

definition htons :: "u16 \<Rightarrow> u16" where
  "htons v = drop_bit 8 v OR push_bit 8 v"

definition htonl :: "u32 \<Rightarrow> u32" where
  "htonl v = push_bit 24 (v AND 0x000000FF) OR push_bit 8 (v AND 0x0000FF00)
     OR drop_bit 8 (v AND 0x00FF0000) OR drop_bit 24 v"

definition IP4 :: "u32 \<Rightarrow> u32 \<Rightarrow> u32 \<Rightarrow> u32 \<Rightarrow> u32" where
  "IP4 a b c d = a OR push_bit 8 b OR push_bit 16 c OR push_bit 24 d"

definition net_ip :: u32 where
  "net_ip = IP4 10 0 2 15"

definition net_gateway :: u32 where
  "net_gateway = IP4 10 0 2 2"

definition net_dns :: u32 where
  "net_dns = IP4 10 0 2 3"

definition be16 :: "buf \<Rightarrow> nat \<Rightarrow> u16" where
  "be16 p i = push_bit 8 (ucast (p i)) OR ucast (p (i + 1))"

text \<open>The pointer is a buffer and an offset.\<close>

fun net_csum_add :: "u32 \<Rightarrow> buf \<Rightarrow> nat \<Rightarrow> nat \<Rightarrow> u32" where
  "net_csum_add acc p off len =
     (if 1 < len
      then net_csum_add (acc + (push_bit 8 (ucast (p off)) OR ucast (p (off + 1)))) p (off + 2) (len - 2)
      else if len \<noteq> 0 then acc + push_bit 8 (ucast (p off))
      else acc)"

declare net_csum_add.simps [simp del]

function csum_fold :: "u32 \<Rightarrow> u32" where
  "csum_fold acc =
     (if drop_bit 16 acc \<noteq> 0 then csum_fold ((acc AND 0xFFFF) + drop_bit 16 acc) else acc)"
  by auto

lemma csum_halves:
  "unat (drop_bit 16 (x :: u32)) = unat x div 65536" "unat (x AND 0xFFFF) = unat x mod 65536"
proof -
  show "unat (drop_bit 16 x) = unat x div 65536"
    by (simp add: drop_bit_eq_div unat_div_distrib)
  have low: "(0xFFFF :: u32) = mask 16" by (simp add: mask_eq_exp_minus_1)
  show "unat (x AND 0xFFFF) = unat x mod 65536"
    unfolding low take_bit_eq_mask [symmetric] unat_take_bit_mod by simp
qed

lemma csum_step_nat:
  "unat ((x AND 0xFFFF) + drop_bit 16 x :: u32) = unat x mod 65536 + unat x div 65536"
proof -
  have "unat x div 65536 < 65536" using unat_lt_2p32 [of x] by linarith
  moreover have "unat x mod 65536 < 65536" by simp
  ultimately have "unat (x AND 0xFFFF) + unat (drop_bit 16 x) < 4294967296"
    unfolding csum_halves by linarith
  from unat_add32 [OF this] show ?thesis unfolding csum_halves .
qed

lemma csum_more: "drop_bit 16 (x :: u32) \<noteq> 0 \<longleftrightarrow> 65536 \<le> unat x"
  unfolding unat_eq_iff32 csum_halves by auto

lemma csum_smaller: "65536 \<le> (n :: nat) \<Longrightarrow> n mod 65536 + n div 65536 < n"
  using div_mult_mod_eq [of n 65536] div_le_mono [of 65536 n 65536] by linarith

termination csum_fold
  by (relation "measure unat") (auto simp: csum_step_nat csum_more csum_smaller)

declare csum_fold.simps [simp del]

definition net_csum_fin :: "u32 \<Rightarrow> u16" where
  "net_csum_fin acc = htons (ucast (NOT (csum_fold acc)))"

section \<open>State\<close>

text \<open>\<open>ticks\<close> is \<^verbatim>\<open>timer_ticks\<close>; \<open>next_id\<close> is the static of \<^verbatim>\<open>dns_resolve\<close> and
  \<open>ip_id\<close> that of \<^verbatim>\<open>net_ip_tx\<close>.\<close>

record net = nic +
  gw_mac :: buf
  gw_valid :: bool
  txframe :: buf
  ip_id :: u16
  dq_busy :: bool
  dq_done :: bool
  dq_id :: u16
  dq_port :: u16
  dq_addr :: u32
  next_id :: u16
  ticks :: u32

definition PIT_HZ :: u32 where
  "PIT_HZ = 200"

definition net_up :: "'a net_scheme \<Rightarrow> bool" where
  "net_up s = nic_present s"

section \<open>Ethernet and ARP\<close>

definition eth_bcast :: buf where
  "eth_bcast = (\<lambda>_. 0xFF)"

definition eth_tx :: "buf \<Rightarrow> u16 \<Rightarrow> buf \<Rightarrow> u32 \<Rightarrow> 'a net_scheme \<Rightarrow> 'a net_scheme" where
  "eth_tx dst_mac type payload len s =
     (if 1500 < len then s
      else
        let f = memcpy_at (txframe s) 0 dst_mac 0 6;
            f = memcpy_at f 6 (mac s) 0 6;
            f = put16 f 12 (htons type);
            f = memcpy_at f 14 payload 0 (unat len)
        in snd (rtl8139_tx f (14 + len) (s\<lparr>txframe := f\<rparr>)))"

definition arp_send :: "u16 \<Rightarrow> buf \<Rightarrow> u32 \<Rightarrow> 'a net_scheme \<Rightarrow> 'a net_scheme" where
  "arp_send op dst_mac target_ip s =
     (let a = put16 (\<lambda>_. 0) 0 (htons 1);
          a = put16 a 2 (htons 0x0800);
          a = a(4 := 6, 5 := 4);
          a = put16 a 6 (htons op);
          a = memcpy_at a 8 (mac s) 0 6;
          a = put32 a 14 net_ip;
          a = memcpy_at a 18 dst_mac 0 6;
          a = put32 a 24 target_ip
      in eth_tx (if op = 1 then eth_bcast else dst_mac) 0x0806 a 28 s)"

definition arp_input :: "buf \<Rightarrow> u32 \<Rightarrow> 'a net_scheme \<Rightarrow> 'a net_scheme" where
  "arp_input pkt len s =
     (if len < 28 then s
      else if le16 pkt 0 \<noteq> htons 1 \<or> le16 pkt 2 \<noteq> htons 0x0800 then s
      else if le16 pkt 6 = htons 2 \<and> le32 pkt 14 = net_gateway
      then s\<lparr>gw_mac := memcpy_at (gw_mac s) 0 pkt 8 6, gw_valid := True\<rparr>
      else if le16 pkt 6 = htons 1 \<and> le32 pkt 24 = net_ip
      then arp_send 2 (\<lambda>i. pkt (8 + i)) (le32 pkt 14) s
      else s)"

text \<open>The first argument of the loop is the number of attempts left. The value is the
  number of yields made so far and the state.\<close>

primrec gateway_tries :: "nat \<Rightarrow> (nat \<Rightarrow> 'a net_scheme \<Rightarrow> 'a net_scheme) \<Rightarrow> nat \<Rightarrow> 'a net_scheme \<Rightarrow>
    (nat \<times> 'a net_scheme) option" where
  "gateway_tries 0 env k s = Some (k, s)"
| "gateway_tries (Suc n) env k s =
     (if gw_valid s then Some (k, s)
      else
        let s1 = arp_send 1 eth_bcast net_gateway s; start = ticks s1
        in case yield_while (\<lambda>t. \<not> gw_valid t \<and> ticks t - start < PIT_HZ div 2) env k s1 of
             None \<Rightarrow> None
           | Some (k', s2) \<Rightarrow> gateway_tries n env k' s2)"

definition net_ensure_gateway :: "(nat \<Rightarrow> 'a net_scheme \<Rightarrow> 'a net_scheme) \<Rightarrow> nat \<Rightarrow> 'a net_scheme \<Rightarrow>
    (int \<times> nat \<times> 'a net_scheme) option" where
  "net_ensure_gateway env k s =
     (if \<not> nic_present s then Some (-1, k, s)
      else case gateway_tries 4 env k s of
        None \<Rightarrow> None
      | Some (k', s') \<Rightarrow> Some (if gw_valid s' then 0 else -1, k', s'))"

section \<open>IPv4 output\<close>

definition ip_frame :: "u32 \<Rightarrow> u8 \<Rightarrow> buf \<Rightarrow> u32 \<Rightarrow> 'a net_scheme \<Rightarrow> buf" where
  "ip_frame dst_ip proto seg len s =
     (let f = memcpy_at (txframe s) 0 (gw_mac s) 0 6;
          f = memcpy_at f 6 (mac s) 0 6;
          f = put16 f 12 (htons 0x0800);
          f = f(14 := 0x45, 15 := 0);
          f = put16 f 16 (htons (ucast (20 + len)));
          f = put16 f 18 (htons (ip_id s));
          f = put16 f 20 (htons 0x4000);
          f = f(22 := 64, 23 := proto);
          f = put16 f 24 0;
          f = put32 f 26 net_ip;
          f = put32 f 30 dst_ip;
          f = put16 f 24 (net_csum_fin (net_csum_add 0 f 14 20))
      in memcpy_at f 34 seg 0 (unat len))"

definition net_ip_tx :: "u32 \<Rightarrow> u8 \<Rightarrow> buf \<Rightarrow> u32 \<Rightarrow> 'a net_scheme \<Rightarrow> int \<times> 'a net_scheme" where
  "net_ip_tx dst_ip proto seg len s =
     (if \<not> nic_present s \<or> \<not> gw_valid s \<or> 1480 < len then (-1, s)
      else
        let f = ip_frame dst_ip proto seg len s
        in rtl8139_tx f (34 + len) (s\<lparr>txframe := f, ip_id := ip_id s + 1\<rparr>))"

section \<open>DNS\<close>

text \<open>\<open>None\<close> is a walk that never ends: with a length close to the top of the 32-bit
  range the offset could wrap.\<close>

partial_function (option) dns_skip_name :: "buf \<Rightarrow> u32 \<Rightarrow> u32 \<Rightarrow> u32 option" where
  "dns_skip_name p len off =
     (if off < len
      then if p (unat off) = 0 then Some (off + 1)
           else if p (unat off) AND 0xC0 = 0xC0 then Some (off + 2)
           else dns_skip_name p len (off + (1 + ucast (p (unat off))))
      else Some 0)"

text \<open>The question and answer loops. The outer option is divergence, the inner one an
  early return of the caller.\<close>

primrec dns_questions :: "buf \<Rightarrow> u32 \<Rightarrow> nat \<Rightarrow> u32 \<Rightarrow> u32 option option" where
  "dns_questions p len 0 off = Some (Some off)"
| "dns_questions p len (Suc n) off =
     (case dns_skip_name p len off of
        None \<Rightarrow> None
      | Some o1 \<Rightarrow>
          if o1 = 0 \<or> len < o1 + 4 then Some None else dns_questions p len n (o1 + 4))"

primrec dns_answers :: "buf \<Rightarrow> u32 \<Rightarrow> nat \<Rightarrow> u32 \<Rightarrow> u32 option option" where
  "dns_answers p len 0 off = Some None"
| "dns_answers p len (Suc n) off =
     (case dns_skip_name p len off of
        None \<Rightarrow> None
      | Some o1 \<Rightarrow>
          if o1 = 0 \<or> len < o1 + 10 then Some None
          else
            let type = be16 p (unat o1);
                rdlen = be16 p (unat o1 + 8);
                o2 = o1 + 10
            in if len < o2 + ucast rdlen then Some None
               else if type = 1 \<and> rdlen = 4 then Some (Some (le32 p (unat o2)))
               else dns_answers p len n (o2 + ucast rdlen))"

definition dns_input :: "buf \<Rightarrow> u32 \<Rightarrow> 'a net_scheme \<Rightarrow> 'a net_scheme option" where
  "dns_input p len s =
     (if len < 12 \<or> \<not> dq_busy s \<or> dq_done s then Some s
      else if be16 p 0 \<noteq> dq_id s \<or> be16 p 2 AND 0x8000 = 0 then Some s
      else case dns_questions p len (unat (be16 p 4)) 12 of
        None \<Rightarrow> None
      | Some None \<Rightarrow> Some s
      | Some (Some off) \<Rightarrow>
          (case dns_answers p len (unat (be16 p 6)) off of
             None \<Rightarrow> None
           | Some None \<Rightarrow> Some s
           | Some (Some a) \<Rightarrow> Some (s\<lparr>dq_addr := a, dq_done := True\<rparr>)))"

definition udp_input :: "buf \<Rightarrow> u32 \<Rightarrow> 'a net_scheme \<Rightarrow> 'a net_scheme option" where
  "udp_input seg len s =
     (if len < 8 then Some s
      else
        let dlen = ucast (htons (le16 seg 4)) :: u32
        in if dlen < 8 \<or> len < dlen then Some s
           else if le16 seg 0 = htons 53 \<and> le16 seg 2 = htons (dq_port s)
           then dns_input (\<lambda>i. seg (8 + i)) (dlen - 8) s
           else Some s)"

definition DNS_NAME_MAX :: nat where
  "DNS_NAME_MAX = 128"

text \<open>
  The label loop runs over the indices of the name and its terminator. The packet starts
  with the 8-byte UDP header, so the offset \<open>off\<close> of the question is at \<open>8 + off\<close>. Offsets
  are at most \<open>146\<close> here and kept as natural numbers.
\<close>

primrec dns_labels :: "u8 list \<Rightarrow> nat list \<Rightarrow> buf \<Rightarrow> nat \<Rightarrow> nat \<Rightarrow> (buf \<times> nat) option" where
  "dns_labels nm [] b off start = Some (b, off)"
| "dns_labels nm (i # is) b off start =
     (if (nm @ [0]) ! i = 0x2E \<or> (nm @ [0]) ! i = 0
      then if i - start = 0 \<or> 63 < i - start then None
           else dns_labels nm is
             (memcpy_at (b(8 + off := of_nat (i - start))) (8 + (off + 1)) (list_buf nm) start (i - start))
             (off + 1 + (i - start)) (i + 1)
      else dns_labels nm is b off start)"

definition dns_header :: "u16 \<Rightarrow> buf \<Rightarrow> buf" where
  "dns_header qid b =
     b(8 := ucast (drop_bit 8 qid), 9 := ucast (qid AND 0xFF), 10 := 1, 11 := 0, 12 := 0, 13 := 1,
       14 := 0, 15 := 0, 16 := 0, 17 := 0, 18 := 0, 19 := 0)"

text \<open>The packet and its total length, \<open>None\<close> for a name that is refused; \<open>pkt\<close> is what
  the stack buffer holds at entry.\<close>

definition dns_build_query :: "buf \<Rightarrow> u8 list \<Rightarrow> u16 \<Rightarrow> u16 \<Rightarrow> (buf \<times> nat) option" where
  "dns_build_query pkt nm qid sport =
     (if length nm = 0 \<or> DNS_NAME_MAX < length nm then None
      else case dns_labels nm [0..<Suc (length nm)] (dns_header qid pkt) 12 0 of
        None \<Rightarrow> None
      | Some (b, off) \<Rightarrow>
          let b = b(8 + off := 0, 8 + off + 1 := 0, 8 + off + 2 := 1, 8 + off + 3 := 0, 8 + off + 4 := 1);
              total_len = 8 + (off + 5);
              b = put16 b 0 (htons sport);
              b = put16 b 2 (htons 53);
              b = put16 b 4 (htons (of_nat total_len));
              b = put16 b 6 0
          in Some (b, total_len))"

definition dns_send_query :: "buf \<Rightarrow> u8 list \<Rightarrow> u16 \<Rightarrow> u16 \<Rightarrow> 'a net_scheme \<Rightarrow> int \<times> 'a net_scheme" where
  "dns_send_query pkt nm qid sport s =
     (case dns_build_query pkt nm qid sport of
        None \<Rightarrow> (-1, s)
      | Some (b, n) \<Rightarrow> net_ip_tx net_dns 17 b (of_nat n) s)"

primrec dns_tries :: "nat \<Rightarrow> buf \<Rightarrow> u8 list \<Rightarrow> (nat \<Rightarrow> 'a net_scheme \<Rightarrow> 'a net_scheme) \<Rightarrow> nat \<Rightarrow>
    'a net_scheme \<Rightarrow> (bool \<times> nat \<times> 'a net_scheme) option" where
  "dns_tries 0 pkt nm env k s = Some (False, k, s)"
| "dns_tries (Suc n) pkt nm env k s =
     (case dns_send_query pkt nm (dq_id s) (dq_port s) s of (r, s1) \<Rightarrow>
        if r < 0 then Some (False, k, s1)
        else
          let start = ticks s1
          in case yield_while (\<lambda>t. \<not> dq_done t \<and> ticks t - start < PIT_HZ) env k s1 of
               None \<Rightarrow> None
             | Some (k', s2) \<Rightarrow>
                 if dq_done s2 then Some (True, k', s2) else dns_tries n pkt nm env k' s2)"

text \<open>The claim of the query slot is one masked section; the loop around it yields while
  another resolve holds the slot.\<close>

definition dns_claim :: "'a net_scheme \<Rightarrow> 'a net_scheme" where
  "dns_claim s =
     s\<lparr>dq_busy := True, dq_done := False, dq_id := next_id s,
       dq_port := 0xC000 OR (next_id s AND 0xFFF), next_id := next_id s + 1\<rparr>"

definition dns_resolve :: "buf \<Rightarrow> u8 list \<Rightarrow> (nat \<Rightarrow> 'a net_scheme \<Rightarrow> 'a net_scheme) \<Rightarrow> nat \<Rightarrow>
    'a net_scheme \<Rightarrow> (u32 option \<times> nat \<times> 'a net_scheme) option" where
  "dns_resolve pkt nm env k s =
     (case net_ensure_gateway env k s of
        None \<Rightarrow> None
      | Some (r, k1, s1) \<Rightarrow>
          if r < 0 then Some (None, k1, s1)
          else case yield_while dq_busy env k1 s1 of
            None \<Rightarrow> None
          | Some (k2, s2) \<Rightarrow>
              (case dns_tries 3 pkt nm env k2 (dns_claim s2) of
                 None \<Rightarrow> None
               | Some (found, k3, s3) \<Rightarrow>
                   Some (if found then Some (dq_addr s3) else None, k3, s3\<lparr>dq_busy := False\<rparr>)))"

section \<open>The checksum is the ones' complement sum\<close>

text \<open>
  The receiver's side, independent of the code: the big-endian 16-bit words of a region are added with
  end-around carry, that is modulo 65535 with 65535 for a multiple of it other than 0, and an intact
  region sums to 65535, all ones.
\<close>

definition sum16 :: "buf \<Rightarrow> nat \<Rightarrow> nat \<Rightarrow> nat" where
  "sum16 b off n = (\<Sum>i < n. unat (b (off + i)) * (if even i then 256 else 1))"

definition oc_sum :: "nat \<Rightarrow> nat" where
  "oc_sum n = (if n = 0 then 0 else if n mod 65535 = 0 then 65535 else n mod 65535)"

lemma unat_be16:
  "unat (push_bit 8 (ucast (a :: u8)) OR ucast (b :: u8) :: u32) = 256 * unat a + unat b"
proof -
  have "push_bit 8 (ucast a) OR ucast b = push_bit 8 (ucast a) + (ucast b :: u32)"
    by (rule disjunctive_add [symmetric]) (auto simp: bit_simps dest: bit_imp_le_length)
  moreover have ab: "256 * unat a + unat b < 4294967296"
    using unat_lt_2p8 [of a] unat_lt_2p8 [of b] by linarith
  moreover have "unat (push_bit 8 (ucast a) :: u32) = 256 * unat a"
    using ab by (simp add: push_bit_eq_mult unat_word_ariths mult.commute)
  ultimately show ?thesis by (simp add: unat_add32)
qed

lemma unat_hi8: "unat (push_bit 8 (ucast (a :: u8)) :: u32) = 256 * unat a"
  using unat_be16 [of a 0] by simp

lemma sum16_Suc_Suc:
  "sum16 b off (Suc (Suc n)) = 256 * unat (b off) + unat (b (off + 1)) + sum16 b (off + 2) n"
  unfolding sum16_def sum.lessThan_Suc_shift by (simp add: algebra_simps)

lemma net_csum_add_nat:
  "unat acc + sum16 b off n < 4294967296 \<Longrightarrow> unat (net_csum_add acc b off n) = unat acc + sum16 b off n"
proof (induction n arbitrary: acc off rule: less_induct)
  case (less n)
  consider "n = 0" | "n = 1" | m where "n = Suc (Suc m)"
    by (metis One_nat_def not0_implies_Suc)
  then show ?case
  proof cases
    case 1
    then show ?thesis by (simp add: net_csum_add.simps [of acc] sum16_def)
  next
    case 2
    then show ?thesis
      using less.prems by (simp add: net_csum_add.simps [of acc] sum16_def unat_add32 unat_hi8)
  next
    case 3
    let ?w = "push_bit 8 (ucast (b off)) OR ucast (b (off + 1)) :: u32"
    have w: "unat (acc + ?w) = unat acc + (256 * unat (b off) + unat (b (off + 1)))"
      using less.prems 3 by (subst unat_add32) (simp_all add: unat_be16 sum16_Suc_Suc)
    have "net_csum_add acc b off n = net_csum_add (acc + ?w) b (off + 2) m"
      using 3 by (subst net_csum_add.simps) simp
    with less.IH [of m "acc + ?w" "off + 2"] less.prems 3 w show ?thesis
      by (simp add: sum16_Suc_Suc)
  qed
qed

lemma csum_fold_step: "(n :: nat) mod 65536 + n div 65536 > 0 \<longleftrightarrow> n > 0"
  "((n :: nat) mod 65536 + n div 65536) mod 65535 = n mod 65535"
proof -
  show "n mod 65536 + n div 65536 > 0 \<longleftrightarrow> n > 0"
    using div_mult_mod_eq [of n 65536] by (cases "n div 65536 = 0") auto
  have "n = (n mod 65536 + n div 65536) + 65535 * (n div 65536)"
    using div_mult_mod_eq [of n 65536] by linarith
  then show "(n mod 65536 + n div 65536) mod 65535 = n mod 65535"
    by (metis mod_mult_self2)
qed

lemma oc_sum_step: "oc_sum (n mod 65536 + n div 65536) = oc_sum n"
proof -
  have "n mod 65536 + n div 65536 = 0 \<longleftrightarrow> n = 0" using csum_fold_step(1) [of n] by linarith
  then show ?thesis unfolding oc_sum_def csum_fold_step(2) by (simp only:)
qed

lemma oc_sum_small: "n < 65536 \<Longrightarrow> oc_sum n = n"
  by (cases "n = 65535") (auto simp: oc_sum_def)

lemma csum_fold_nat: "unat (csum_fold x) = oc_sum (unat x)"
proof (induction x rule: csum_fold.induct)
  case (1 x)
  show ?case
  proof (cases "65536 \<le> unat x")
    case True
    then show ?thesis
      using 1 by (simp add: csum_fold.simps [of x] csum_more csum_step_nat oc_sum_step)
  next
    case False
    then show ?thesis by (simp add: csum_fold.simps [of x] csum_more oc_sum_small)
  qed
qed

lemma oc_sum_le: "oc_sum n \<le> 65535"
  using mod_less_divisor [of 65535 n] by (simp add: oc_sum_def del: mod_less_divisor)

lemma unat_not_low: "unat x < 65536 \<Longrightarrow> unat (ucast (NOT x :: u32) :: u16) = 65535 - unat x"
proof -
  assume x: "unat x < 65536"
  have "unat (-1 :: u32) = 4294967295" by (simp add: unsigned_minus_1_eq_mask mask_eq_exp_minus_1)
  moreover have "NOT x = -1 - x" by (simp add: not_eq_complement)
  ultimately have "unat (NOT x) = 4294967295 - unat x" using unat_sub [of x "-1"] by simp
  also have "\<dots> = (65535 - unat x) + 65536 * 65535" using x by simp
  finally have "unat (NOT x) mod 65536 = (65535 - unat x) mod 65536"
    by (simp only: mod_mult_self2)
  then show ?thesis by (simp add: unsigned_ucast_eq take_bit_eq_mod)
qed

lemma htons_htons [simp]: "htons (htons v) = v"
proof (rule bit_word_eqI)
  fix n
  assume "n < LENGTH(16)"
  then show "bit (htons (htons v)) n = bit v n"
    by (cases "n < 8") (auto simp: htons_def bit_simps)
qed

lemma htons_0 [simp]: "htons 0 = 0"
  by (simp add: htons_def)

lemma bit_htonl:
  assumes "n < 8"
  shows "bit (htonl v) n = bit v (n + 24)" "bit (htonl v) (n + 8) = bit v (n + 16)"
    "bit (htonl v) (n + 16) = bit v (n + 8)" "bit (htonl v) (n + 24) = bit v n"
proof -
  have masks: "(0xFF :: u32) = mask 8" "(0xFF00 :: u32) = push_bit 8 (mask 8)"
      "(0xFF0000 :: u32) = push_bit 16 (mask 8)"
    by (simp_all add: mask_eq_exp_minus_1 push_bit_eq_mult)
  show "bit (htonl v) n = bit v (n + 24)" "bit (htonl v) (n + 8) = bit v (n + 16)"
    "bit (htonl v) (n + 16) = bit v (n + 8)" "bit (htonl v) (n + 24) = bit v n"
    using assms unfolding htonl_def masks by (auto simp: bit_simps add.commute [of n] dest: bit_imp_le_length)
qed

lemma htonl_htonl [simp]: "htonl (htonl v) = v"
proof (rule bit_word_eqI)
  fix n
  assume "n < LENGTH(32)"
  then have "n div 8 < 4" by simp
  then have "n div 8 = 0 \<or> n div 8 = 1 \<or> n div 8 = 2 \<or> n div 8 = 3" by linarith
  moreover define m where "m = n mod 8"
  moreover have "n = n div 8 * 8 + m" unfolding m_def by simp
  ultimately have n: "n = m \<or> n = m + 8 \<or> n = m + 16 \<or> n = m + 24" and m: "m < 8"
    by (elim disjE; simp)+
  from n show "bit (htonl (htonl v)) n = bit v n"
    by (elim disjE) (simp_all only: bit_htonl [OF m])
qed

lemma net_csum_fin_nat: "unat (htons (net_csum_fin x)) = 65535 - oc_sum (unat x)"
proof -
  have "unat (csum_fold x) < 65536" using oc_sum_le [of "unat x"] by (simp add: csum_fold_nat)
  from unat_not_low [OF this] show ?thesis
    unfolding net_csum_fin_def htons_htons by (simp add: csum_fold_nat)
qed

lemma swapped_bytes:
  "256 * unat (ucast (htons c) :: u8) + unat (ucast (drop_bit 8 (htons c)) :: u8) = unat c"
proof -
  have "ucast (drop_bit 8 (htons c)) = (ucast c :: u8)"
    by (rule bit_word_eqI) (auto simp: htons_def bit_simps)
  moreover have "ucast (htons c) = (ucast (drop_bit 8 c) :: u8)"
    by (rule bit_word_eqI) (auto simp: htons_def bit_simps)
  moreover have "unat (ucast c :: u8) = unat c mod 256"
    by (simp add: unsigned_ucast_eq take_bit_eq_mod)
  moreover have "unat c div 256 < 256" using unat_lt_2p16 [of c] by linarith
  then have "unat (ucast (drop_bit 8 c) :: u8) = unat c div 256"
    by (simp add: unsigned_ucast_eq take_bit_eq_mod drop_bit_eq_div unat_div_distrib)
  ultimately show ?thesis by simp
qed

lemma sum16_store:
  assumes "even k" and "k + 2 \<le> n" and "b (p + k) = 0" and "b (p + k + 1) = 0"
  shows "sum16 (put16 b (p + k) (htons c)) p n = sum16 b p n + unat c"
proof -
  let ?b = "put16 b (p + k) (htons c)"
  let ?f = "\<lambda>b i. unat (b (p + i)) * (if even i then 256 else 1 :: nat)"
  have split: "(\<Sum>i < n. ?f b i) = ?f b k + ?f b (k + 1) + (\<Sum>i \<in> {..<n} - {k, k + 1}. ?f b i)" for b
  proof -
    have "(\<Sum>i < n. ?f b i) = ?f b k + (\<Sum>i \<in> {..<n} - {k}. ?f b i)"
      using assms(2) by (intro sum.remove) simp_all
    also have "(\<Sum>i \<in> {..<n} - {k}. ?f b i) = ?f b (k + 1) + (\<Sum>i \<in> {..<n} - {k} - {k + 1}. ?f b i)"
      using assms(2) by (intro sum.remove) simp_all
    also have "{..<n} - {k} - {k + 1} = {..<n} - {k, k + 1}" by auto
    finally show ?thesis by simp
  qed
  have "(\<Sum>i \<in> {..<n} - {k, k + 1}. ?f ?b i) = (\<Sum>i \<in> {..<n} - {k, k + 1}. ?f b i)"
    by (rule sum.cong) (auto simp: put16_def)
  moreover have "?f ?b k + ?f ?b (k + 1) = unat c"
    using assms(1) swapped_bytes [of c] by (simp add: put16_def)
  moreover have "?f b k + ?f b (k + 1) = 0" using assms(3,4) by simp
  ultimately show ?thesis unfolding sum16_def split [of b] split [of ?b] by simp
qed

lemma oc_sum_full: "n mod 65535 = 0 \<Longrightarrow> n \<noteq> 0 \<Longrightarrow> oc_sum n = 65535"
  by (simp add: oc_sum_def)

lemma mod_complement: "0 < (k :: nat) \<Longrightarrow> (S + (k - S mod k)) mod k = 0"
  by (metis add_diff_inverse_nat less_imp_not_less mod_add_left_eq mod_less_divisor mod_self)

lemma oc_sum_cancel: "oc_sum (S + (65535 - oc_sum S)) = 65535"
proof -
  consider "S = 0" | "S \<noteq> 0" "S mod 65535 = 0" | "S \<noteq> 0" "S mod 65535 \<noteq> 0" by blast
  then show ?thesis
  proof cases
    case 1
    then show ?thesis by (simp add: oc_sum_def)
  next
    case 2
    then show ?thesis by (simp add: oc_sum_full)
  next
    case 3
    then have "oc_sum S = S mod 65535" by (simp add: oc_sum_def)
    moreover have "oc_sum (S + (65535 - S mod 65535)) = 65535"
      using 3(1) by (intro oc_sum_full mod_complement) simp_all
    ultimately show ?thesis by simp
  qed
qed

text \<open>A region whose zeroed checksum field, at an even offset, is filled with the checksum
  sums to all ones for the receiver; \<open>acc\<close> is what was summed before it.\<close>

lemma csum_verifies:
  assumes "even k" and "k + 2 \<le> n" and "b (p + k) = 0" and "b (p + k + 1) = 0"
    and small: "unat acc + sum16 b p n < 4294967296"
  shows "oc_sum (unat acc + sum16 (put16 b (p + k) (net_csum_fin (net_csum_add acc b p n))) p n) = 65535"
proof -
  define c where "c = htons (net_csum_fin (net_csum_add acc b p n))"
  have "unat c = 65535 - oc_sum (unat acc + sum16 b p n)"
    unfolding c_def net_csum_fin_nat using small by (simp add: net_csum_add_nat)
  moreover have "sum16 (put16 b (p + k) (htons c)) p n = sum16 b p n + unat c"
    using assms(1-4) by (rule sum16_store)
  ultimately show ?thesis using oc_sum_cancel [of "unat acc + sum16 b p n"] by (simp add: c_def add.assoc)
qed

lemma sum16_le: "sum16 b p n \<le> 65280 * n"
proof -
  have "unat (b (p + i)) * (if even i then 256 else 1) \<le> 65280" for i
    using unat_lt_2p8 [of "b (p + i)"] by (cases "even i") (simp_all del: unat_lt_2p8)
  then have "sum16 b p n \<le> (\<Sum>i < n. 65280)" unfolding sum16_def by (intro sum_mono) blast
  then show ?thesis by simp
qed

lemma sum16_cong: "(\<And>i. p \<le> i \<Longrightarrow> i < p + n \<Longrightarrow> b i = c i) \<Longrightarrow> sum16 b p n = sum16 c p n"
  unfolding sum16_def by (rule sum.cong) simp_all

section \<open>Frames sent\<close>

lemma field_upd_other [nos_buf]:
  "i < p \<or> p + 2 \<le> i \<Longrightarrow> le16 (b(i := v)) p = le16 b p"
  "i < p \<or> p + 4 \<le> i \<Longrightarrow> le32 (b(i := v)) p = le32 b p"
  by (auto simp: le16_def le32_def)

lemma tx_only_net:
  assumes "tx_only s (s' :: 'a net_scheme)"
  shows "gw_mac s' = gw_mac s" "gw_valid s' = gw_valid s" "txframe s' = txframe s"
    "ip_id s' = ip_id s" "dq_busy s' = dq_busy s" "dq_done s' = dq_done s" "dq_id s' = dq_id s"
    "dq_port s' = dq_port s" "dq_addr s' = dq_addr s" "next_id s' = next_id s" "ticks s' = ticks s"
    "nic_present s' = nic_present s" "mac s' = mac s" "rx_off s' = rx_off s"
  using assms by (auto simp: tx_only_def)

lemmas rtl8139_tx_net [simp] = tx_only_net [OF rtl8139_tx_only]

lemma net_ip_tx_sel [simp]:
  "gw_mac (snd (net_ip_tx d p g l s)) = gw_mac s" "gw_valid (snd (net_ip_tx d p g l s)) = gw_valid s"
  "dq_busy (snd (net_ip_tx d p g l s)) = dq_busy s" "dq_done (snd (net_ip_tx d p g l s)) = dq_done s"
  "dq_id (snd (net_ip_tx d p g l s)) = dq_id s" "dq_port (snd (net_ip_tx d p g l s)) = dq_port s"
  "dq_addr (snd (net_ip_tx d p g l s)) = dq_addr s" "next_id (snd (net_ip_tx d p g l s)) = next_id s"
  "ticks (snd (net_ip_tx d p g l s)) = ticks s" "mac (snd (net_ip_tx d p g l s)) = mac s"
  "nic_present (snd (net_ip_tx d p g l s)) = nic_present s"
  by (simp_all add: net_ip_tx_def Let_def)

lemma ip_frame_fields:
  fixes f seg :: buf and dst_ip :: u32 and proto :: u8 and s :: "'a net_scheme"
  assumes "len \<le> 1480"
  defines "f \<equiv> ip_frame dst_ip proto seg len s"
  shows "le16 f 12 = htons 0x0800" "f 14 = 0x45" "htons (le16 f 16) = 20 + ucast len"
    "htons (le16 f 20) = 0x4000" "f 23 = proto" "le32 f 26 = net_ip" "le32 f 30 = dst_ip"
    "\<And>i. i < unat len \<Longrightarrow> f (34 + i) = seg i"
proof -
  show "le16 f 12 = htons 0x0800" "f 14 = 0x45" "htons (le16 f 20) = 0x4000" "f 23 = proto"
    "le32 f 26 = net_ip" "le32 f 30 = dst_ip"
    by (simp_all add: f_def ip_frame_def Let_def nos_buf memcpy_at_outside put16_outside put32_outside)
  have "ucast (20 + len) = (20 + ucast len :: u16)"
    by (simp add: word_unat_eq_iff unsigned_ucast_eq take_bit_eq_mod unat_word_ariths mod_simps
        mod_mod_cancel)
  then show "htons (le16 f 16) = 20 + ucast len"
    by (simp add: f_def ip_frame_def Let_def nos_buf)
  show "f (34 + i) = seg i" if "i < unat len" for i
    using that by (simp add: f_def ip_frame_def Let_def memcpy_at_inside)
qed

lemma ip_frame_csum:
  "oc_sum (sum16 (ip_frame dst_ip proto seg len s) 14 20) = 65535"
proof -
  define f where "f = (let f = memcpy_at (txframe s) 0 (gw_mac s) 0 6;
          f = memcpy_at f 6 (mac s) 0 6;
          f = put16 f 12 (htons 0x0800);
          f = f(14 := 0x45, 15 := 0);
          f = put16 f 16 (htons (ucast (20 + len)));
          f = put16 f 18 (htons (ip_id s));
          f = put16 f 20 (htons 0x4000);
          f = f(22 := 64, 23 := proto);
          f = put16 f 24 0;
          f = put32 f 26 net_ip
        in put32 f 30 dst_ip)"
  have z: "f (14 + 10) = 0" "f (14 + 10 + 1) = 0"
    by (simp_all add: f_def Let_def put32_outside) (simp_all add: put16_def)
  have "sum16 f 14 20 \<le> 65280 * 20" by (rule sum16_le)
  then have "oc_sum (sum16 (put16 f (14 + 10) (net_csum_fin (net_csum_add 0 f 14 20))) 14 20) = 65535"
    using csum_verifies [of 10 20 f 14 0] z by simp
  moreover have "sum16 (ip_frame dst_ip proto seg len s) 14 20 =
      sum16 (put16 f (14 + 10) (net_csum_fin (net_csum_add 0 f 14 20))) 14 20"
    by (rule sum16_cong) (simp add: ip_frame_def f_def Let_def memcpy_at_outside)
  ultimately show ?thesis by simp
qed

text \<open>
  C33: \<^verbatim>\<open>net_ip_tx\<close> refuses without a link, a gateway or for an oversized segment and then
  changes nothing. Otherwise the frame it assembles is a valid packet: its type, version, length,
  flags, protocol and addresses are those asked for in wire order, the ones' complement sum of the
  header's 16-bit words is all ones (RFC 791), and the payload is the caller's segment. The driver gets exactly that frame,
  and the header counter advances by one, wrapping at 16 bits.
\<close>

theorem net_ip_tx_packet:
  fixes s :: "'a net_scheme"
  assumes "net_ip_tx dst_ip proto seg len s = (r, s')"
  shows "if \<not> nic_present s \<or> \<not> gw_valid s \<or> 1480 < len then r = -1 \<and> s' = s
    else let f = txframe s' in
      oc_sum (sum16 f 14 20) = 65535 \<and>
      le16 f 12 = htons 0x0800 \<and> f 14 = 0x45 \<and> htons (le16 f 16) = 20 + ucast len \<and>
      htons (le16 f 20) = 0x4000 \<and> f 23 = proto \<and> le32 f 26 = net_ip \<and> le32 f 30 = dst_ip \<and>
      buf_list f 34 (unat len) = buf_list seg 0 (unat len) \<and>
      ip_id s' = ip_id s + 1 \<and>
      dma s' = dma s @ (if r = 0 then [(tx_next s, padded (buf_list f 0 (34 + unat len)))] else [])"
proof (cases "\<not> nic_present s \<or> \<not> gw_valid s \<or> 1480 < len")
  case True
  with assms show ?thesis by (auto simp: net_ip_tx_def)
next
  case False
  define f where "f = ip_frame dst_ip proto seg len s"
  define t where "t = s\<lparr>txframe := f, ip_id := ip_id s + 1\<rparr>"
  from False assms have tx: "rtl8139_tx f (34 + len) t = (r, s')"
    by (simp add: net_ip_tx_def f_def t_def Let_def)
  have len: "len \<le> 1480" using False by (simp add: not_less)
  then have l: "unat (34 + len) = 34 + unat len"
    by (subst unat_add32) (simp_all add: word_le_nat_alt)
  have f: "txframe s' = f" "ip_id s' = ip_id s + 1"
    using rtl8139_tx_net(3,4) [of f "34 + len" t] unfolding tx by (simp_all add: t_def)
  have "dma s' = dma s @ (if r = 0 then [(tx_next s, padded (buf_list f 0 (34 + unat len)))] else [])"
    using rtl8139_tx_ok [of f "34 + len" t s'] rtl8139_tx_fail [OF tx] tx l by (auto simp: t_def)
  moreover have "buf_list f 34 (unat len) = buf_list seg 0 (unat len)"
    unfolding f_def buf_list_def by (rule map_cong) (simp_all add: ip_frame_fields(8) [OF len])
  ultimately show ?thesis
    unfolding Let_def f using False
    by (simp add: f_def ip_frame_fields(1-7) [OF len] ip_frame_csum)
qed

definition demo_net :: net where
  "demo_net = nic.extend demo_nic (net.fields (\<lambda>_. 2) True (\<lambda>_. 0) 0xFFFF False False 0 0 0 1 0)"

theorem net_ip_tx_packet_witness:
  "oc_sum (sum16 (txframe (snd (net_ip_tx net_dns 17 (\<lambda>_. 9) 2 demo_net))) 14 20) = 65535 \<and>
   ip_id (snd (net_ip_tx net_dns 17 (\<lambda>_. 9) 2 demo_net)) = 0 \<and>
   buf_list (txframe (snd (net_ip_tx net_dns 17 (\<lambda>_. 9) 2 demo_net))) 34 2 = [9, 9]"
proof -
  obtain r s' where "net_ip_tx net_dns 17 (\<lambda>_. 9) 2 demo_net = (r, s')" by fastforce
  with net_ip_tx_packet [OF this] show ?thesis
    by (simp add: demo_net_def demo_nic_def nic.defs net.defs Let_def buf_list_def upt_rec)
qed

section \<open>DNS messages\<close>

text \<open>Two buffers that hold the same message.\<close>

definition agree :: "nat \<Rightarrow> buf \<Rightarrow> buf \<Rightarrow> bool" where
  "agree n p q \<longleftrightarrow> (\<forall>i < n. p i = q i)"

lemma agreeD: "agree n p q \<Longrightarrow> i < n \<Longrightarrow> q i = p i"
  by (simp add: agree_def)

lemma agree_shift: "agree n p q \<Longrightarrow> k + m \<le> n \<Longrightarrow> agree m (\<lambda>i. p (k + i)) (\<lambda>i. q (k + i))"
  by (simp add: agree_def)

lemma agree_le16: "agree n p q \<Longrightarrow> i + 2 \<le> n \<Longrightarrow> le16 q i = le16 p i"
  by (rule le16_cong) (simp add: agree_def)

lemma agree_le32: "agree n p q \<Longrightarrow> i + 4 \<le> n \<Longrightarrow> le32 q i = le32 p i"
  by (rule le32_cong) (simp add: agree_def)

lemma agree_be16: "agree n p q \<Longrightarrow> i + 2 \<le> n \<Longrightarrow> be16 q i = be16 p i"
  by (simp add: agree_def be16_def)

text \<open>The name walk ends, looks at bytes of the message only, and stops at most one byte
  behind it.\<close>

lemma dns_skip_name_total:
  assumes "unat len \<le> 65535" and "agree (unat len) p q"
  shows "\<exists>r. dns_skip_name p len off = Some r \<and> dns_skip_name q len off = Some r \<and>
    unat r \<le> unat len + 1"
proof (induction "unat len - unat off" arbitrary: off rule: less_induct)
  case less
  show ?case
  proof (cases "off < len")
    case False
    then show ?thesis by (simp add: dns_skip_name.simps [of _ len off])
  next
    case True
    then have o: "unat off < unat len" by (simp add: word_less_nat_alt)
    with assms(2) have same: "q (unat off) = p (unat off)" by (rule agreeD)
    let ?n = "off + (1 + ucast (p (unat off)))"
    have one: "unat (1 + ucast (p (unat off)) :: u32) = 1 + unat (p (unat off))"
      using unat_lt_2p8 [of "p (unat off)"] by (subst unat_add32) (simp_all del: unat_lt_2p8)
    have n: "unat ?n = unat off + (1 + unat (p (unat off)))"
      using o assms(1) unat_lt_2p8 [of "p (unat off)"]
      by (subst unat_add32) (simp_all add: one del: unat_lt_2p8)
    have "unat (off + 1) = unat off + 1" "unat (off + 2) = unat off + 2"
      using o assms(1) by (simp_all add: unat_word_ariths)
    then show ?thesis
      using less [of ?n] o n same True
      by (simp add: dns_skip_name.simps [of _ len off])
  qed
qed

lemma dns_questions_total:
  assumes "unat len \<le> 65535" and "agree (unat len) p q"
  shows "\<exists>r. dns_questions p len n off = Some r \<and> dns_questions q len n off = Some r"
proof (induction n arbitrary: off)
  case (Suc n)
  then show ?case using dns_skip_name_total [OF assms, of off] by fastforce
qed simp

lemma dns_answers_total:
  assumes "unat len \<le> 65535" and "agree (unat len) p q"
  shows "\<exists>r. dns_answers p len n off = Some r \<and> dns_answers q len n off = Some r"
proof (induction n arbitrary: off)
  case (Suc n)
  obtain r where r: "dns_skip_name p len off = Some r" "dns_skip_name q len off = Some r"
      "unat r \<le> unat len + 1"
    using dns_skip_name_total [OF assms, of off] by blast
  show ?case
  proof (cases "r = 0 \<or> len < r + 10")
    case True
    with r show ?thesis by auto
  next
    case False
    have r10: "unat (r + 10) = unat r + 10"
      using r(3) assms(1) by (simp add: unat_word_ariths)
    with False have b: "unat r + 10 \<le> unat len" by (simp add: word_less_nat_alt)
    then have be: "be16 q (unat r) = be16 p (unat r)" "be16 q (unat r + 8) = be16 p (unat r + 8)"
      by (auto intro!: agree_be16 [OF assms(2)])
    have "unat (r + 10 + ucast (be16 p (unat r + 8))) = unat r + 10 + unat (be16 p (unat r + 8))"
      using b assms(1) r10 unat_lt_2p16 [of "be16 p (unat r + 8)"]
      by (subst unat_add32) (simp_all del: unat_lt_2p16)
    then have "\<not> len < r + 10 + ucast (be16 p (unat r + 8)) \<Longrightarrow> be16 p (unat r + 8) = 4 \<Longrightarrow>
        le32 q (unat r + 10) = le32 p (unat r + 10)"
      by (intro agree_le32 [OF assms(2)]) (simp add: word_less_nat_alt)
    then show ?thesis
      using r False Suc be r10 by (auto simp: Let_def)
  qed
qed simp

lemma dns_input_total:
  assumes "unat len \<le> 65535" and "agree (unat len) p q"
  shows "\<exists>s'. dns_input p len s = Some s' \<and> dns_input q len s = Some s'"
proof (cases "len < 12")
  case True
  then show ?thesis by (simp add: dns_input_def)
next
  case False
  then have "12 \<le> unat len" by (simp add: word_less_nat_alt)
  then have be: "be16 q i = be16 p i" if "i < 8" for i
    using that by (intro agree_be16 [OF assms(2)]) simp
  obtain r where r: "dns_questions p len (unat (be16 p 4)) 12 = Some r"
      "dns_questions q len (unat (be16 p 4)) 12 = Some r"
    using dns_questions_total [OF assms] by blast
  show ?thesis
  proof (cases r)
    case (Some off)
    obtain a where "dns_answers p len (unat (be16 p 6)) off = Some a"
        "dns_answers q len (unat (be16 p 6)) off = Some a"
      using dns_answers_total [OF assms] by blast
    with r Some show ?thesis by (auto simp: dns_input_def be split: option.split)
  qed (use r in \<open>simp add: dns_input_def be\<close>)
qed

lemma udp_input_total:
  assumes "unat len \<le> 65535" and "agree (unat len) p q"
  shows "\<exists>s'. udp_input p len s = Some s' \<and> udp_input q len s = Some s'"
proof (cases "len < 8")
  case True
  then show ?thesis by (simp add: udp_input_def)
next
  case False
  then have l8: "8 \<le> unat len" by (simp add: word_less_nat_alt)
  then have le: "le16 q i = le16 p i" if "i < 6" for i
    using that by (intro agree_le16 [OF assms(2)]) simp
  define d where "d = (ucast (htons (le16 p 4)) :: u32)"
  show ?thesis
  proof (cases "d < 8 \<or> len < d")
    case True
    then show ?thesis by (simp add: udp_input_def le d_def Let_def)
  next
    case False
    then have "unat (d - 8) = unat d - 8" "8 \<le> unat d" "unat d \<le> unat len"
      by (simp_all add: unat_sub word_less_nat_alt word_le_nat_alt)
    then obtain s' where "dns_input (\<lambda>i. p (8 + i)) (d - 8) s = Some s'"
        "dns_input (\<lambda>i. q (8 + i)) (d - 8) s = Some s'"
      using dns_input_total [OF _ agree_shift [OF assms(2)], of "d - 8" 8 s] assms(1) by auto
    then show ?thesis by (auto simp: udp_input_def le d_def Let_def)
  qed
qed

section \<open>DNS queries\<close>

lemma label_byte:
  assumes "0 < l" and "l < 64"
  shows "(of_nat l :: u8) \<noteq> 0" "(of_nat l :: u8) AND 0xC0 = 0" "unat (of_nat l :: u8) = l"
proof -
  show l: "unat (of_nat l :: u8) = l" using assms by (simp add: unat_of_nat)
  then show "(of_nat l :: u8) \<noteq> 0" using assms by (metis less_irrefl unat_0)
  have low: "(of_nat l :: u8) = take_bit 6 (of_nat l)"
    unfolding word_unat_eq_iff unsigned_take_bit_eq l using assms by (simp add: take_bit_eq_mod)
  have "(0xC0 :: u8) = NOT (mask 6)" by (simp add: mask_eq_exp_minus_1)
  moreover have "take_bit 6 (of_nat l :: u8) AND NOT (mask 6) = 0"
    by (rule bit_word_eqI) (auto simp: bit_simps)
  ultimately show "(of_nat l :: u8) AND 0xC0 = 0" using low by simp
qed

lemma skip_label:
  assumes "b = of_nat l" and "0 < l" and "l < 64" and "p off = b" and "off < unat len"
    and "off + l + 1 < 4294967296"
  shows "dns_skip_name p len (of_nat off) = dns_skip_name p len (of_nat (off + 1 + l))"
proof -
  have o: "unat (of_nat off :: u32) = off" using assms(6) by (intro unat_of_nat32) simp
  have "(1 + ucast (of_nat l :: u8) :: u32) = of_nat (1 + l)"
    using assms(3) by (simp add: word_unat_eq_iff unat_word_ariths unat_of_nat label_byte(3) [OF assms(2,3)])
  then show ?thesis
    using assms o label_byte [OF assms(2,3)]
    by (simp add: dns_skip_name.simps [of p len "of_nat off"] word_less_nat_alt)
      (simp add: algebra_simps)
qed

definition walks :: "nat \<Rightarrow> nat \<Rightarrow> buf \<Rightarrow> bool" where
  "walks off off' b \<longleftrightarrow> (\<forall>p len. unat len < 65536 \<longrightarrow> off' < unat len \<longrightarrow>
     (\<forall>j. off \<le> j \<and> j < off' \<longrightarrow> p j = b (8 + j)) \<longrightarrow>
     dns_skip_name p len (of_nat off) = dns_skip_name p len (of_nat off'))"

lemma walks_label:
  "b (8 + off) = of_nat l \<Longrightarrow> 0 < l \<Longrightarrow> l < 64 \<Longrightarrow> walks off (off + 1 + l) b"
  unfolding walks_def by (intro allI impI skip_label [OF refl]) auto

lemma walks_trans: "walks x y b \<Longrightarrow> walks y z b \<Longrightarrow> x \<le> y \<Longrightarrow> y \<le> z \<Longrightarrow> walks x z b"
proof -
  assume w: "walks x y b" "walks y z b" and o: "x \<le> y" "y \<le> z"
  show "walks x z b"
    unfolding walks_def
  proof (intro allI impI)
    fix p and len :: u32
    assume a: "unat len < 65536" "z < unat len" "\<forall>j. x \<le> j \<and> j < z \<longrightarrow> p j = b (8 + j)"
    have "dns_skip_name p len (of_nat x) = dns_skip_name p len (of_nat y)"
      using w(1) a o unfolding walks_def by simp
    moreover have "dns_skip_name p len (of_nat y) = dns_skip_name p len (of_nat z)"
      using w(2) a o unfolding walks_def by simp
    ultimately show "dns_skip_name p len (of_nat x) = dns_skip_name p len (of_nat z)" by simp
  qed
qed

text \<open>
  The label loop from index \<open>i\<close>: it advances the offset by what is left of the name plus one,
  writes nowhere else, and what it writes is a name the reply parser walks over.
\<close>

lemma dns_labels_spec:
  assumes "dns_labels nm [i..<Suc (length nm)] b off start = Some (b', off')"
    and "0 \<notin> set nm" and "start \<le> i" and "i \<le> length nm"
  shows "off' = off + (length nm + 1 - start) \<and>
    (\<forall>j. j < 8 + off \<or> 8 + off' \<le> j \<longrightarrow> b' j = b j) \<and> walks off off' b'"
  using assms
proof (induction "length nm - i" arbitrary: i b off start)
  case 0
  then have i: "i = length nm" by simp
  from 0 i have l: "0 < i - start" "i - start < 64" and off': "off' = off + 1 + (i - start)"
    and b': "b' = memcpy_at (b(8 + off := of_nat (i - start))) (8 + (off + 1)) (list_buf nm) start (i - start)"
    by (auto split: if_splits)
  have "walks off off' b'"
    unfolding off' using l by (intro walks_label) (simp_all add: b' memcpy_at_outside)
  then show ?case using off' l i by (auto simp: b' memcpy_at_def)
next
  case (Suc d)
  have i: "i < length nm" "[i..<Suc (length nm)] = i # [Suc i..<Suc (length nm)]"
    using Suc.hyps(2) by (simp_all add: upt_conv_Cons del: upt_Suc)
  have d: "d = length nm - Suc i" using Suc.hyps(2) by simp
  from i have c: "(nm @ [0]) ! i = nm ! i" "nm ! i \<noteq> 0"
    using Suc.prems(2) by (simp_all add: nth_append) (metis nth_mem)
  show ?case
  proof (cases "nm ! i = 0x2E")
    case False
    then have "dns_labels nm [Suc i..<Suc (length nm)] b off start = Some (b', off')"
      using Suc.prems(1) i c by (simp del: upt_Suc)
    from Suc.hyps(1) [OF d this Suc.prems(2)] show ?thesis using Suc.prems(3) i(1) by auto
  next
    case True
    define l where "l = i - start"
    define b1 where "b1 = memcpy_at (b(8 + off := of_nat l)) (8 + (off + 1)) (list_buf nm) start l"
    have l: "0 < l" "l < 64"
      and rec: "dns_labels nm [Suc i..<Suc (length nm)] b1 (off + 1 + l) (Suc i) = Some (b', off')"
      using Suc.prems(1) True i c by (auto simp: l_def b1_def simp del: upt_Suc split: if_splits)
    have IH: "off' = off + 1 + l + (length nm + 1 - Suc i)"
      "\<forall>j. j < 8 + (off + 1 + l) \<or> 8 + off' \<le> j \<longrightarrow> b' j = b1 j" "walks (off + 1 + l) off' b'"
      using Suc.hyps(1) [OF d rec Suc.prems(2)] i(1) by auto
    have "b' (8 + off) = of_nat l" using IH(2) by (simp add: b1_def memcpy_at_outside)
    then have "walks off (off + 1 + l) b'" using l by (rule walks_label)
    then have "walks off off' b'" using IH(3) by (rule walks_trans) (simp_all add: IH(1))
    moreover have "b' j = b j" if "j < 8 + off \<or> 8 + off' \<le> j" for j
      using that IH(1,2) by (auto simp: b1_def memcpy_at_outside)
    ultimately show ?thesis using IH(1) Suc.prems(3) i(1) by (simp add: l_def)
  qed
qed

text \<open>
  C34: A DNS query always fits the 154-byte buffer it is built in. For a name that is accepted the
  packet has the length of the name plus 26, no byte behind that is written, the UDP length field
  says so, and the question holds a well-formed name: the parser that walks over names in
  replies, started at the question, ends exactly at the type field.
\<close>

theorem dns_query_fits:
  assumes "dns_build_query pkt nm qid sport = Some (b, n)" and "0 \<notin> set nm"
  shows "n = length nm + 26 \<and> n \<le> 154 \<and> (\<forall>j \<ge> n. b j = pkt j) \<and> htons (le16 b 4) = of_nat n \<and>
    dns_skip_name (\<lambda>j. b (8 + j)) (of_nat n - 8) 12 = Some (of_nat (n - 12))"
proof -
  obtain b1 off where lab: "dns_labels nm [0..<Suc (length nm)] (dns_header qid pkt) 12 0 = Some (b1, off)"
    and len: "length nm \<noteq> 0" "length nm \<le> 128" and n: "n = 8 + (off + 5)"
    and b: "b = put16 (put16 (put16 (put16 (b1(8 + off := 0, 8 + off + 1 := 0, 8 + off + 2 := 1,
      8 + off + 3 := 0, 8 + off + 4 := 1)) 0 (htons sport)) 2 (htons 53)) 4 (htons (of_nat n))) 6 0"
    using assms(1) by (auto simp: dns_build_query_def DNS_NAME_MAX_def Let_def simp del: upt_Suc
        split: if_splits option.splits)
  from dns_labels_spec [OF lab assms(2)]
  have off: "off = length nm + 13" and out: "\<forall>j. j < 20 \<or> 8 + off \<le> j \<longrightarrow> b1 j = dns_header qid pkt j"
    and w: "walks 12 off b1" by auto
  have above: "b j = (b1(8 + off := 0, 8 + off + 1 := 0, 8 + off + 2 := 1,
      8 + off + 3 := 0, 8 + off + 4 := 1)) j" if "8 \<le> j" for j
    unfolding b using that by (simp add: put16_def)
  have "b j = pkt j" if "n \<le> j" for j
    using that out above [of j] n off by (simp add: dns_header_def)
  moreover have "(of_nat n - 8 :: u32) = of_nat (off + 5)" using n by simp
  then have l: "unat (of_nat n - 8 :: u32) = off + 5"
    using off len by (simp only: unat_of_nat32)
  have "dns_skip_name (\<lambda>j. b (8 + j)) (of_nat n - 8) (of_nat 12)
      = dns_skip_name (\<lambda>j. b (8 + j)) (of_nat n - 8) (of_nat off)"
    using w l off len above unfolding walks_def by simp
  moreover have "dns_skip_name (\<lambda>j. b (8 + j)) (of_nat n - 8) (of_nat off) = Some (of_nat off + 1)"
  proof -
    have "unat (of_nat off :: u32) = off" using off len by (intro unat_of_nat32) simp
    moreover have "b (8 + off) = 0" using above [of "8 + off"] by simp
    ultimately show ?thesis using l by (simp add: dns_skip_name.simps [of _ _ "of_nat off"] word_less_nat_alt)
  qed
  moreover have "htons (le16 b 4) = of_nat n" unfolding b by (simp add: nos_buf)
  ultimately show ?thesis using n off len by (simp add: add.commute)
qed

theorem dns_query_fits_witness:
  "\<exists>b. dns_build_query (\<lambda>_. 0) [97, 98, 0x2E, 99] 1 0xC001 = Some (b, 30) \<and>
     dns_skip_name (\<lambda>j. b (8 + j)) 22 12 = Some 18"
proof -
  obtain b n where b: "dns_build_query (\<lambda>_. 0) [97, 98, 0x2E, 99] 1 0xC001 = Some (b, n)"
    by (simp add: dns_build_query_def DNS_NAME_MAX_def upt_rec Let_def)
  from dns_query_fits [OF b] b show ?thesis by (intro exI [of _ b]) auto
qed

end
