(* ===== verification/Tcp.thy ===== *)
theory Tcp
  imports Net Ring
begin

text \<open>
  \<^verbatim>\<open>kernel/tcp.c\<close>: the client-side TCP. Sockets are the entries of a table; sequence
  numbers, ports and ring indices keep their widths. \<^verbatim>\<open>tcp_input\<close> runs with interrupts
  masked and is one function of the state; the task-side calls yield through the
  environment \<open>env\<close>, which stands for the interrupt handler and the other tasks.
\<close>

section \<open>Sockets\<close>

datatype tcp_state = TS_FREE | TS_SYN_SENT | TS_ESTABLISHED | TS_LINGER

record tcp_sock =
  ts_state :: tcp_state
  refs :: int
  rip :: u32
  rport :: u16
  lport :: u16
  snd_nxt :: u32
  snd_una :: u32
  rcv_nxt :: u32
  peer_fin :: bool
  reset :: bool
  fin_sent :: bool
  close_ticks :: u32
  rx_head :: u32
  rx_tail :: u32
  rx :: buf

record tcp = net +
  socks :: "nat \<Rightarrow> tcp_sock"
  segbuf :: buf
  next_port :: u16

definition TCP_SOCKS :: nat where
  "TCP_SOCKS = 4"

definition TCP_RXBUF :: u32 where
  "TCP_RXBUF = 16384"

definition TCP_MSS :: nat where
  "TCP_MSS = 1460"

definition TCP_RTO_TICKS :: u32 where
  "TCP_RTO_TICKS = PIT_HZ div 2"

definition TCP_LINGER_TICKS :: u32 where
  "TCP_LINGER_TICKS = 2 * PIT_HZ"

definition put_sock :: "nat \<Rightarrow> tcp_sock \<Rightarrow> 'a tcp_scheme \<Rightarrow> 'a tcp_scheme" where
  "put_sock i t s = s\<lparr>socks := (socks s)(i := t)\<rparr>"

definition seq_diff :: "u32 \<Rightarrow> u32 \<Rightarrow> int" where
  "seq_diff a b = sint (a - b)"

definition tcp_window :: "tcp_sock \<Rightarrow> u16" where
  "tcp_window ts =
     (let used = (rx_head ts - rx_tail ts + TCP_RXBUF) mod TCP_RXBUF;
          space = TCP_RXBUF - 1 - used
      in if 0xFFFF < space then 0xFFFF else ucast space)"

section \<open>Segment output\<close>

text \<open>The segment with a zero checksum field, and the pseudo-header.\<close>

definition tcp_fields :: "tcp_sock \<Rightarrow> u8 \<Rightarrow> u32 \<Rightarrow> buf \<Rightarrow> u32 \<Rightarrow> bool \<Rightarrow> buf \<Rightarrow> buf \<times> u32" where
  "tcp_fields ts fl seq data len with_mss b =
     (let hlen = 20 + (if with_mss then 4 else 0);
          b = put16 b 0 (htons (lport ts));
          b = put16 b 2 (htons (rport ts));
          b = put32 b 4 (htonl seq);
          b = put32 b 8 (if fl AND 0x10 \<noteq> 0 then htonl (rcv_nxt ts) else 0);
          b = b(12 := push_bit 4 (ucast (hlen div 4 :: u32)), 13 := fl);
          b = put16 b 14 (htons (tcp_window ts));
          b = put16 b 16 0;
          b = put16 b 18 0;
          b = (if with_mss then b(20 := 2, 21 := 4, 22 := 0x05, 23 := 0xB4) else b);
          b = (if len \<noteq> 0 then memcpy_at b (unat hlen) data 0 (unat len) else b)
      in (b, hlen + len))"

definition tcp_pseudo :: "u32 \<Rightarrow> u32 \<Rightarrow> buf" where
  "tcp_pseudo dst tlen =
     (let ph = put32 (\<lambda>_. 0) 0 net_ip; ph = put32 ph 4 dst
      in ph(8 := 0, 9 := 6, 10 := ucast (drop_bit 8 tlen), 11 := ucast tlen))"

definition tcp_segment :: "tcp_sock \<Rightarrow> u8 \<Rightarrow> u32 \<Rightarrow> buf \<Rightarrow> u32 \<Rightarrow> bool \<Rightarrow> buf \<Rightarrow> buf \<times> u32" where
  "tcp_segment ts fl seq data len with_mss b =
     (case tcp_fields ts fl seq data len with_mss b of (b, tlen) \<Rightarrow>
        let acc = net_csum_add 0 (tcp_pseudo (rip ts) tlen) 0 12;
            acc = net_csum_add acc b 0 (unat tlen)
        in (put16 b 16 (net_csum_fin acc), tlen))"

definition tcp_output :: "nat \<Rightarrow> u8 \<Rightarrow> u32 \<Rightarrow> buf \<Rightarrow> u32 \<Rightarrow> bool \<Rightarrow> 'a tcp_scheme \<Rightarrow> int \<times> 'a tcp_scheme" where
  "tcp_output i fl seq data len with_mss s =
     (case tcp_segment (socks s i) fl seq data len with_mss (segbuf s) of (b, tlen) \<Rightarrow>
        net_ip_tx (rip (socks s i)) 6 b tlen (s\<lparr>segbuf := b\<rparr>))"

text \<open>A segment without data.\<close>

definition tcp_ack :: "nat \<Rightarrow> u8 \<Rightarrow> u32 \<Rightarrow> 'a tcp_scheme \<Rightarrow> 'a tcp_scheme" where
  "tcp_ack i fl seq s = snd (tcp_output i fl seq (\<lambda>_. 0) 0 False s)"

section \<open>The receive ring\<close>

definition rx_push :: "tcp_sock \<Rightarrow> u8 \<Rightarrow> tcp_sock option" where
  "rx_push ts b =
     (let nxt = (rx_head ts + 1) mod TCP_RXBUF
      in if nxt = rx_tail ts then None
         else Some (ts\<lparr>rx := (rx ts)(unat (rx_head ts) := b), rx_head := nxt\<rparr>))"

definition rx_pop :: "tcp_sock \<Rightarrow> (u8 \<times> tcp_sock) option" where
  "rx_pop ts =
     (if rx_tail ts \<noteq> rx_head ts
      then Some (rx ts (unat (rx_tail ts)), ts\<lparr>rx_tail := (rx_tail ts + 1) mod TCP_RXBUF\<rparr>)
      else None)"

definition ring_put :: "tcp_sock \<Rightarrow> buf \<Rightarrow> u32 \<Rightarrow> nat \<times> tcp_sock" where
  "ring_put ts p n = fill rx_push ts (buf_list p 0 (unat n))"

section \<open>Segment input\<close>

definition find_sock :: "u32 \<Rightarrow> buf \<Rightarrow> 'a tcp_scheme \<Rightarrow> nat option" where
  "find_sock src_ip seg s =
     find (\<lambda>i. ts_state (socks s i) \<noteq> TS_FREE \<and> rip (socks s i) = src_ip \<and>
        htons (rport (socks s i)) = le16 seg 0 \<and> htons (lport (socks s i)) = le16 seg 2)
       [0..<TCP_SOCKS]"

text \<open>The effect of the acknowledgement, the data and the FIN of a segment on the socket, in
  this order.\<close>

definition take_ack :: "u8 \<Rightarrow> u32 \<Rightarrow> tcp_sock \<Rightarrow> tcp_sock" where
  "take_ack fl ack ts =
     (if fl AND 0x10 \<noteq> 0 \<and> 0 < seq_diff ack (snd_una ts) \<and> seq_diff ack (snd_nxt ts) \<le> 0
      then ts\<lparr>snd_una := ack\<rparr> else ts)"

definition take_data :: "u32 \<Rightarrow> buf \<Rightarrow> u32 \<Rightarrow> tcp_sock \<Rightarrow> tcp_sock" where
  "take_data seq payload plen ts =
     (if 0 < plen \<and> seq = rcv_nxt ts
      then (case ring_put ts payload plen of (n, ts') \<Rightarrow> ts'\<lparr>rcv_nxt := rcv_nxt ts' + of_nat n\<rparr>)
      else ts)"

definition take_fin :: "u8 \<Rightarrow> u32 \<Rightarrow> u32 \<Rightarrow> tcp_sock \<Rightarrow> tcp_sock" where
  "take_fin fl seq plen ts =
     (if fl AND 0x01 \<noteq> 0 \<and> \<not> peer_fin ts \<and> seq + plen = rcv_nxt ts
      then ts\<lparr>rcv_nxt := rcv_nxt ts + 1, peer_fin := True\<rparr> else ts)"

definition tcp_deliver :: "nat \<Rightarrow> u8 \<Rightarrow> u32 \<Rightarrow> u32 \<Rightarrow> buf \<Rightarrow> u32 \<Rightarrow> 'a tcp_scheme \<Rightarrow> 'a tcp_scheme" where
  "tcp_deliver i fl seq ack payload plen s =
     (let ts = socks s i
      in if fl AND 0x04 \<noteq> 0
         then put_sock i (ts\<lparr>reset := True,
                ts_state := if ts_state ts = TS_LINGER then TS_FREE else ts_state ts\<rparr>) s
         else if ts_state ts = TS_SYN_SENT
         then if fl AND 0x12 = 0x12 \<and> ack = snd_nxt ts
              then tcp_ack i 0x10 (snd_nxt ts)
                (put_sock i (ts\<lparr>rcv_nxt := seq + 1, snd_una := ack, ts_state := TS_ESTABLISHED\<rparr>) s)
              else s
         else
           let ts = take_fin fl seq plen (take_data seq payload plen (take_ack fl ack ts));
               s = put_sock i ts s;
               s = (if 0 < plen \<or> fl AND 0x01 \<noteq> 0 then tcp_ack i 0x10 (snd_nxt ts) s else s)
           in if ts_state ts = TS_LINGER \<and> peer_fin ts \<and> 0 \<le> seq_diff (snd_una ts) (snd_nxt ts)
              then put_sock i (ts\<lparr>ts_state := TS_FREE\<rparr>) s
              else s)"

definition tcp_input :: "u32 \<Rightarrow> buf \<Rightarrow> u32 \<Rightarrow> 'a tcp_scheme \<Rightarrow> 'a tcp_scheme" where
  "tcp_input src_ip seg len s =
     (if len < 20 then s
      else
        let doff = ucast (drop_bit 4 (seg 12)) * 4 :: u32
        in if doff < 20 \<or> len < doff then s
           else case find_sock src_ip seg s of
             None \<Rightarrow> s
           | Some i \<Rightarrow>
               tcp_deliver i (seg 13) (htonl (le32 seg 4)) (htonl (le32 seg 8))
                 (\<lambda>k. seg (unat doff + k)) (len - doff) s)"

section \<open>The socket calls\<close>

definition sock_get :: "int \<Rightarrow> 'a tcp_scheme \<Rightarrow> nat option" where
  "sock_get h s =
     (if h < 0 \<or> int TCP_SOCKS \<le> h \<or> ts_state (socks s (nat h)) = TS_FREE then None else Some (nat h))"

text \<open>The scan of the table: reclaim stale lingering slots, remember the first free one.\<close>

primrec connect_scan :: "nat list \<Rightarrow> nat option \<Rightarrow> 'a tcp_scheme \<Rightarrow> nat option \<times> 'a tcp_scheme" where
  "connect_scan [] idx s = (idx, s)"
| "connect_scan (i # is) idx s =
     (let s = (if ts_state (socks s i) = TS_LINGER \<and>
                  TCP_LINGER_TICKS < ticks s - close_ticks (socks s i)
               then put_sock i ((socks s i)\<lparr>ts_state := TS_FREE\<rparr>) s else s);
          idx = (if ts_state (socks s i) = TS_FREE \<and> idx = None then Some i else idx)
      in connect_scan is idx s)"

definition connect_iss :: "nat \<Rightarrow> 'a tcp_scheme \<Rightarrow> u32" where
  "connect_iss i s = push_bit 8 (ticks s) OR push_bit 4 (of_nat i)"

definition connect_init :: "nat \<Rightarrow> u32 \<Rightarrow> u16 \<Rightarrow> 'a tcp_scheme \<Rightarrow> 'a tcp_scheme" where
  "connect_init i ip port s =
     put_sock i
       \<lparr>ts_state = TS_SYN_SENT, refs = 1, rip = ip, rport = port,
        lport = 0xD000 OR (next_port s AND 0xFFF),
        snd_nxt = connect_iss i s + 1, snd_una = connect_iss i s, rcv_nxt = 0,
        peer_fin = False, reset = False, fin_sent = False, close_ticks = 0,
        rx_head = 0, rx_tail = 0, rx = rx (socks s i)\<rparr>
       (s\<lparr>next_port := next_port s + 1\<rparr>)"

text \<open>The attempts from number \<open>a\<close> on, \<open>n\<close> of them left.\<close>

primrec connect_tries :: "nat \<Rightarrow> nat \<Rightarrow> nat \<Rightarrow> u32 \<Rightarrow> (nat \<Rightarrow> 'a tcp_scheme \<Rightarrow> 'a tcp_scheme) \<Rightarrow> nat \<Rightarrow>
    'a tcp_scheme \<Rightarrow> (bool \<times> nat \<times> 'a tcp_scheme) option" where
  "connect_tries 0 a i iss env k s = Some (False, k, s)"
| "connect_tries (Suc n) a i iss env k s =
     (let s1 = snd (tcp_output i 0x02 iss (\<lambda>_. 0) 0 True s); start = ticks s1
      in case yield_while (\<lambda>t. ts_state (socks t i) = TS_SYN_SENT \<and> \<not> reset (socks t i) \<and>
             ticks t - start < TCP_RTO_TICKS * of_nat (a + 1)) env k s1 of
           None \<Rightarrow> None
         | Some (k', s2) \<Rightarrow>
             if ts_state (socks s2 i) = TS_ESTABLISHED then Some (True, k', s2)
             else if reset (socks s2 i) then Some (False, k', s2)
             else connect_tries n (a + 1) i iss env k' s2)"

definition tcp_connect :: "u32 \<Rightarrow> u16 \<Rightarrow> (nat \<Rightarrow> 'a tcp_scheme \<Rightarrow> 'a tcp_scheme) \<Rightarrow> nat \<Rightarrow>
    'a tcp_scheme \<Rightarrow> (int \<times> nat \<times> 'a tcp_scheme) option" where
  "tcp_connect ip port env k s =
     (case net_ensure_gateway env k s of
        None \<Rightarrow> None
      | Some (r, k1, s1) \<Rightarrow>
          if r < 0 then Some (-1, k1, s1)
          else case connect_scan [0..<TCP_SOCKS] None s1 of
            (None, s2) \<Rightarrow> Some (-1, k1, s2)
          | (Some i, s2) \<Rightarrow>
              (case connect_tries 4 0 i (connect_iss i s2) env k1 (connect_init i ip port s2) of
                 None \<Rightarrow> None
               | Some (ok, k3, s3) \<Rightarrow>
                   if ok then Some (int i, k3, s3)
                   else Some (-1, k3, put_sock i ((socks s3 i)\<lparr>ts_state := TS_FREE\<rparr>) s3)))"

text \<open>The retransmission loop of one chunk; the flag says that it was acknowledged.\<close>

primrec send_tries :: "nat \<Rightarrow> nat \<Rightarrow> u32 \<Rightarrow> u8 list \<Rightarrow> (nat \<Rightarrow> 'a tcp_scheme \<Rightarrow> 'a tcp_scheme) \<Rightarrow> nat \<Rightarrow>
    'a tcp_scheme \<Rightarrow> (bool \<times> nat \<times> 'a tcp_scheme) option" where
  "send_tries 0 i seq xs env k s = Some (False, k, s)"
| "send_tries (Suc n) i seq xs env k s =
     (case tcp_output i 0x18 seq (list_buf xs) (of_nat (length xs)) False s of (r, s1) \<Rightarrow>
        if r < 0 then Some (False, k, s1)
        else
          let start = ticks s1;
              waiting = (\<lambda>t. \<not> reset (socks t i) \<and> ticks t - start < TCP_RTO_TICKS);
              acked = (\<lambda>t. 0 \<le> seq_diff (snd_una (socks t i)) (seq + of_nat (length xs)))
          in case yield_while (\<lambda>t. waiting t \<and> \<not> acked t) env k s1 of
               None \<Rightarrow> None
             | Some (k', s2) \<Rightarrow>
                 if waiting s2 \<and> acked s2 then Some (True, k', s2)
                 else if reset (socks s2 i) then Some (False, k', s2)
                 else send_tries n i seq xs env k' s2)"

text \<open>The chunk loop; \<open>rest\<close> are the bytes from \<^verbatim>\<open>sent\<close> on.\<close>

function send_chunks :: "nat \<Rightarrow> u8 list \<Rightarrow> (nat \<Rightarrow> 'a tcp_scheme \<Rightarrow> 'a tcp_scheme) \<Rightarrow> nat \<Rightarrow>
    'a tcp_scheme \<Rightarrow> (bool \<times> nat \<times> 'a tcp_scheme) option" where
  "send_chunks i rest env k s =
     (if rest = [] then Some (True, k, s)
      else
        let xs = take TCP_MSS rest;
            seq = snd_nxt (socks s i);
            s1 = put_sock i ((socks s i)\<lparr>snd_nxt := seq + of_nat (length xs)\<rparr>) s
        in case send_tries 8 i seq xs env k s1 of
             None \<Rightarrow> None
           | Some (acked, k', s2) \<Rightarrow>
               if \<not> acked then Some (False, k', put_sock i ((socks s2 i)\<lparr>reset := True\<rparr>) s2)
               else send_chunks i (drop TCP_MSS rest) env k' s2)"
  by pat_completeness auto

termination send_chunks
  by (relation "measure (\<lambda>(i, rest, env, k, s). length rest)") (auto simp: TCP_MSS_def)

declare send_chunks.simps [simp del]

definition tcp_send :: "int \<Rightarrow> u8 list \<Rightarrow> (nat \<Rightarrow> 'a tcp_scheme \<Rightarrow> 'a tcp_scheme) \<Rightarrow> nat \<Rightarrow>
    'a tcp_scheme \<Rightarrow> (int \<times> nat \<times> 'a tcp_scheme) option" where
  "tcp_send h xs env k s =
     (case sock_get h s of
        None \<Rightarrow> Some (-1, k, s)
      | Some i \<Rightarrow>
          if ts_state (socks s i) \<noteq> TS_ESTABLISHED \<or> reset (socks s i) \<or> fin_sent (socks s i)
          then Some (-1, k, s)
          else case send_chunks i xs env k s of
            None \<Rightarrow> None
          | Some (ok, k', s') \<Rightarrow> Some (if ok then sint (of_nat (length xs) :: u32) else -1, k', s'))"

text \<open>The masked section of a receive, and the loop. \<open>Inr\<close> carries the bytes received, none
  at end of file; \<open>Inl\<close> is the return of -1.\<close>

definition recv_section :: "nat \<Rightarrow> nat \<Rightarrow> 'a tcp_scheme \<Rightarrow> u8 list \<times> 'a tcp_scheme" where
  "recv_section i len s =
     (case drain rx_pop (socks s i) len of (xs, ts) \<Rightarrow> (xs, put_sock i ts s))"

partial_function (option) recv_loop :: "nat \<Rightarrow> nat \<Rightarrow> (nat \<Rightarrow> 'a tcp_scheme \<Rightarrow> 'a tcp_scheme) \<Rightarrow> nat \<Rightarrow>
    'a tcp_scheme \<Rightarrow> ((int + u8 list) \<times> nat \<times> 'a tcp_scheme) option" where
  "recv_loop i len env k s =
     (let xs = fst (recv_section i len s); s1 = snd (recv_section i len s)
      in if xs \<noteq> [] then Some (Inr xs, k, tcp_ack i 0x10 (snd_nxt (socks s1 i)) s1)
         else if peer_fin (socks s1 i) then Some (Inr [], k, s1)
         else if reset (socks s1 i) \<or> ts_state (socks s1 i) \<noteq> TS_ESTABLISHED then Some (Inl (-1), k, s1)
         else recv_loop i len env (Suc k) (env k s1))"

definition tcp_recv :: "int \<Rightarrow> nat \<Rightarrow> (nat \<Rightarrow> 'a tcp_scheme \<Rightarrow> 'a tcp_scheme) \<Rightarrow> nat \<Rightarrow>
    'a tcp_scheme \<Rightarrow> ((int + u8 list) \<times> nat \<times> 'a tcp_scheme) option" where
  "tcp_recv h len env k s =
     (case sock_get h s of
        None \<Rightarrow> Some (Inl (-1), k, s)
      | Some i \<Rightarrow> if len = 0 then Some (Inr [], k, s) else recv_loop i len env k s)"

definition tcp_addref :: "int \<Rightarrow> 'a tcp_scheme \<Rightarrow> 'a tcp_scheme" where
  "tcp_addref h s =
     (case sock_get h s of
        None \<Rightarrow> s
      | Some i \<Rightarrow> put_sock i ((socks s i)\<lparr>refs := refs (socks s i) + 1\<rparr>) s)"

definition tcp_release :: "int \<Rightarrow> 'a tcp_scheme \<Rightarrow> 'a tcp_scheme" where
  "tcp_release h s =
     (case sock_get h s of
        None \<Rightarrow> s
      | Some i \<Rightarrow>
          let ts = (socks s i)\<lparr>refs := refs (socks s i) - 1\<rparr>
          in if 0 < refs ts then put_sock i ts s
             else if ts_state ts = TS_ESTABLISHED \<and> \<not> reset ts \<and> \<not> fin_sent ts
             then tcp_ack i 0x11 (snd_nxt ts)
               (put_sock i (ts\<lparr>snd_nxt := snd_nxt ts + 1, fin_sent := True, ts_state := TS_LINGER,
                  close_ticks := ticks s\<rparr>) s)
             else put_sock i (ts\<lparr>ts_state := TS_FREE\<rparr>) s)"

section \<open>What output changes\<close>

lemma tx_only_tcp:
  assumes "tx_only s (s' :: 'a tcp_scheme)"
  shows "socks s' = socks s" "segbuf s' = segbuf s" "next_port s' = next_port s"
  using assms by (auto simp: tx_only_def)

lemma net_ip_tx_tcp [simp]:
  "socks (snd (net_ip_tx d p g l (s :: 'a tcp_scheme))) = socks s"
  "segbuf (snd (net_ip_tx d p g l s)) = segbuf s"
  "next_port (snd (net_ip_tx d p g l s)) = next_port s"
  by (simp_all add: net_ip_tx_def Let_def tx_only_tcp [OF rtl8139_tx_only])

lemma tcp_output_sel [simp]:
  "socks (snd (tcp_output i fl q d l m s)) = socks s"
  "ticks (snd (tcp_output i fl q d l m s)) = ticks s"
  "gw_valid (snd (tcp_output i fl q d l m s)) = gw_valid s"
  by (simp_all add: tcp_output_def case_prod_beta)

lemma tcp_ack_socks [simp]: "socks (tcp_ack i fl q s) = socks s"
  by (simp add: tcp_ack_def)

lemma socks_put_sock [simp]: "socks (put_sock i t s) = (socks s)(i := t)"
  by (simp add: put_sock_def)

section \<open>Segments sent\<close>

lemma tcp_fields_csum0:
  assumes "tcp_fields ts fl q d l m b = (b', n)"
  shows "b' 16 = 0" "b' 17 = 0"
proof -
  have hl: "20 \<le> unat (20 + (if m then 4 else 0) :: u32)" by simp
  then show "b' 16 = 0" "b' 17 = 0"
    using assms by (auto simp: tcp_fields_def Let_def memcpy_at_outside put16_def split: if_splits)
qed

lemma tcp_fields_len: "snd (tcp_fields ts fl q d l m b) = 20 + (if m then 4 else 0) + l"
  by (simp add: tcp_fields_def Let_def)

lemma tcp_tlen:
  assumes "unat l \<le> 1456"
  shows "unat (20 + (if m then 4 else 0) + l :: u32) = 20 + (if m then 4 else 0) + unat l"
  using assms by (cases m) (simp_all add: unat_word_ariths)

lemma tcp_pseudo_fields:
  assumes "n \<le> 1480"
  shows "le32 (tcp_pseudo dst n) 0 = net_ip" "le32 (tcp_pseudo dst n) 4 = dst" "tcp_pseudo dst n 8 = 0"
    "tcp_pseudo dst n 9 = 6" "256 * unat (tcp_pseudo dst n 10) + unat (tcp_pseudo dst n 11) = unat n"
proof -
  show "le32 (tcp_pseudo dst n) 0 = net_ip" "le32 (tcp_pseudo dst n) 4 = dst" "tcp_pseudo dst n 8 = 0"
    "tcp_pseudo dst n 9 = 6"
    by (simp_all add: tcp_pseudo_def Let_def nos_buf)
  have "unat n div 256 < 256" using assms by (simp add: word_le_nat_alt)
  then show "256 * unat (tcp_pseudo dst n 10) + unat (tcp_pseudo dst n 11) = unat n"
    by (simp add: tcp_pseudo_def Let_def unsigned_ucast_eq take_bit_eq_mod unat_drop_bit_eq drop_bit_eq_div unat_div)
qed

text \<open>
  C32: Every segment \<^verbatim>\<open>tcp_output\<close> builds is acceptable to the peer: the ones' complement sum
  of the 16-bit words of the pseudo-header (addresses, protocol 6, segment length) and of the segment,
  checksum included, is all ones (RFC 793); the length is
  that of the header, the option and the data, it fits the segment buffer and is never refused as
  oversized by the IP layer; and the header carries the socket's ports, the sequence number
  and, when ACK is set, the next expected byte.
\<close>

theorem tcp_segment_valid:
  assumes "unat len \<le> 1460" and "with_mss \<Longrightarrow> len = 0"
    and "tcp_segment ts fl seq data len with_mss b = (b', tlen)"
  shows "(let ph = tcp_pseudo (rip ts) tlen in
      oc_sum (sum16 ph 0 12 + sum16 b' 0 (unat tlen)) = 65535 \<and>
      le32 ph 0 = net_ip \<and> le32 ph 4 = rip ts \<and> ph 8 = 0 \<and> ph 9 = 6 \<and> 256 * unat (ph 10) + unat (ph 11) = unat tlen) \<and>
    unat tlen = (if with_mss then 24 else 20 + unat len) \<and> tlen \<le> 1480 \<and>
    htons (le16 b' 0) = lport ts \<and> htons (le16 b' 2) = rport ts \<and> htonl (le32 b' 4) = seq \<and>
    (fl AND 0x10 \<noteq> 0 \<longrightarrow> htonl (le32 b' 8) = rcv_nxt ts) \<and> b' 13 = fl \<and>
    (\<forall>i < unat len. b' (20 + i) = data i)"
proof -
  define f where "f = fst (tcp_fields ts fl seq data len with_mss b)"
  define n where "n = 20 + (if with_mss then 4 else 0) + len"
  have fields: "tcp_fields ts fl seq data len with_mss b = (f, n)"
    by (simp only: f_def n_def tcp_fields_len [of ts fl seq data len with_mss b, symmetric] prod.collapse)
  have n: "unat n = (if with_mss then 24 else 20 + unat len)"
    using assms(1,2) by (cases with_mss) (simp_all add: n_def unat_word_ariths)
  let ?acc = "net_csum_add 0 (tcp_pseudo (rip ts) n) 0 12"
  have b': "b' = put16 f 16 (net_csum_fin (net_csum_add ?acc f 0 (unat n)))" "tlen = n"
    using assms(3) fields by (auto simp: tcp_segment_def Let_def)
  have "sum16 (tcp_pseudo (rip ts) n) 0 12 \<le> 65280 * 12" by (rule sum16_le)
  then have acc: "unat ?acc = sum16 (tcp_pseudo (rip ts) n) 0 12" "unat ?acc \<le> 65280 * 12"
    by (simp_all add: net_csum_add_nat)
  moreover have "sum16 f 0 (unat n) \<le> 65280 * 1480"
    using sum16_le [of f 0 "unat n"] n assms(1) by (simp split: if_splits)
  ultimately have small: "unat ?acc + sum16 f 0 (unat n) < 4294967296" by linarith
  have "oc_sum (unat ?acc + sum16 (put16 f (0 + 16) (net_csum_fin (net_csum_add ?acc f 0 (unat n)))) 0 (unat n)) = 65535"
    using tcp_fields_csum0 [OF fields] small n by (intro csum_verifies) simp_all
  then have "oc_sum (sum16 (tcp_pseudo (rip ts) tlen) 0 12 + sum16 b' 0 (unat tlen)) = 65535"
    using b' acc(1) by simp
  moreover have "htons (le16 b' 0) = lport ts \<and> htons (le16 b' 2) = rport ts \<and> htonl (le32 b' 4) = seq \<and>
      (fl AND 0x10 \<noteq> 0 \<longrightarrow> htonl (le32 b' 8) = rcv_nxt ts) \<and> b' 13 = fl"
    unfolding b' f_def tcp_fields_def Let_def
    by (simp add: nos_buf memcpy_at_outside put16_outside put32_outside)
  moreover have "b' (20 + i) = data i" if "i < unat len" for i
    using that assms(2) unfolding b' f_def tcp_fields_def Let_def
    by (auto simp: put16_outside memcpy_at_def)
  moreover have n1480: "n \<le> 1480" using n assms(1) by (simp add: word_le_nat_alt)
  moreover note tcp_pseudo_fields [OF n1480, of "rip ts"]
  ultimately show ?thesis using n b' by (simp add: Let_def)
qed

definition demo_sock :: tcp_sock where
  "demo_sock = \<lparr>ts_state = TS_ESTABLISHED, refs = 1, rip = net_gateway, rport = 80, lport = 0xD000,
     snd_nxt = 8, snd_una = 8, rcv_nxt = 0xFFFFFFFF, peer_fin = False, reset = False, fin_sent = False,
     close_ticks = 0, rx_head = 0, rx_tail = 0, rx = (\<lambda>_. 0)\<rparr>"

theorem tcp_segment_valid_witness:
  "oc_sum (sum16 (tcp_pseudo net_gateway 23) 0 12 +
     sum16 (fst (tcp_segment demo_sock 0x18 8 (\<lambda>_. 7) 3 False (\<lambda>_. 0))) 0 23) = 65535 \<and>
   unat (snd (tcp_segment demo_sock 0x18 8 (\<lambda>_. 7) 3 False (\<lambda>_. 0))) = 23 \<and>
   htons (le16 (fst (tcp_segment demo_sock 0x18 8 (\<lambda>_. 7) 3 False (\<lambda>_. 0))) 2) = 80"
proof -
  obtain b' n where s: "tcp_segment demo_sock 0x18 8 (\<lambda>_. 7) 3 False (\<lambda>_. 0) = (b', n)" by fastforce
  have v: "unat n = 23" "oc_sum (sum16 (tcp_pseudo (rip demo_sock) n) 0 12 + sum16 b' 0 (unat n)) = 65535"
      "htons (le16 b' 2) = rport demo_sock"
    using tcp_segment_valid [OF _ _ s] by (auto simp: Let_def)
  then have "n = 23" by (simp add: word_unat_eq_iff)
  with s v show ?thesis by (simp add: demo_sock_def)
qed

section \<open>The ring contract and the window\<close>

definition rx_inv :: "tcp_sock \<Rightarrow> bool" where
  "rx_inv ts \<longleftrightarrow> unat (rx_head ts) < 16384 \<and> unat (rx_tail ts) < 16384"

definition rx_items :: "tcp_sock \<Rightarrow> u8 list" where
  "rx_items ts = ring_list 16384 (rx ts) (unat (rx_tail ts)) (unat (rx_head ts))"

lemma rx_next: "unat ((x + 1) mod TCP_RXBUF) = (unat x + 1) mod 16384"
proof -
  have "unat (x + 1) mod 16384 = (unat x + 1) mod 16384"
    by (simp add: unat_word_ariths mod_mod_cancel)
  then show ?thesis by (simp add: TCP_RXBUF_def unat_mod_distrib)
qed

interpretation rxr: array_ring rx_push rx_pop rx "\<lambda>t. unat (rx_head t)" "\<lambda>t. unat (rx_tail t)" 16384
  rx_items rx_inv
  by unfold_locales
    (auto simp: rx_push_def rx_pop_def rx_items_def rx_inv_def Let_def word_unat_eq_iff rx_next
      split: if_splits)

text \<open>
  The advertised window is exactly the free space of the receive ring, between 0 and 16383,
  whichever of the two indices is the larger: the unsigned difference wraps harmlessly.
\<close>

lemma tcp_window_free:
  assumes "rx_inv ts"
  shows "unat (tcp_window ts) = 16383 - length (rx_items ts) \<and> length (rx_items ts) \<le> 16383"
proof -
  define h t where "h = unat (rx_head ts)" and "t = unat (rx_tail ts)"
  have ht: "h < 16384" "t < 16384" using assms by (simp_all add: rx_inv_def h_def t_def)
  have "rx_head ts - rx_tail ts + TCP_RXBUF = rx_head ts + TCP_RXBUF - rx_tail ts" by simp
  also have "unat \<dots> = h + 16384 - t"
    using ht by (subst unat_sub) (simp_all add: word_le_nat_alt TCP_RXBUF_def h_def t_def unat_word_ariths)
  finally have used: "unat ((rx_head ts - rx_tail ts + TCP_RXBUF) mod TCP_RXBUF) = (h + 16384 - t) mod 16384"
    by (simp add: unat_mod_distrib TCP_RXBUF_def)
  define u where "u = (rx_head ts - rx_tail ts + TCP_RXBUF) mod TCP_RXBUF"
  have u: "unat u = length (rx_items ts)"
    using used by (simp add: u_def rx_items_def length_ring_list h_def t_def)
  have le: "length (rx_items ts) \<le> 16383" using rxr.items_bound [OF assms] by simp
  have "unat (TCP_RXBUF - 1 - u) = 16383 - length (rx_items ts)"
    using u le by (subst unat_sub) (simp_all add: word_le_nat_alt TCP_RXBUF_def)
  moreover from this have "unat (ucast (TCP_RXBUF - 1 - u) :: u16) = 16383 - length (rx_items ts)"
    by (simp add: unsigned_ucast_eq take_bit_eq_mod)
  ultimately show ?thesis
    using le by (simp add: tcp_window_def Let_def u_def [symmetric] word_less_nat_alt)
qed

section \<open>Acknowledgements\<close>

definition inflight :: "tcp_sock \<Rightarrow> nat" where
  "inflight ts = unat (snd_nxt ts - snd_una ts)"

lemma sint_cases:
  "sint (x :: u32) = (if unat x < 2147483648 then int (unat x) else int (unat x) - 4294967296)"
proof -
  define n where "n = int (unat x)"
  have "sint x = (n + 2147483648) mod 4294967296 - 2147483648"
    unfolding sint_uint signed_take_bit_eq_take_bit_shift take_bit_eq_mod uint_nat n_def by simp
  moreover have "(n + 2147483648) mod 4294967296 =
      (if unat x < 2147483648 then n + 2147483648 else n - 2147483648)"
  proof (cases "unat x < 2147483648")
    case True
    then have "0 \<le> n + 2147483648" "n + 2147483648 < 4294967296" unfolding n_def by linarith+
    with True show ?thesis by (simp only: mod_pos_pos_trivial if_True)
  next
    case False
    have "n + 2147483648 = (n - 2147483648) + 4294967296" by simp
    then have "(n + 2147483648) mod 4294967296 = (n - 2147483648) mod 4294967296"
      by (simp only: mod_add_self2)
    moreover have "0 \<le> n - 2147483648" "n - 2147483648 < 4294967296"
      using False unat_lt_2p32 [of x] unfolding n_def by linarith+
    ultimately show ?thesis using False by (simp only: mod_pos_pos_trivial if_False)
  qed
  ultimately show ?thesis unfolding n_def by simp
qed

lemma sint_pos: "0 < sint (x :: u32) \<Longrightarrow> unat x < 2147483648"
proof (rule ccontr)
  assume "0 < sint x" and n: "\<not> unat x < 2147483648"
  moreover have "sint x = int (unat x) - 4294967296" unfolding sint_cases using n by (simp only: if_False)
  ultimately show False using unat_lt_2p32 [of x] by linarith
qed

lemma take_ack_inflight:
  assumes "inflight ts < 2147483648"
  shows "inflight (take_ack fl ack ts) \<le> inflight ts"
proof (cases "0 < seq_diff ack (snd_una ts) \<and> seq_diff ack (snd_nxt ts) \<le> 0")
  case True
  define x f where "x = ack - snd_una ts" and "f = snd_nxt ts - snd_una ts"
  have x: "unat x < 2147483648" and le: "sint (x - f) \<le> 0"
    using True by (auto simp: seq_diff_def x_def f_def intro: sint_pos)
  have f: "unat f < 2147483648" using assms by (simp add: inflight_def f_def)
  have "unat x \<le> unat f"
  proof (rule ccontr)
    assume "\<not> unat x \<le> unat f"
    then have "unat (x - f) = unat x - unat f" by (simp add: unat_sub word_le_nat_alt)
    then have b: "0 < unat (x - f)" "unat (x - f) < 2147483648"
      using x \<open>\<not> unat x \<le> unat f\<close> by linarith+
    then have "sint (x - f) = int (unat (x - f))" unfolding sint_cases by (simp only: if_True)
    with b le show False by linarith
  qed
  then have "unat (f - x) = unat f - unat x" by (simp add: unat_sub word_le_nat_alt)
  moreover have "snd_nxt ts - ack = f - x" by (simp add: f_def x_def)
  ultimately have "unat (snd_nxt ts - ack) \<le> unat f" by simp
  then show ?thesis by (simp add: take_ack_def inflight_def f_def)
qed (auto simp: take_ack_def)

lemma fill_rx_other:
  "snd_nxt (snd (fill rx_push t xs)) = snd_nxt t" "snd_una (snd (fill rx_push t xs)) = snd_una t"
  "rcv_nxt (snd (fill rx_push t xs)) = rcv_nxt t" "peer_fin (snd (fill rx_push t xs)) = peer_fin t"
  "ts_state (snd (fill rx_push t xs)) = ts_state t"
  by (induction xs arbitrary: t)
    (simp_all add: rx_push_def Let_def case_prod_beta split: option.splits)

lemma drain_rx_other:
  "rcv_nxt (snd (drain rx_pop t n)) = rcv_nxt t" "peer_fin (snd (drain rx_pop t n)) = peer_fin t"
  "ts_state (snd (drain rx_pop t n)) = ts_state t"
  by (induction n arbitrary: t)
    (simp_all add: rx_pop_def Let_def case_prod_beta split: option.splits)

lemma take_sel [simp]:
  "snd_nxt (take_ack fl a t) = snd_nxt t" "ts_state (take_ack fl a t) = ts_state t"
  "snd_nxt (take_data q p n t) = snd_nxt t" "snd_una (take_data q p n t) = snd_una t"
  "peer_fin (take_data q p n t) = peer_fin t" "ts_state (take_data q p n t) = ts_state t"
  "snd_nxt (take_fin fl q n t) = snd_nxt t" "snd_una (take_fin fl q n t) = snd_una t"
  "ts_state (take_fin fl q n t) = ts_state t"
  by (simp_all add: take_ack_def take_data_def take_fin_def ring_put_def case_prod_beta fill_rx_other)

lemma tcp_deliver_other: "j \<noteq> i \<Longrightarrow> socks (tcp_deliver i fl q a p n s) j = socks s j"
  by (simp add: tcp_deliver_def Let_def)

lemma tcp_deliver_sends:
  assumes "inflight (socks s i) < 2147483648"
  shows "inflight (socks (tcp_deliver i fl q a p n s) i) \<le> inflight (socks s i) \<and>
    snd_nxt (socks (tcp_deliver i fl q a p n s) i) = snd_nxt (socks s i)"
  using take_ack_inflight [OF assms, of fl a]
  by (simp add: tcp_deliver_def Let_def inflight_def)

text \<open>
  C15: No segment, whatever a peer puts into it, can acknowledge data that was not sent: for every
  socket, processing a segment leaves the send sequence number alone and never increases
  the unacknowledged distance, as long as less than half the sequence space is in flight.
\<close>

theorem tcp_input_acks:
  assumes "inflight (socks s i) < 2147483648"
  shows "inflight (socks (tcp_input src_ip seg len s) i) \<le> inflight (socks s i) \<and>
    snd_nxt (socks (tcp_input src_ip seg len s) i) = snd_nxt (socks s i)"
proof -
  have "inflight (socks (tcp_deliver j fl q a p n s) i) \<le> inflight (socks s i) \<and>
      snd_nxt (socks (tcp_deliver j fl q a p n s) i) = snd_nxt (socks s i)" for j fl q a p n
    using tcp_deliver_sends [OF assms, of fl q a p n]
    by (cases "i = j") (auto simp: tcp_deliver_other)
  then show ?thesis by (simp add: tcp_input_def Let_def split: option.split)
qed

definition demo_tcp :: tcp where
  "demo_tcp = net.extend demo_net (tcp.fields (\<lambda>i. if i = 1 then demo_sock else
     demo_sock\<lparr>ts_state := TS_FREE\<rparr>) (\<lambda>_. 0) 0)"

lemma demo_tcp_socks [simp]:
  "socks demo_tcp = (\<lambda>i. if i = 1 then demo_sock else demo_sock\<lparr>ts_state := TS_FREE\<rparr>)"
  by (simp add: demo_tcp_def tcp.defs net.defs)

theorem tcp_input_acks_witness:
  "inflight (socks (tcp_input net_gateway (\<lambda>_. 0x50) 20 demo_tcp) 1) = 0"
proof -
  have "inflight (socks demo_tcp 1) = 0" by (simp add: inflight_def demo_sock_def)
  then show ?thesis using tcp_input_acks [of demo_tcp 1 net_gateway "\<lambda>_. 0x50" 20] by simp
qed

section \<open>The received stream\<close>

text \<open>
  The peer sends the bytes \<open>str\<close>, the first with sequence number \<open>base\<close>. \<open>carries\<close> says
  that a segment is one of that peer's, seen by a receiver that has \<open>k\<close> bytes: its data are the
  stream's from some offset on, a FIN marks the end of the stream, and the offset is within
  half the sequence space of \<open>k\<close>, which is what a bounded segment lifetime guarantees.
\<close>

definition carries :: "u32 \<Rightarrow> u8 list \<Rightarrow> nat \<Rightarrow> u8 \<Rightarrow> u32 \<Rightarrow> buf \<Rightarrow> u32 \<Rightarrow> bool" where
  "carries base str k fl seq payload plen \<longleftrightarrow>
     (\<exists>off. off + unat plen \<le> length str \<and> seq = base + of_nat off \<and> unat plen < 65536 \<and>
        buf_list payload 0 (unat plen) = take (unat plen) (drop off str) \<and>
        (fl AND 0x01 \<noteq> 0 \<longrightarrow> off + unat plen = length str) \<and>
        k < off + 2147483648 \<and> off < k + 2147483648)"

definition rx_count :: "u8 list \<Rightarrow> tcp_sock \<Rightarrow> nat" where
  "rx_count d ts = length d + length (rx_items ts)"

text \<open>\<open>d\<close> are the bytes handed out so far.\<close>

definition in_stream :: "u32 \<Rightarrow> u8 list \<Rightarrow> u8 list \<Rightarrow> tcp_sock \<Rightarrow> bool" where
  "in_stream base str d ts \<longleftrightarrow>
     rx_inv ts \<and> ts_state ts \<noteq> TS_SYN_SENT \<and> rx_count d ts \<le> length str \<and>
     d @ rx_items ts = take (rx_count d ts) str \<and>
     rcv_nxt ts = base + of_nat (rx_count d ts) + (if peer_fin ts then 1 else 0) \<and>
     (peer_fin ts \<longrightarrow> rx_count d ts = length str)"

lemma of_nat_window:
  assumes "(of_nat a :: u32) = of_nat b" and "a < b + 4294967296" and "b < a + 4294967296"
  shows "a = b"
proof -
  have "a mod 4294967296 = b mod 4294967296"
    using assms(1) by (simp add: word_unat_eq_iff unat_of_nat)
  moreover have "x = y" if "x mod 4294967296 = y mod 4294967296" "x \<le> y" "y < x + 4294967296" for x y :: nat
  proof -
    have "4294967296 dvd y - x" using that(1,2) by (metis mod_eq_dvd_iff_nat)
    moreover have "y - x < 4294967296" using that(2,3) by simp
    ultimately show ?thesis using that(2) dvd_imp_le [of 4294967296 "y - x"] by linarith
  qed
  ultimately show ?thesis using assms(2,3) by (metis nat_le_linear)
qed

lemma take_data_stream:
  assumes st: "in_stream base str d ts" and c: "carries base str (rx_count d ts) fl seq payload plen"
  shows "in_stream base str d (take_data seq payload plen ts)"
proof (cases "0 < plen \<and> seq = rcv_nxt ts")
  case False
  then show ?thesis using st by (auto simp: take_data_def)
next
  case True
  obtain off where off: "off + unat plen \<le> length str" "seq = base + of_nat off"
      "buf_list payload 0 (unat plen) = take (unat plen) (drop off str)"
      "rx_count d ts < off + 2147483648" "off < rx_count d ts + 2147483648"
    using c unfolding carries_def by blast
  let ?k = "rx_count d ts"
  have pl: "0 < unat plen" using True by (simp add: word_less_nat_alt)
  have nofin: "\<not> peer_fin ts"
  proof
    assume "peer_fin ts"
    with st have "?k = length str" "rcv_nxt ts = base + of_nat (?k + 1)"
      by (simp_all add: in_stream_def)
    with True off(2) have "(of_nat off :: u32) = of_nat (?k + 1)" by simp
    then have "off = ?k + 1" using off(4,5) by (intro of_nat_window) simp_all
    with off(1) pl \<open>?k = length str\<close> show False by simp
  qed
  with st True off(2) have "(of_nat off :: u32) = of_nat ?k" by (simp add: in_stream_def)
  then have k: "off = ?k" using off(4,5) by (intro of_nat_window) simp_all
  obtain n t where f: "fill rx_push ts (buf_list payload 0 (unat plen)) = (n, t)" by fastforce
  have inv: "rx_inv ts" using st by (simp add: in_stream_def)
  have spec: "rx_inv t" "n \<le> unat plen" "rx_items t = rx_items ts @ take n (drop ?k str)"
    using rxr.fill_spec [OF inv f] off(3) k by (auto simp: min_def)
  have other: "rcv_nxt t = rcv_nxt ts" "peer_fin t = peer_fin ts" "ts_state t = ts_state ts"
    using fill_rx_other [of ts "buf_list payload 0 (unat plen)"] f by simp_all
  have cnt: "rx_count d t = ?k + n"
    using spec off(1) k by (simp add: rx_count_def)
  have items: "rx_items (t\<lparr>rcv_nxt := v\<rparr>) = rx_items t" "rx_inv (t\<lparr>rcv_nxt := v\<rparr>) = rx_inv t"
      "rx_count d (t\<lparr>rcv_nxt := v\<rparr>) = rx_count d t" for v
    by (simp_all add: rx_items_def rx_inv_def rx_count_def)
  have "take_data seq payload plen ts = t\<lparr>rcv_nxt := rcv_nxt t + of_nat n\<rparr>"
    using True f by (simp add: take_data_def ring_put_def)
  then show ?thesis
    using st spec off(1) k nofin other cnt
    by (simp add: in_stream_def items take_add append_assoc [symmetric] del: append_assoc)
qed

lemma take_fin_stream:
  assumes st: "in_stream base str d ts" and c: "carries base str k fl seq payload plen"
    and k: "k \<le> rx_count d ts"
  shows "in_stream base str d (take_fin fl seq plen ts)"
proof (cases "fl AND 0x01 \<noteq> 0 \<and> \<not> peer_fin ts \<and> seq + plen = rcv_nxt ts")
  case False
  then show ?thesis using st by (auto simp: take_fin_def)
next
  case True
  obtain off where off: "off + unat plen = length str" "seq = base + of_nat off"
      "off < k + 2147483648" "unat plen < 65536"
    using c True unfolding carries_def by blast
  have "(plen :: u32) = of_nat (unat plen)" by simp
  with True st off(2) have "(of_nat (off + unat plen) :: u32) = of_nat (rx_count d ts)"
    by (simp add: in_stream_def)
  moreover have "rx_count d ts \<le> length str" using st by (simp add: in_stream_def)
  ultimately have "off + unat plen = rx_count d ts"
    using off k by (intro of_nat_window) simp_all
  moreover have "rx_items (ts\<lparr>rcv_nxt := v, peer_fin := f\<rparr>) = rx_items ts" for v f
    by (simp add: rx_items_def)
  ultimately show ?thesis
    using st True off(1) by (simp add: in_stream_def take_fin_def rx_count_def rx_inv_def)
qed

lemma in_stream_view:
  assumes "rx t = rx ts" "rx_head t = rx_head ts" "rx_tail t = rx_tail ts" "rcv_nxt t = rcv_nxt ts"
    "peer_fin t = peer_fin ts" "ts_state t = TS_SYN_SENT \<longrightarrow> ts_state ts = TS_SYN_SENT"
    and "in_stream base str d ts"
  shows "in_stream base str d t"
  using assms by (auto simp: in_stream_def rx_count_def rx_items_def rx_inv_def)

lemma rx_count_mono: "rx_inv ts \<Longrightarrow> rx_count d ts \<le> rx_count d (take_data q p n ts)"
proof (cases "0 < n \<and> q = rcv_nxt ts")
  case True
  assume inv: "rx_inv ts"
  obtain m t where f: "fill rx_push ts (buf_list p 0 (unat n)) = (m, t)" by fastforce
  with rxr.fill_spec [OF inv f] True show ?thesis
    by (simp add: take_data_def ring_put_def rx_count_def rx_items_def [of "t\<lparr>rcv_nxt := _\<rparr>"])
      (simp add: rx_items_def [of t, symmetric])
qed (auto simp: take_data_def)

lemma tcp_deliver_stream:
  assumes st: "in_stream base str d (socks s i)"
    and c: "carries base str (rx_count d (socks s i)) fl seq payload plen"
  shows "in_stream base str d (socks (tcp_deliver i fl seq ack payload plen s) i)"
proof -
  let ?t = "take_ack fl ack (socks s i)"
  have t: "in_stream base str d ?t" by (rule in_stream_view [OF _ _ _ _ _ _ st]) (simp_all add: take_ack_def)
  have cnt: "rx_count d ?t = rx_count d (socks s i)" by (simp add: rx_count_def rx_items_def take_ack_def)
  have "rx_inv ?t" using t by (simp add: in_stream_def)
  then have le: "rx_count d (socks s i) \<le> rx_count d (take_data seq payload plen ?t)"
    using rx_count_mono cnt by metis
  have "in_stream base str d (take_data seq payload plen ?t)"
    using take_data_stream [OF t] c cnt by simp
  then have new: "in_stream base str d (take_fin fl seq plen (take_data seq payload plen ?t))"
    using take_fin_stream c le by blast
  have upd: "in_stream base str d (t'\<lparr>ts_state := v\<rparr>)" "in_stream base str d (t'\<lparr>reset := True, ts_state := v\<rparr>)"
    if "v \<noteq> TS_SYN_SENT" "in_stream base str d t'" for t' v
    using that by (auto intro: in_stream_view [OF _ _ _ _ _ _ that(2)])
  have "ts_state (socks s i) \<noteq> TS_SYN_SENT" using st by (simp add: in_stream_def)
  then show ?thesis using new st by (simp add: tcp_deliver_def Let_def upd)
qed

text \<open>
  One step of socket \<open>i\<close>: a segment arrives, which is the peer's if the socket matches it; the
  owner takes bytes out; or something happens that leaves the receive side alone, such as
  a send, a close or traffic of another socket.
\<close>

inductive rx_step :: "nat \<Rightarrow> u32 \<Rightarrow> u8 list \<Rightarrow> tcp \<times> u8 list \<Rightarrow> tcp \<times> u8 list \<Rightarrow> bool" for i base str where
  segment: "(find_sock src seg s = Some i \<longrightarrow>
      carries base str (rx_count d (socks s i)) (seg 13) (htonl (le32 seg 4))
        (\<lambda>k. seg (unat (ucast (drop_bit 4 (seg 12)) * 4 :: u32) + k))
        (len - ucast (drop_bit 4 (seg 12)) * 4)) \<Longrightarrow>
    rx_step i base str (s, d) (tcp_input src seg len s, d)"
| receive: "recv_section i n s = (xs, s') \<Longrightarrow> rx_step i base str (s, d) (s', d @ xs)"
| other: "rx (socks s' i) = rx (socks s i) \<Longrightarrow> rx_head (socks s' i) = rx_head (socks s i) \<Longrightarrow>
    rx_tail (socks s' i) = rx_tail (socks s i) \<Longrightarrow> rcv_nxt (socks s' i) = rcv_nxt (socks s i) \<Longrightarrow>
    peer_fin (socks s' i) = peer_fin (socks s i) \<Longrightarrow> ts_state (socks s' i) \<noteq> TS_SYN_SENT \<Longrightarrow>
    rx_step i base str (s, d) (s', d)"

inductive rx_run :: "nat \<Rightarrow> u32 \<Rightarrow> u8 list \<Rightarrow> tcp \<times> u8 list \<Rightarrow> bool" for i base str where
  established: "ts_state (socks s i) = TS_ESTABLISHED \<Longrightarrow> rcv_nxt (socks s i) = base \<Longrightarrow>
    rx_head (socks s i) = 0 \<Longrightarrow> rx_tail (socks s i) = 0 \<Longrightarrow> \<not> peer_fin (socks s i) \<Longrightarrow>
    rx_run i base str (s, [])"
| step: "rx_run i base str c \<Longrightarrow> rx_step i base str c c' \<Longrightarrow> rx_run i base str c'"

lemma rx_step_stream:
  assumes "rx_step i base str c c'" and "in_stream base str (snd c) (socks (fst c) i)"
  shows "in_stream base str (snd c') (socks (fst c') i)"
  using assms
proof (induction rule: rx_step.induct)
  case (segment src seg s d len)
  then show ?case
    by (cases "find_sock src seg s = Some i")
      (auto simp: tcp_input_def Let_def tcp_deliver_other intro: tcp_deliver_stream split: option.split)
next
  case (receive n s xs s' d)
  obtain ts where dr: "drain rx_pop (socks s i) n = (xs, ts)" and s': "socks s' i = ts"
    using receive(1) by (auto simp: recv_section_def split: prod.splits)
  have inv: "rx_inv (socks s i)" using receive(2) by (simp add: in_stream_def)
  have "rcv_nxt ts = rcv_nxt (socks s i)" "peer_fin ts = peer_fin (socks s i)"
      "ts_state ts = ts_state (socks s i)"
    using drain_rx_other [of "socks s i" n] dr by simp_all
  moreover have it: "rx_inv ts" "rx_items (socks s i) = xs @ rx_items ts"
    using rxr.drain_spec [OF inv dr] by auto
  moreover from it have "rx_count (d @ xs) ts = rx_count d (socks s i)" by (simp add: rx_count_def)
  ultimately show ?case using receive(2) by (simp add: in_stream_def s')
next
  case (other s' s d)
  then show ?case by (auto intro: in_stream_view)
qed

lemma rx_run_stream: "rx_run i base str c \<Longrightarrow> in_stream base str (snd c) (socks (fst c) i)"
proof (induction rule: rx_run.induct)
  case (established s)
  then have "rx_items (socks s i) = []" by (simp add: rx_items_def ring_list_def)
  with established show ?case by (simp add: in_stream_def rx_inv_def rx_count_def)
qed (rule rx_step_stream)

text \<open>
  C2: Receive-side correctness of TCP. Whatever the network does to the peer's segments
  (loss, duplication, reordering, retransmission with other boundaries) and however reads
  interleave with them, the bytes handed to the task followed by those in the ring are a prefix
  of the peer's stream; once the FIN has been accepted they are the whole stream, so a read
  that finds the ring empty and reports end of file has delivered every byte. At most 16383
  bytes are buffered.
\<close>

theorem tcp_stream:
  assumes "rx_run i base str (s, d)"
  shows "d @ rx_items (socks s i) = take (length d + length (rx_items (socks s i))) str \<and>
    (peer_fin (socks s i) \<longrightarrow> d @ rx_items (socks s i) = str) \<and>
    (peer_fin (socks s i) \<and> rx_items (socks s i) = [] \<longrightarrow> d = str) \<and>
    length (rx_items (socks s i)) \<le> 16383"
proof -
  have st: "in_stream base str d (socks s i)" using rx_run_stream [OF assms] by simp
  then have "length (rx_items (socks s i)) \<le> 16383"
    using rxr.items_bound [of "socks s i"] by (simp add: in_stream_def)
  with st show ?thesis by (auto simp: in_stream_def rx_count_def)
qed

text \<open>A segment with the bytes 72 and 105 and a FIN, for a socket whose next expected byte has the
  last sequence number before the wrap.\<close>

definition demo_seg :: buf where
  "demo_seg = list_buf [0x00, 0x50, 0xD0, 0x00, 0xFF, 0xFF, 0xFF, 0xFF, 0, 0, 0, 8, 0x50, 0x11,
     0, 0, 0, 0, 0, 0, 72, 105]"

lemma demo_seg_fields:
  "le16 demo_seg 0 = htons 80" "le16 demo_seg 2 = htons 0xD000" "htonl (le32 demo_seg 4) = 0xFFFFFFFF"
  "htonl (le32 demo_seg 8) = 8" "demo_seg 12 = 0x50" "demo_seg 13 = 0x11"
  "buf_list (\<lambda>k. demo_seg (20 + k)) 0 2 = [72, 105]"
  by (simp_all add: demo_seg_def list_buf_def le16_def le32_def htons_def htonl_def buf_list_def upt_rec)

lemma demo_find: "find_sock net_gateway demo_seg demo_tcp = Some 1"
  by (simp add: find_sock_def demo_seg_fields TCP_SOCKS_def demo_sock_def upt_rec)

lemma demo_input_fin: "peer_fin (socks (tcp_input net_gateway demo_seg 22 demo_tcp) 1)"
  by (simp add: tcp_input_def demo_find demo_seg_fields tcp_deliver_def Let_def demo_sock_def take_ack_def
    take_data_def take_fin_def ring_put_def rx_push_def TCP_RXBUF_def seq_diff_def)

theorem tcp_stream_witness:
  "rx_run 1 0xFFFFFFFF [72, 105] (tcp_input net_gateway demo_seg 22 demo_tcp, []) \<and>
   rx_items (socks (tcp_input net_gateway demo_seg 22 demo_tcp) 1) = [72, 105]"
proof -
  have start: "rx_run 1 0xFFFFFFFF [72, 105] (demo_tcp, [])"
    by (rule rx_run.established) (simp_all add: demo_sock_def)
  have "rx_count [] demo_sock = 0"
    by (simp add: rx_count_def rx_items_def ring_list_def demo_sock_def)
  then have "carries 0xFFFFFFFF [72, 105] (rx_count [] (socks demo_tcp 1)) 0x11 0xFFFFFFFF
      (\<lambda>k. demo_seg (20 + k)) 2"
    unfolding carries_def by (intro exI [of _ 0]) (simp add: demo_seg_fields)
  then have run: "rx_run 1 0xFFFFFFFF [72, 105] (tcp_input net_gateway demo_seg 22 demo_tcp, [])"
    by (intro rx_run.step [OF start] rx_step.segment) (simp add: demo_seg_fields)
  with tcp_stream [OF run] demo_input_fin show ?thesis by simp
qed

end
