(* ===== verification/Net_Input.thy ===== *)
theory Net_Input
  imports Tcp
begin

text \<open>
  Frame input: the demultiplexers \<^verbatim>\<open>ip_input\<close> and \<^verbatim>\<open>net_rx\<close> of \<^verbatim>\<open>kernel/net.c\<close> and the receive
  side of \<^verbatim>\<open>drivers/rtl8139.c\<close>. The chip writes the receive ring while the handler
  runs; the list given to \<open>rx_drain\<close> holds the contents of the ring at each read of the
  command register that finds it non-empty, so the loop ends when the list does.
\<close>

definition ip_input :: "buf \<Rightarrow> u32 \<Rightarrow> 'a tcp_scheme \<Rightarrow> 'a tcp_scheme option" where
  "ip_input pkt len s =
     (if len < 20 then Some s
      else if pkt 0 \<noteq> 0x45 \<or> le32 pkt 16 \<noteq> net_ip then Some s
      else if le16 pkt 6 AND htons 0x3FFF \<noteq> 0 then Some s
      else
        let tot = ucast (htons (le16 pkt 2)) :: u32
        in if tot < 20 \<or> len < tot then Some s
           else if pkt 9 = 6 then Some (tcp_input (le32 pkt 12) (\<lambda>i. pkt (20 + i)) (tot - 20) s)
           else if pkt 9 = 17 then udp_input (\<lambda>i. pkt (20 + i)) (tot - 20) s
           else Some s)"

definition net_rx :: "buf \<Rightarrow> u32 \<Rightarrow> 'a tcp_scheme \<Rightarrow> 'a tcp_scheme option" where
  "net_rx frm len s =
     (if len < 14 then Some s
      else if le16 frm 12 = htons 0x0806 then Some (arp_input (\<lambda>i. frm (14 + i)) (len - 14) s)
      else if le16 frm 12 = htons 0x0800 then ip_input (\<lambda>i. frm (14 + i)) (len - 14) s
      else Some s)"

definition RX_RING_SIZE :: u32 where
  "RX_RING_SIZE = 8192"

text \<open>Packets are dword-aligned in the ring; a frame may run past the ring into the slack.\<close>

definition rx_next_off :: "u32 \<Rightarrow> u16 \<Rightarrow> u32" where
  "rx_next_off off len =
     (let o1 = (off + 4 + ucast len + 3) AND NOT 3
      in if RX_RING_SIZE \<le> o1 then o1 - RX_RING_SIZE else o1)"

primrec rx_drain :: "buf list \<Rightarrow> 'a tcp_scheme \<Rightarrow> 'a tcp_scheme option" where
  "rx_drain [] s = Some s"
| "rx_drain (b # bs) s =
     (let pkt = unat (rx_off s); status = le16 b pkt; len = le16 b (pkt + 2)
      in if status AND 1 = 0 \<or> len < 8 \<or> 1522 < len
         then Some (s\<lparr>rx_off := 0, capr := - 16\<rparr>)
         else case net_rx (\<lambda>i. b (pkt + 4 + i)) (ucast len - 4) s of
           None \<Rightarrow> None
         | Some s1 \<Rightarrow>
             let o2 = rx_next_off (rx_off s1) len
             in rx_drain bs (s1\<lparr>rx_off := o2, capr := ucast (o2 - 16)\<rparr>))"

text \<open>\<open>isr\<close> is the value of the status register; the mask is ROK, RER, RXOVW and FOVW.\<close>

definition rtl8139_irq :: "u16 \<Rightarrow> buf list \<Rightarrow> 'a tcp_scheme \<Rightarrow> 'a tcp_scheme option" where
  "rtl8139_irq isr bs s =
     (if \<not> nic_present s then Some s
      else if isr AND 0x53 \<noteq> 0 then rx_drain bs s
      else Some s)"

section \<open>Input reads nothing outside the frame\<close>

lemma memcpy_cong:
  "(\<And>i. i < n \<Longrightarrow> q (sp + i) = p (sp + i)) \<Longrightarrow> memcpy_at d dp q sp n = memcpy_at d dp p sp n"
proof (intro ext)
  fix i
  assume "\<And>i. i < n \<Longrightarrow> q (sp + i) = p (sp + i)"
  from this [of "i - dp"] show "memcpy_at d dp q sp n i = memcpy_at d dp p sp n i"
    by (auto simp: memcpy_at_def add.commute)
qed

lemma arp_send_cong: "agree 6 p q \<Longrightarrow> arp_send op q ip s = arp_send op p ip s"
proof -
  assume "agree 6 p q"
  then have c: "memcpy_at d dp q 0 6 = memcpy_at d dp p 0 6" for d dp
    by (intro memcpy_cong) (simp add: agreeD)
  show ?thesis by (simp add: arp_send_def eth_tx_def c Let_def)
qed

lemma arp_input_agree:
  assumes "agree (unat len) p q"
  shows "arp_input q len s = arp_input p len s"
proof (cases "len < 28")
  case False
  then have l: "28 \<le> unat len" by (simp add: word_less_nat_alt)
  then have "le16 q i = le16 p i" if "i < 10" for i using that by (intro agree_le16 [OF assms]) simp
  moreover have "le32 q i = le32 p i" if "i \<le> 24" for i
    using that l by (intro agree_le32 [OF assms]) simp
  moreover have "arp_send 2 (\<lambda>i. q (8 + i)) ip s = arp_send 2 (\<lambda>i. p (8 + i)) ip s" for ip
    using l by (intro arp_send_cong agree_shift [OF assms]) simp
  moreover have "memcpy_at d 0 q 8 6 = memcpy_at d 0 p 8 6" for d
    using l by (intro memcpy_cong agreeD [OF assms]) simp
  ultimately show ?thesis by (simp add: arp_input_def)
qed (simp add: arp_input_def)

lemma tcp_deliver_cong:
  "buf_list p 0 (unat n) = buf_list q 0 (unat n) \<Longrightarrow>
   tcp_deliver i fl sq ak q n s = tcp_deliver i fl sq ak p n s"
proof -
  assume "buf_list p 0 (unat n) = buf_list q 0 (unat n)"
  then have "take_data sq q n = take_data sq p n"
    by (intro ext) (simp add: take_data_def ring_put_def)
  then show ?thesis by (simp only: tcp_deliver_def)
qed

lemma tcp_input_agree:
  assumes "agree (unat len) p q"
  shows "tcp_input src q len s = tcp_input src p len s"
proof (cases "len < 20")
  case False
  then have l: "20 \<le> unat len" by (simp add: word_less_nat_alt)
  have b: "q 12 = p 12" "q 13 = p 13" using l by (auto intro: agreeD [OF assms])
  have h: "le16 q 0 = le16 p 0" "le16 q 2 = le16 p 2" "le32 q 4 = le32 p 4" "le32 q 8 = le32 p 8"
    using l by (auto intro!: agree_le16 [OF assms] agree_le32 [OF assms])
  define d where "d = (ucast (drop_bit 4 (p 12)) * 4 :: u32)"
  have "tcp_deliver i fl sq ak (\<lambda>k. q (unat d + k)) (len - d) s =
      tcp_deliver i fl sq ak (\<lambda>k. p (unat d + k)) (len - d) s" if "\<not> len < d" for i fl sq ak
  proof (rule tcp_deliver_cong, rule buf_list_cong)
    fix k
    assume k: "0 \<le> k" "k < 0 + unat (len - d)"
    have "d \<le> len" using that by simp
    then have "unat (len - d) = unat len - unat d" by (rule unat_sub)
    then show "p (unat d + k) = q (unat d + k)" using k by (intro agreeD [OF assms, symmetric]) simp
  qed
  then show ?thesis
    using False by (simp add: tcp_input_def find_sock_def b h d_def [symmetric] Let_def split: option.split)
qed (simp add: tcp_input_def)

lemma ip_input_agree:
  assumes "agree (unat len) p q"
  shows "\<exists>s'. ip_input p len s = Some s' \<and> ip_input q len s = Some s'"
proof (cases "len < 20")
  case True
  then show ?thesis by (simp add: ip_input_def)
next
  case False
  then have l: "20 \<le> unat len" by (simp add: word_less_nat_alt)
  have b: "q 0 = p 0" "q 9 = p 9" using l by (auto intro!: agreeD [OF assms])
  have h: "le16 q 2 = le16 p 2" "le16 q 6 = le16 p 6" "le32 q 12 = le32 p 12" "le32 q 16 = le32 p 16"
    using l by (auto intro!: agree_le16 [OF assms] agree_le32 [OF assms])
  define t where "t = (ucast (htons (le16 p 2)) :: u32)"
  show ?thesis
  proof (cases "t < 20 \<or> len < t")
    case True
    then show ?thesis by (simp add: ip_input_def b h t_def [symmetric] Let_def)
  next
    case ok: False
    then have t: "unat (t - 20) = unat t - 20" "20 \<le> unat t" "unat t \<le> unat len"
      by (simp_all add: unat_sub word_less_nat_alt word_le_nat_alt)
    have "unat t < 65536" by (simp add: t_def)
    then have small: "unat (t - 20) \<le> 65535" using t by linarith
    have ag: "agree (unat (t - 20)) (\<lambda>i. p (20 + i)) (\<lambda>i. q (20 + i))"
      using t by (intro agree_shift [OF assms]) simp
    obtain s' where "udp_input (\<lambda>i. p (20 + i)) (t - 20) s = Some s'"
        "udp_input (\<lambda>i. q (20 + i)) (t - 20) s = Some s'"
      using udp_input_total [OF small ag] by blast
    then show ?thesis
      using tcp_input_agree [OF ag] by (auto simp: ip_input_def b h t_def [symmetric] Let_def)
  qed
qed

lemma net_rx_agree:
  assumes "agree (unat len) p q"
  shows "\<exists>s'. net_rx p len s = Some s' \<and> net_rx q len s = Some s'"
proof (cases "len < 14")
  case True
  then show ?thesis by (simp add: net_rx_def)
next
  case False
  then have l: "unat (len - 14) = unat len - 14" "14 \<le> unat len"
    by (simp_all add: unat_sub word_less_nat_alt word_le_nat_alt)
  have ag: "agree (unat (len - 14)) (\<lambda>i. p (14 + i)) (\<lambda>i. q (14 + i))"
    using l by (intro agree_shift [OF assms]) simp
  have "le16 q 12 = le16 p 12" using l by (intro agree_le16 [OF assms]) simp
  then show ?thesis
    using ip_input_agree [OF ag, of s] arp_input_agree [OF ag, of s] False by (auto simp: net_rx_def)
qed

text \<open>
  C13: Input processing is total and memory safe on hostile frames: for every frame of every length,
  \<^verbatim>\<open>net_rx\<close> returns, the DNS name walk included, and its effect depends only on the bytes of the
  frame, so nothing behind the received length is ever looked at.
\<close>

theorem net_rx_total:
  assumes "\<forall>i < unat len. f i = g i"
  shows "\<exists>s'. net_rx f len s = Some s' \<and> net_rx g len s = Some s'"
  using net_rx_agree [of len f g s] assms by (simp add: agree_def)

theorem net_rx_total_witness:
  "\<exists>s'. net_rx (\<lambda>i. if i < 60 then 0xC0 else 1) 60 demo_tcp = Some s' \<and>
     net_rx (\<lambda>i. if i < 60 then 0xC0 else 2) 60 demo_tcp = Some s'"
  by (rule net_rx_total) simp

section \<open>A packet sent is a packet received\<close>

lemma ip_frame_header:
  fixes f seg :: buf and dst_ip :: u32 and proto :: u8 and s :: "'a net_scheme"
  assumes "len \<le> 1480"
  defines "f \<equiv> \<lambda>i. ip_frame dst_ip proto seg len s (14 + i)"
  shows "f 0 = 0x45" "htons (le16 f 2) = 20 + ucast len" "le16 f 6 = htons 0x4000" "f 9 = proto"
    "le32 f 12 = net_ip" "le32 f 16 = dst_ip" "agree (unat len) (\<lambda>i. f (20 + i)) seg"
proof -
  have sh: "le16 (\<lambda>i. b (14 + i)) k = le16 b (14 + k)" "le32 (\<lambda>i. b (14 + i)) k = le32 b (14 + k)"
    for b :: buf and k by (simp_all add: le16_def le32_def add.assoc)
  note ff = ip_frame_fields [OF assms(1), where dst_ip = dst_ip and proto = proto and seg = seg and s = s]
  show "f 0 = 0x45" "htons (le16 f 2) = 20 + ucast len" "f 9 = proto" "le32 f 12 = net_ip"
      "le32 f 16 = dst_ip"
    using ff by (simp_all add: f_def sh)
  show "le16 f 6 = htons 0x4000" using ff(4) by (simp add: f_def sh) (metis htons_htons)
  show "agree (unat len) (\<lambda>i. f (20 + i)) seg" using ff(8) by (simp add: f_def agree_def)
qed

lemma ip_input_accepts:
  assumes "pkt 0 = 0x45" "htons (le16 pkt 2) = 20 + ucast len" "le16 pkt 6 = htons 0x4000"
    "le32 pkt 12 = src" "le32 pkt 16 = net_ip" "agree (unat len) (\<lambda>i. pkt (20 + i)) seg"
    and "len \<le> 1480" and "20 + unat len \<le> unat n"
  shows "ip_input pkt n s = (if pkt 9 = 6 then Some (tcp_input src seg len s)
    else if pkt 9 = 17 then udp_input seg len s else Some s)"
proof -
  have l: "unat len \<le> 1480" using assms(7) by (simp add: word_le_nat_alt)
  have tot: "ucast (20 + ucast len :: u16) = (20 + len :: u32)" "unat (20 + len) = 20 + unat len"
    using l by (simp_all add: word_unat_eq_iff unat_word_ariths unsigned_ucast_eq take_bit_eq_mod)
  have fit: "\<not> n < 20" "\<not> (20 + len :: u32) < 20" "\<not> n < 20 + len"
    using tot(2) assms(8) by (simp_all add: word_less_nat_alt)
  have frag: "htons 0x4000 AND htons 0x3FFF = 0" by (simp add: htons_def)
  have "udp_input (\<lambda>i. pkt (20 + i)) len s = udp_input seg len s"
    using udp_input_total [OF _ assms(6), of s] l by auto
  moreover have "tcp_input src (\<lambda>i. pkt (20 + i)) len s = tcp_input src seg len s"
    by (rule tcp_input_agree [OF assms(6), symmetric])
  ultimately show ?thesis using assms(1-5) fit tot frag by (simp add: ip_input_def)
qed

text \<open>
  C14: What \<^verbatim>\<open>net_ip_tx\<close> puts on the wire is what \<^verbatim>\<open>net_rx\<close> takes off it: a frame carrying a
  segment for this host, followed by any amount of padding, is delivered to the transport
  the protocol number names with exactly the segment's bytes and length.
\<close>

theorem net_tx_rx:
  fixes s t :: tcp
  assumes "len \<le> 1480" and "34 + unat len \<le> unat n"
  shows "net_rx (ip_frame net_ip 6 seg len t) n s = Some (tcp_input net_ip seg len s) \<and>
    net_rx (ip_frame net_ip 17 seg len t) n s = udp_input seg len s"
proof -
  have l: "unat len \<le> 1480" using assms(1) by (simp add: word_le_nat_alt)
  have n: "\<not> n < 14" "unat (n - 14) = unat n - 14"
    using assms(2) by (simp_all add: word_less_nat_alt unat_sub word_le_nat_alt)
  have type: "htons 0x0800 \<noteq> htons 0x0806" by (simp add: htons_def)
  have rx: "net_rx (ip_frame net_ip p seg len t) n s =
      ip_input (\<lambda>i. ip_frame net_ip p seg len t (14 + i)) (n - 14) s" for p
    using n(1) ip_frame_fields(1) [OF assms(1), of net_ip p seg t] type by (simp add: net_rx_def)
  have fit: "20 + unat len \<le> unat (n - 14)" using n assms(2) by simp
  note hd = ip_frame_header [OF assms(1), where dst_ip = net_ip and seg = seg and s = t]
  show ?thesis
    unfolding rx
    by (simp only: ip_input_accepts [OF hd(1,2,3,5,6,7) assms(1) fit] hd(4)) simp
qed

theorem net_tx_rx_witness:
  "net_rx (ip_frame net_ip 6 demo_seg 22 demo_tcp) 60 demo_tcp =
     Some (tcp_input net_ip demo_seg 22 demo_tcp)"
  using net_tx_rx [of 22 60 demo_seg demo_tcp demo_tcp] by simp

section \<open>The receive ring of the driver\<close>

definition rx_off_ok :: "'a nic_scheme \<Rightarrow> bool" where
  "rx_off_ok s \<longleftrightarrow> unat (rx_off s) < 8192 \<and> 4 dvd unat (rx_off s)"

text \<open>Nothing above the driver touches its receive position.\<close>

lemma upper_rx_off [simp]:
  "rx_off (arp_input p len s) = rx_off s"
  "rx_off (snd (net_ip_tx d pr g l s)) = rx_off s"
  by (simp_all add: arp_input_def arp_send_def eth_tx_def net_ip_tx_def Let_def)

lemma tcp_rx_off [simp]:
  "rx_off (tcp_input src p len s) = rx_off s"
  by (simp add: tcp_input_def tcp_deliver_def tcp_ack_def tcp_output_def put_sock_def Let_def case_prod_beta
      split: option.split)

lemma udp_rx_off: "udp_input p len s = Some s' \<Longrightarrow> rx_off s' = rx_off s"
  by (auto simp: udp_input_def dns_input_def Let_def split: if_splits option.splits)

lemma net_rx_off: "net_rx f len s = Some s' \<Longrightarrow> rx_off s' = rx_off s"
  by (auto simp: net_rx_def ip_input_def Let_def dest: udp_rx_off split: if_splits)

lemma rx_advance:
  assumes "unat off < 8192" and "unat len \<le> 1522"
  shows "unat (rx_next_off off len) < 8192 \<and> 4 dvd unat (rx_next_off off len)"
proof -
  define o1 where "o1 = (off + 4 + ucast len + 3) AND NOT 3"
  have three: "(3 :: u32) = mask 2" by (simp add: mask_eq_exp_minus_1)
  have "unat (off + 4 + ucast len + 3) = unat off + 4 + unat len + 3"
    using assms(1,2) by (simp add: unat_word_ariths)
  then have o1: "unat o1 = (unat off + 4 + unat len + 3) div 4 * 4"
    unfolding o1_def three unat_and_not_mask by simp
  then have "unat o1 < 16384" using assms(1,2) by simp
  moreover have "4 dvd unat o1" unfolding o1 by simp
  moreover have "unat (o1 - RX_RING_SIZE) = unat o1 - 8192" if "RX_RING_SIZE \<le> o1"
    using that by (simp add: unat_sub RX_RING_SIZE_def)
  moreover have "rx_next_off off len = (if RX_RING_SIZE \<le> o1 then o1 - RX_RING_SIZE else o1)"
    unfolding rx_next_off_def Let_def o1_def by (rule refl)
  ultimately show ?thesis
    by (auto simp: RX_RING_SIZE_def word_le_nat_alt intro: dvd_diff_nat)
qed

text \<open>
  C12: The receive interrupt stays inside its ring. However the chip fills the 10256-byte buffer,
  and whatever it claims as status and length, draining it returns, keeps the read
  offset below 8192 and a multiple of four, and depends only on bytes of the buffer: no
  header or frame is read past its end.
\<close>

theorem rx_drain_bounds:
  assumes "list_all2 (agree 10256) bs cs" and "rx_off_ok s"
  shows "\<exists>s'. rx_drain bs s = Some s' \<and> rx_drain cs s = Some s' \<and> rx_off_ok s'"
  using assms
proof (induction arbitrary: s rule: list_all2_induct)
  case Nil
  then show ?case by simp
next
  case (Cons b bs c cs)
  define off where "off = unat (rx_off s)"
  have off: "off < 8192" using Cons.prems by (simp add: off_def rx_off_ok_def)
  have h: "le16 c off = le16 b off" "le16 c (off + 2) = le16 b (off + 2)"
    using off by (auto intro!: agree_le16 [OF Cons.hyps(1)])
  show ?case
  proof (cases "le16 b off AND 1 = 0 \<or> le16 b (off + 2) < 8 \<or> 1522 < le16 b (off + 2)")
    case True
    then show ?thesis by (simp add: Let_def off_def [symmetric] h rx_off_ok_def del: add_2_eq_Suc')
  next
    case False
    define len where "len = (ucast (le16 b (off + 2)) - 4 :: u32)"
    have n: "unat (le16 b (off + 2)) \<le> 1522" "8 \<le> unat (le16 b (off + 2))"
      using False by (simp_all add: word_less_nat_alt)
    then have "unat len = unat (le16 b (off + 2)) - 4"
      unfolding len_def by (subst unat_sub) (simp_all add: word_le_nat_alt)
    then have "agree (unat len) (\<lambda>i. b (off + 4 + i)) (\<lambda>i. c (off + 4 + i))"
      using off n by (intro agree_shift [OF Cons.hyps(1)]) simp
    then obtain s1 where s1: "net_rx (\<lambda>i. b (off + 4 + i)) len s = Some s1"
        "net_rx (\<lambda>i. c (off + 4 + i)) len s = Some s1"
      using net_rx_agree by blast
    have o: "unat (rx_off s1) < 8192" using net_rx_off [OF s1(1)] off by (simp add: off_def)
    from Cons.IH rx_advance [OF o n(1)] s1 False show ?thesis
      by (simp add: Let_def off_def [symmetric] h len_def [symmetric] rx_off_ok_def del: add_2_eq_Suc')
  qed
qed

theorem rx_drain_bounds_witness:
  "\<exists>s'. rx_drain [\<lambda>_. 0xFF, \<lambda>_. 0xFF] demo_tcp = Some s' \<and> rx_off_ok s'"
  using rx_drain_bounds [of "[\<lambda>_. 0xFF, \<lambda>_. 0xFF]" "[\<lambda>_. 0xFF, \<lambda>_. 0xFF]" demo_tcp]
  by (auto simp: agree_def rx_off_ok_def demo_tcp_def demo_net_def demo_nic_def tcp.defs net.defs nic.defs)

end
