(* ===== verification/Kstring.thy ===== *)
theory Kstring
  imports Nos_Prelude
begin

text \<open>
  \<^verbatim>\<open>kernel/string.c\<close>. The functions work on one byte-addressed memory, so that what a
  forward copy does to overlapping regions is part of the model; the theories of the other
  components copy between distinct objects with \<open>memcpy_at\<close> and \<open>memset_at\<close>, which the
  theorems below justify. A scan that finds no terminator never returns.
\<close>

section \<open>Memory and string functions\<close>

primrec memcpy :: "nat \<Rightarrow> nat \<Rightarrow> nat \<Rightarrow> buf \<Rightarrow> buf" where
  "memcpy 0 dp sp m = m"
| "memcpy (Suc n) dp sp m = memcpy n (dp + 1) (sp + 1) (m(dp := m sp))"

primrec memset_do :: "nat \<Rightarrow> nat \<Rightarrow> u8 \<Rightarrow> buf \<Rightarrow> buf" where
  "memset_do 0 d c m = m(d := c)"
| "memset_do (Suc n) d c m = memset_do n (d + 1) c (m(d := c))"

text \<open>The body of the do-while loop runs once more than the argument of \<open>memset_do\<close>.\<close>

definition memset :: "nat \<Rightarrow> u8 \<Rightarrow> nat \<Rightarrow> buf \<Rightarrow> buf" where
  "memset p c n m = (if n \<noteq> 0 then memset_do (n - 1) p c m else m)"

partial_function (option) strcpy :: "nat \<Rightarrow> nat \<Rightarrow> buf \<Rightarrow> buf option" where
  "strcpy d s m =
     (if m s \<noteq> 0 then strcpy (d + 1) (s + 1) (m(d := m s)) else Some (m(d := m s)))"

partial_function (option) strlen_from :: "nat \<Rightarrow> nat \<Rightarrow> buf \<Rightarrow> nat option" where
  "strlen_from p k m = (if m (p + k) \<noteq> 0 then strlen_from p (k + 1) m else Some k)"

definition strlen :: "nat \<Rightarrow> buf \<Rightarrow> nat option" where
  "strlen p m = strlen_from p 0 m"

primrec strncpy_pad :: "nat \<Rightarrow> nat \<Rightarrow> buf \<Rightarrow> buf" where
  "strncpy_pad 0 s m = m"
| "strncpy_pad (Suc n) s m = strncpy_pad n (s + 1) (m(s := 0))"

primrec strncpy :: "nat \<Rightarrow> nat \<Rightarrow> nat \<Rightarrow> buf \<Rightarrow> buf" where
  "strncpy 0 s s2 m = m"
| "strncpy (Suc n) s s2 m =
     (if m s2 \<noteq> 0 then strncpy n (s + 1) (s2 + 1) (m(s := m s2)) else strncpy_pad (Suc n) s m)"

partial_function (option) strcmp :: "nat \<Rightarrow> nat \<Rightarrow> buf \<Rightarrow> int option" where
  "strcmp a b m =
     (if m a = m b then (if m a = 0 then Some 0 else strcmp (a + 1) (b + 1) m)
      else Some (if m a < m b then -1 else 1))"

primrec memcmp :: "nat \<Rightarrow> nat \<Rightarrow> nat \<Rightarrow> buf \<Rightarrow> int" where
  "memcmp 0 a b m = 0"
| "memcmp (Suc n) a b m =
     (if m a \<noteq> m b then (if m a < m b then -1 else 1) else memcmp n (a + 1) (b + 1) m)"

section \<open>Numbers\<close>

text \<open>Characters are signed: a byte is read as \<open>sint\<close>.\<close>

definition isupper :: "int \<Rightarrow> bool" where
  "isupper c \<longleftrightarrow> 65 \<le> c \<and> c \<le> 90"

definition isalpha :: "int \<Rightarrow> bool" where
  "isalpha c \<longleftrightarrow> (65 \<le> c \<and> c \<le> 90) \<or> (97 \<le> c \<and> c \<le> 122)"

definition isspace :: "int \<Rightarrow> bool" where
  "isspace c \<longleftrightarrow> c = 32 \<or> c = 9 \<or> c = 10"

definition isdigit :: "int \<Rightarrow> bool" where
  "isdigit c \<longleftrightarrow> 48 \<le> c \<and> c \<le> 57"

definition chr :: "buf \<Rightarrow> nat \<Rightarrow> int" where
  "chr m p = sint (m p)"

text \<open>The first character that is not white space and the position after it.\<close>

partial_function (option) skip_space :: "nat \<Rightarrow> buf \<Rightarrow> (int \<times> nat) option" where
  "skip_space s m = (if isspace (chr m s) then skip_space (s + 1) m else Some (chr m s, s + 1))"

text \<open>The sign and the base prefix, common to both conversions: the sign flag, the character,
  the position behind it and the base.\<close>

definition strto_sign :: "int \<Rightarrow> nat \<Rightarrow> buf \<Rightarrow> bool \<times> int \<times> nat" where
  "strto_sign c s m =
     (if c = 45 then (True, chr m s, s + 1)
      else if c = 43 then (False, chr m s, s + 1)
      else (False, c, s))"

definition strto_base :: "int \<Rightarrow> nat \<Rightarrow> int \<Rightarrow> buf \<Rightarrow> int \<times> nat \<times> int" where
  "strto_base c s base m =
     (let (c, s, base) =
        (if (base = 0 \<or> base = 16) \<and> c = 48 \<and> (chr m s = 120 \<or> chr m s = 88)
         then (chr m (s + 1), s + 2, 16)
         else if (base = 0 \<or> base = 2) \<and> c = 48 \<and> (chr m s = 98 \<or> chr m s = 66)
         then (chr m (s + 1), s + 2, 2)
         else (c, s, base))
      in (c, s, if base = 0 then (if c = 48 then 8 else 10) else base))"

definition digit_of :: "int \<Rightarrow> int option" where
  "digit_of c =
     (if isdigit c then Some (c - 48)
      else if isalpha c then Some (c - (if isupper c then 55 else 87))
      else None)"

text \<open>The accumulation loop. The value is the accumulator, the \<^verbatim>\<open>any\<close> flag and the position.\<close>

partial_function (option) strto_loop :: "int \<Rightarrow> u32 \<Rightarrow> int \<Rightarrow> u32 \<Rightarrow> int \<Rightarrow> int \<Rightarrow> nat \<Rightarrow> buf \<Rightarrow>
    (u32 \<times> int \<times> nat) option" where
  "strto_loop base cutoff cutlim acc any c s m =
     (case digit_of c of
        None \<Rightarrow> Some (acc, any, s)
      | Some d \<Rightarrow>
          if base \<le> d then Some (acc, any, s)
          else if any < 0 \<or> cutoff < acc \<or> (acc = cutoff \<and> cutlim < d)
          then strto_loop base cutoff cutlim acc (-1) (chr m s) (s + 1) m
          else strto_loop base cutoff cutlim (acc * of_int base + of_int d) 1 (chr m s) (s + 1) m)"

text \<open>The results are the value and the end pointer.\<close>

definition strtol :: "nat \<Rightarrow> int \<Rightarrow> buf \<Rightarrow> (u32 \<times> nat) option" where
  "strtol nptr base0 m =
     (case skip_space nptr m of
        None \<Rightarrow> None
      | Some (c0, s0) \<Rightarrow>
          let (neg, c1, s1) = strto_sign c0 s0 m;
              (c, s, base) = strto_base c1 s1 base0 m;
              limit = (if neg then 0x80000000 else 0x7FFFFFFF :: u32);
              cutlim = uint (limit mod of_int base);
              cutoff = limit div of_int base
          in case strto_loop base cutoff cutlim 0 0 c s m of
               None \<Rightarrow> None
             | Some (acc, any, e) \<Rightarrow>
                 Some (if any < 0 then (if neg then 0x80000000 else 0x7FFFFFFF)
                       else if neg then - acc else acc,
                       if any \<noteq> 0 then e - 1 else nptr))"

definition strtoul :: "nat \<Rightarrow> int \<Rightarrow> buf \<Rightarrow> (u32 \<times> nat) option" where
  "strtoul nptr base0 m =
     (case skip_space nptr m of
        None \<Rightarrow> None
      | Some (c0, s0) \<Rightarrow>
          let (neg, c1, s1) = strto_sign c0 s0 m;
              (c, s, base) = strto_base c1 s1 base0 m;
              cutoff = 0xFFFFFFFF div of_int base :: u32;
              cutlim = uint (0xFFFFFFFF mod of_int base :: u32)
          in case strto_loop base cutoff cutlim 0 0 c s m of
               None \<Rightarrow> None
             | Some (acc, any, e) \<Rightarrow>
                 Some (if any < 0 then 0xFFFFFFFF else if neg then - acc else acc,
                       if any \<noteq> 0 then e - 1 else nptr))"

section \<open>Copies\<close>

lemma memcpy_eq:
  "dp \<le> sp \<or> sp + n \<le> dp \<Longrightarrow> memcpy n dp sp m = memcpy_at m dp m sp n"
proof (induction n arbitrary: dp sp m)
  case (Suc n)
  define m' where "m' = m(dp := m sp)"
  have "memcpy (Suc n) dp sp m = memcpy_at m' (dp + 1) m' (sp + 1) n"
    using Suc.IH [of "dp + 1" "sp + 1" m'] Suc.prems by (auto simp: m'_def [symmetric])
  also have "\<dots> = memcpy_at m dp m sp (Suc n)"
  proof (intro ext)
    fix i
    have "i - (dp + 1) + (sp + 1) = i - dp + sp" "i - dp + sp \<noteq> dp" if "dp + 1 \<le> i" "i < dp + 1 + n"
      using that Suc.prems by auto
    then show "memcpy_at m' (dp + 1) m' (sp + 1) n i = memcpy_at m dp m sp (Suc n) i"
      by (auto simp: memcpy_at_def m'_def)
  qed
  finally show ?case .
qed simp

lemma memset_do_eq: "memset_do n d c m = memset_at m d c (Suc n)"
proof (induction n arbitrary: d m)
  case 0
  show ?case by (rule ext) (auto simp: memset_at_def)
next
  case (Suc n)
  have "memset_at (m(d := c)) (d + 1) c (Suc n) = memset_at m d c (Suc (Suc n))"
    by (rule ext) (auto simp: memset_at_def)
  then show ?case by (simp only: memset_do.simps Suc.IH)
qed

lemma memset_at_0 [simp]: "memset_at m p c 0 = m"
  by (rule ext) (auto simp: memset_at_def)

lemma memset_eq: "memset p c n m = memset_at m p c n"
  by (cases n) (simp_all add: memset_def memset_do_eq)

text \<open>The NUL-terminated string \<open>xs\<close> stands at \<open>p\<close>.\<close>

definition cstr :: "buf \<Rightarrow> nat \<Rightarrow> u8 list \<Rightarrow> bool" where
  "cstr m p xs \<longleftrightarrow> (\<forall>i < length xs. m (p + i) = xs ! i) \<and> m (p + length xs) = 0 \<and> 0 \<notin> set xs"

lemma cstr_Nil [simp]: "cstr m p [] \<longleftrightarrow> m p = 0"
  by (simp add: cstr_def)

lemma cstr_Cons: "cstr m p (x # xs) \<longleftrightarrow> m p = x \<and> x \<noteq> 0 \<and> cstr m (p + 1) xs"
  by (auto simp: cstr_def All_less_Suc2)

lemma strlen_from_eq: "cstr m (p + k) xs \<Longrightarrow> strlen_from p k m = Some (k + length xs)"
proof (induction xs arbitrary: k)
  case (Cons x xs)
  from Cons.IH [of "k + 1"] Cons.prems show ?case
    by (simp add: cstr_Cons strlen_from.simps [of p k] add.assoc)
qed (simp add: strlen_from.simps)

lemma cstr_upd: "d < p \<or> p + length xs < d \<Longrightarrow> cstr (m(d := v)) p xs = cstr m p xs"
proof -
  assume a: "d < p \<or> p + length xs < d"
  have "(m(d := v)) (p + i) = m (p + i)" if "i \<le> length xs" for i using a that by auto
  then show ?thesis by (simp add: cstr_def)
qed

lemma strcpy_eq:
  "cstr m s xs \<Longrightarrow> d \<le> s \<or> s + length xs < d \<Longrightarrow>
   strcpy d s m = Some (memcpy_at m d m s (Suc (length xs)))"
proof (induction xs arbitrary: d s m)
  case Nil
  then show ?case by (auto simp: strcpy.simps [of d s] memcpy_at_def intro!: ext)
next
  case (Cons x xs)
  define m' where "m' = m(d := m s)"
  have "cstr m' (s + 1) xs" unfolding m'_def using Cons.prems by (subst cstr_upd) (auto simp: cstr_Cons)
  moreover have "d + 1 \<le> s + 1 \<or> s + 1 + length xs < d + 1" using Cons.prems(2) by auto
  ultimately have "strcpy (d + 1) (s + 1) m' = Some (memcpy_at m' (d + 1) m' (s + 1) (Suc (length xs)))"
    by (rule Cons.IH)
  moreover have "memcpy_at m' (d + 1) m' (s + 1) (Suc (length xs)) = memcpy_at m d m s (Suc (length (x # xs)))"
  proof (intro ext)
    fix i
    have "i - (d + 1) + (s + 1) = i - d + s" "i - d + s \<noteq> d" if "d + 1 \<le> i" "i < d + 1 + Suc (length xs)"
      using that Cons.prems(2) by auto
    then show "memcpy_at m' (d + 1) m' (s + 1) (Suc (length xs)) i = memcpy_at m d m s (Suc (length (x # xs))) i"
      by (auto simp: memcpy_at_def m'_def)
  qed
  moreover have "strcpy d s m = strcpy (d + 1) (s + 1) m'"
    using Cons.prems(1) by (subst strcpy.simps) (auto simp: cstr_Cons m'_def)
  ultimately show ?case by simp
qed

lemma strncpy_pad_eq: "strncpy_pad n s m = memset_at m s 0 n"
proof (induction n arbitrary: s m)
  case (Suc n)
  have "memset_at (m(s := 0)) (s + 1) 0 n = memset_at m s 0 (Suc n)"
    by (rule ext) (auto simp: memset_at_def)
  then show ?case by (simp only: strncpy_pad.simps Suc.IH)
qed simp

lemma strncpy_eq:
  "cstr m s2 xs \<Longrightarrow> s + n \<le> s2 \<or> s2 + length xs < s \<Longrightarrow>
   strncpy n s s2 m = memset_at (memcpy_at m s m s2 (min n (length xs))) (s + min n (length xs)) 0 (n - length xs)"
proof (induction n arbitrary: s s2 m xs)
  case (Suc n)
  show ?case
  proof (cases xs)
    case Nil
    with Suc.prems show ?thesis by (simp add: strncpy_pad_eq del: strncpy_pad.simps)
  next
    case (Cons x ys)
    define m' where "m' = m(s := m s2)"
    have "cstr m' (s2 + 1) ys"
      unfolding m'_def using Suc.prems Cons by (subst cstr_upd) (auto simp: cstr_Cons)
    moreover have "s + 1 + n \<le> s2 + 1 \<or> s2 + 1 + length ys < s + 1" using Suc.prems(2) Cons by auto
    ultimately have IH: "strncpy n (s + 1) (s2 + 1) m' = memset_at (memcpy_at m' (s + 1) m' (s2 + 1) (min n (length ys)))
        (s + 1 + min n (length ys)) 0 (n - length ys)" by (rule Suc.IH)
    have "memcpy_at m' (s + 1) m' (s2 + 1) (min n (length ys)) = memcpy_at m s m s2 (Suc (min n (length ys)))"
    proof (intro ext)
      fix i
      have "i - (s + 1) + (s2 + 1) = i - s + s2" "i - s + s2 \<noteq> s"
        if "s + 1 \<le> i" "i < s + 1 + min n (length ys)"
        using that Suc.prems(2) Cons by auto
      then show "memcpy_at m' (s + 1) m' (s2 + 1) (min n (length ys)) i = memcpy_at m s m s2 (Suc (min n (length ys))) i"
        by (auto simp: memcpy_at_def m'_def)
    qed
    moreover have "strncpy (Suc n) s s2 m = strncpy n (s + 1) (s2 + 1) m'"
      using Suc.prems(1) Cons by (simp add: cstr_Cons m'_def)
    ultimately show ?thesis using IH Cons by simp
  qed
qed simp

section \<open>Comparisons\<close>

lemma strcmp_eq:
  "cstr m a xs \<Longrightarrow> cstr m b ys \<Longrightarrow>
   strcmp a b m = Some (if xs = ys then 0 else if ord_class.lexordp xs ys then -1 else 1)"
proof (induction xs arbitrary: a b ys)
  case Nil
  then show ?case by (cases ys) (auto simp: strcmp.simps [of a b] cstr_Cons word_neq_0_conv)
next
  case (Cons x xs)
  then show ?case
    by (cases ys) (auto simp: strcmp.simps [of a b] cstr_Cons)
qed

lemma buf_list_Suc: "buf_list m a (Suc n) = m a # buf_list m (a + 1) n"
  by (rule nth_equalityI) (auto simp: nth_Cons split: nat.split)

lemma memcmp_eq:
  "memcmp n a b m = (if buf_list m a n = buf_list m b n then 0
     else if ord_class.lexordp (buf_list m a n) (buf_list m b n) then -1 else 1)"
  by (induction n arbitrary: a b) (auto simp: buf_list_Suc)

text \<open>
  C36: The memory and string routines compute what their callers assume. The copy and fill loops are
  the bulk operations, for a copy also when the destination starts below an overlapping source;
  \<^verbatim>\<open>strlen\<close>, \<^verbatim>\<open>strcpy\<close> and \<^verbatim>\<open>strncpy\<close> return on terminated strings, \<^verbatim>\<open>strncpy\<close> writing exactly
  \<open>n\<close> bytes, padded with zeros; the comparisons are unsigned lexicographic.
\<close>

theorem string_reference:
  assumes "cstr m p xs" and "cstr m q ys"
  shows "memset d c n m = memset_at m d c n \<and>
    (d \<le> e \<or> e + n \<le> d \<longrightarrow> memcpy n d e m = memcpy_at m d m e n) \<and>
    strlen p m = Some (length xs) \<and>
    (d \<le> p \<or> p + length xs < d \<longrightarrow> strcpy d p m = Some (memcpy_at m d m p (Suc (length xs)))) \<and>
    (d + n \<le> p \<or> p + length xs < d \<longrightarrow> strncpy n d p m =
      memset_at (memcpy_at m d m p (min n (length xs))) (d + min n (length xs)) 0 (n - length xs)) \<and>
    strcmp p q m = Some (if xs = ys then 0 else if ord_class.lexordp xs ys then -1 else 1) \<and>
    memcmp n d e m = (if buf_list m d n = buf_list m e n then 0
      else if ord_class.lexordp (buf_list m d n) (buf_list m e n) then -1 else 1)"
  using assms strlen_from_eq [of m p 0 xs]
  by (simp add: strlen_def memset_eq memcpy_eq strcpy_eq strncpy_eq strcmp_eq memcmp_eq)

theorem string_reference_witness:
  "strcmp 0 3 (list_buf [97, 98, 0, 97, 99, 0]) = Some (-1) \<and>
   strlen 3 (list_buf [97, 98, 0, 97, 99, 0]) = Some 2"
proof -
  have "cstr (list_buf [97, 98, 0, 97, 99, 0]) 0 [97, 98]" "cstr (list_buf [97, 98, 0, 97, 99, 0]) 3 [97, 99]"
    by (simp_all add: cstr_Cons list_buf_def)
  from string_reference [OF this] string_reference [OF this(2,1)] show ?thesis by simp
qed

section \<open>Decimal numbers\<close>

definition dec_val :: "nat \<Rightarrow> nat list \<Rightarrow> nat" where
  "dec_val v ds = foldl (\<lambda>a d. a * 10 + d) v ds"

lemma dec_val_simps [simp]: "dec_val v [] = v" "dec_val v (d # ds) = dec_val (v * 10 + d) ds"
  by (simp_all add: dec_val_def)

lemma dec_val_ge: "v \<le> dec_val v ds"
proof (induction ds arbitrary: v)
  case (Cons d ds)
  have "v \<le> v * 10 + d" by simp
  also have "\<dots> \<le> dec_val (v * 10 + d) ds" by (rule Cons.IH)
  finally show ?case by simp
qed simp

text \<open>The digits \<open>ds\<close> stand at \<open>p\<close>, followed by a character that is no decimal digit.\<close>

definition dec_at :: "buf \<Rightarrow> nat \<Rightarrow> nat list \<Rightarrow> bool" where
  "dec_at m p ds \<longleftrightarrow> (\<forall>i < length ds. ds ! i < 10 \<and> chr m (p + i) = 48 + int (ds ! i)) \<and>
     \<not> isdigit (chr m (p + length ds))"

lemma dec_at_Nil: "dec_at m p [] \<longleftrightarrow> \<not> isdigit (chr m p)"
  by (simp add: dec_at_def)

lemma dec_at_Cons: "dec_at m p (d # ds) \<longleftrightarrow> d < 10 \<and> chr m p = 48 + int d \<and> dec_at m (p + 1) ds"
  by (auto simp: dec_at_def All_less_Suc2)

lemma digit_of_dec: "d < 10 \<Longrightarrow> digit_of (48 + int d) = Some (int d)"
  by (simp add: digit_of_def isdigit_def)

lemma digit_of_other: "\<not> isdigit c \<Longrightarrow> digit_of c = None \<or> (\<exists>d. digit_of c = Some d \<and> 10 \<le> d)"
  by (auto simp: digit_of_def isalpha_def isupper_def)

lemma strto_loop_stop:
  "dec_at m p [] \<Longrightarrow> strto_loop 10 co cl acc any (chr m p) s m = Some (acc, any, s)"
  using digit_of_other [of "chr m p"]
  by (auto simp: dec_at_Nil strto_loop.simps [of 10 co cl acc any "chr m p"])

lemma strto_loop_over:
  "dec_at m p ds \<Longrightarrow> any < 0 \<Longrightarrow> \<exists>acc'. strto_loop 10 co cl acc any (chr m p) (p + 1) m
     = Some (acc', if ds = [] then any else -1, p + length ds + 1)"
proof (induction ds arbitrary: p any)
  case Nil
  then show ?case by (simp add: strto_loop_stop)
next
  case (Cons d ds)
  from Cons.IH [of "p + 1" "-1"] Cons.prems show ?case
    by (simp add: dec_at_Cons strto_loop.simps [of 10 co cl acc any "48 + int d"] digit_of_dec)
qed

lemma strto_loop_dec:
  assumes "dec_at m p ds" and "0 \<le> any" and "v \<le> L" and "L < 4294967296"
  shows "\<exists>acc'. strto_loop 10 (of_nat (L div 10)) (int (L mod 10)) (of_nat v) any (chr m p) (p + 1) m
     = Some (acc', if L < dec_val v ds then -1 else if ds = [] then any else 1, p + length ds + 1) \<and>
     (dec_val v ds \<le> L \<longrightarrow> acc' = of_nat (dec_val v ds))"
  using assms
proof (induction ds arbitrary: p any v)
  case Nil
  then show ?case by (simp add: strto_loop_stop)
next
  case (Cons d ds)
  have d: "d < 10" "chr m p = 48 + int d" "dec_at m (p + 1) ds" using Cons.prems(1) by (simp_all add: dec_at_Cons)
  have words: "(of_nat (L div 10) :: u32) < of_nat v \<longleftrightarrow> L div 10 < v"
      "(of_nat v :: u32) = of_nat (L div 10) \<longleftrightarrow> v = L div 10"
    using Cons.prems(3,4) by (simp_all add: word_less_nat_alt word_unat_eq_iff unat_of_nat)
  have fits: "L div 10 < v \<or> v = L div 10 \<and> L mod 10 < d \<longleftrightarrow> L < v * 10 + d"
    using d(1) div_mult_mod_eq [of L 10] mod_less_divisor [of 10 L] by linarith
  let ?f = "strto_loop 10 (of_nat (L div 10)) (int (L mod 10))"
  have guard: "any < 0 \<or> (of_nat (L div 10) :: u32) < of_nat v \<or>
      ((of_nat v :: u32) = of_nat (L div 10) \<and> int (L mod 10) < int d) \<longleftrightarrow> L < v * 10 + d"
    using Cons.prems(2) words fits by simp
  have "?f (of_nat v) any (chr m p) (p + 1) m =
      (if L < v * 10 + d then ?f (of_nat v) (-1) (chr m (p + 1)) (p + 1 + 1) m
       else ?f (of_nat v * of_int 10 + of_int (int d)) 1 (chr m (p + 1)) (p + 1 + 1) m)"
    unfolding d(2)
    by (subst strto_loop.simps) (use d(1) in \<open>simp only: guard digit_of_dec option.case, simp\<close>)
  moreover have "(of_nat v * of_int 10 + of_int (int d) :: u32) = of_nat (v * 10 + d)" by simp
  ultimately have step: "?f (of_nat v) any (chr m p) (p + 1) m =
      (if L < v * 10 + d then ?f (of_nat v) (-1) (chr m (p + 1)) (p + 1 + 1) m
       else ?f (of_nat (v * 10 + d)) 1 (chr m (p + 1)) (p + 1 + 1) m)" by (simp only:)
  show ?case
  proof (cases "L < v * 10 + d")
    case True
    obtain acc' where "?f (of_nat v) (-1)
        (chr m (p + 1)) (p + 1 + 1) m = Some (acc', if ds = [] then -1 else -1, p + 1 + length ds + 1)"
      using strto_loop_over [OF d(3), of "-1" "of_nat (L div 10)" "int (L mod 10)" "of_nat v"] by auto
    moreover have "L < dec_val (v * 10 + d) ds" using True dec_val_ge [of "v * 10 + d" ds] by linarith
    ultimately show ?thesis using True unfolding step by simp
  next
    case False
    then have "v * 10 + d \<le> L" by simp
    from Cons.IH [OF d(3) _ this Cons.prems(4), of 1] False show ?thesis
      unfolding step by (simp split: if_splits)
  qed
qed

lemma skip_space_eq:
  "\<forall>i < n. isspace (chr m (p + i)) \<Longrightarrow> \<not> isspace (chr m (p + n)) \<Longrightarrow>
   skip_space p m = Some (chr m (p + n), p + n + 1)"
proof (induction n arbitrary: p)
  case (Suc n)
  have "isspace (chr m p)" using Suc.prems(1) by force
  moreover have "skip_space (p + 1) m = Some (chr m (p + 1 + n), p + 1 + n + 1)"
    using Suc.prems by (intro Suc.IH) auto
  ultimately show ?case by (simp add: skip_space.simps [of p])
qed (simp add: skip_space.simps)

text \<open>An optional minus sign and the decimal digits \<open>ds\<close> at \<open>q\<close>.\<close>

definition num_at :: "buf \<Rightarrow> nat \<Rightarrow> bool \<Rightarrow> nat list \<Rightarrow> bool" where
  "num_at m q neg ds \<longleftrightarrow> ds \<noteq> [] \<and> (if neg then chr m q = 45 \<and> dec_at m (q + 1) ds else dec_at m q ds)"

lemma num_at_start:
  assumes "num_at m q neg ds"
  defines "q' \<equiv> q + (if neg then 1 else 0)"
  shows "\<not> isspace (chr m q)" "strto_sign (chr m q) (q + 1) m = (neg, chr m q', q' + 1)" "dec_at m q' ds"
proof -
  obtain d ds' where ds: "ds = d # ds'" using assms(1) by (cases ds) (simp_all add: num_at_def)
  show "\<not> isspace (chr m q)" "strto_sign (chr m q) (q + 1) m = (neg, chr m q', q' + 1)" "dec_at m q' ds"
    using assms(1) ds
    by (auto simp: q'_def num_at_def dec_at_Cons isspace_def strto_sign_def split: if_splits)
qed

lemma strto_base_10: "strto_base c s 10 m = (c, s, 10)"
  by (simp add: strto_base_def)

text \<open>
  C37: Decimal conversion is exact and saturates. For a number after any amount of white space and an
  optional minus sign, \<^verbatim>\<open>strtol\<close> in base 10 returns its value clamped to the 32-bit signed range and
  \<^verbatim>\<open>strtoul\<close> its value, negated modulo \<open>2 ^ 32\<close> after a minus sign, or the largest value
  when the digits exceed it; both return, with the end pointer just behind the last digit.
\<close>

theorem strtol_decimal:
  assumes "\<forall>i < n. isspace (chr m (p + i))" and "num_at m (p + n) neg ds"
  shows "strtol p 10 m = Some
      (if neg then - of_nat (min (dec_val 0 ds) 0x80000000) else of_nat (min (dec_val 0 ds) 0x7FFFFFFF),
       p + n + (if neg then 1 else 0) + length ds) \<and>
    strtoul p 10 m = Some
      (if 0xFFFFFFFF < dec_val 0 ds then 0xFFFFFFFF
       else if neg then - of_nat (dec_val 0 ds) else of_nat (dec_val 0 ds),
       p + n + (if neg then 1 else 0) + length ds)"
proof -
  define q where "q = p + n + (if neg then 1 else 0)"
  define L :: nat where "L = (if neg then 0x80000000 else 0x7FFFFFFF)"
  note st = num_at_start [OF assms(2), folded q_def]
  have sk: "skip_space p m = Some (chr m (p + n), p + n + 1)"
    using assms(1) st(1) by (rule skip_space_eq)
  have ne: "ds \<noteq> []" using assms(2) by (simp add: num_at_def)
  have limits: "(of_nat L :: u32) = (if neg then 0x80000000 else 0x7FFFFFFF)"
      "(of_nat L :: u32) div 10 = of_nat (L div 10)" "uint ((of_nat L :: u32) mod 10) = int (L mod 10)"
    by (simp_all add: L_def)
  have L32: "L < 4294967296" by (simp add: L_def)
  obtain a where a: "strto_loop 10 (of_nat (L div 10)) (int (L mod 10)) 0 0 (chr m q) (q + 1) m
      = Some (a, if L < dec_val 0 ds then -1 else 1, q + length ds + 1)"
      "dec_val 0 ds \<le> L \<longrightarrow> a = of_nat (dec_val 0 ds)"
    using strto_loop_dec [OF st(3) _ _ L32, of 0 0] ne by auto
  obtain b where b: "strto_loop 10 (of_nat (0xFFFFFFFF div 10)) (int (0xFFFFFFFF mod 10)) 0 0 (chr m q) (q + 1) m
      = Some (b, if 0xFFFFFFFF < dec_val 0 ds then -1 else 1, q + length ds + 1)"
      "dec_val 0 ds \<le> 0xFFFFFFFF \<longrightarrow> b = of_nat (dec_val 0 ds)"
    using strto_loop_dec [OF st(3), of 0 0 "0xFFFFFFFF"] ne by auto
  have "strtol p 10 m = Some (if L < dec_val 0 ds then of_nat L else if neg then - a else a, q + length ds)"
    using sk st(2) a(1) limits
    by (simp add: strtol_def strto_base_10 Let_def split del: if_split) (simp add: L_def)
  moreover have "strtoul p 10 m = Some (if 0xFFFFFFFF < dec_val 0 ds then 0xFFFFFFFF else if neg then - b else b, q + length ds)"
    using sk st(2) b(1) by (simp add: strtoul_def strto_base_10 Let_def)
  ultimately show ?thesis
    using a(2) b(2) unfolding q_def [symmetric] by (auto simp: L_def min_def)
qed

theorem strtol_decimal_witness:
  "strtol 0 10 (list_buf [32, 45, 52, 50, 0]) = Some (- 42, 4)"
proof -
  have "num_at (list_buf [32, 45, 52, 50, 0]) (0 + 1) True [4, 2]"
    by (simp add: num_at_def dec_at_Cons dec_at_Nil chr_def list_buf_def isdigit_def)
  from strtol_decimal [OF _ this] show ?thesis
    by (simp add: isspace_def chr_def list_buf_def)
qed

end
