(* ===== verification/Vfs.thy ===== *)
theory Vfs
  imports Nos_Prelude
begin

text \<open>
  \<^verbatim>\<open>kernel/vfs.c\<close>: dispatch through the function pointers of a node, and path resolution.
  A node is a pointer \<open>'n\<close>; \<open>nd s n\<close> is the structure it points to in the state \<open>s\<close>. The
  callbacks are functions of the state, a null pointer is \<open>None\<close>. Paths and names are
  byte lists without the terminator.
\<close>

section \<open>Nodes\<close>

definition FS_FILE :: u32 where
  "FS_FILE = 1"

definition FS_DIRECTORY :: u32 where
  "FS_DIRECTORY = 2"

definition FS_MOUNTPOINT :: u32 where
  "FS_MOUNTPOINT = 8"

record ('n, 's) fs_ops =
  op_create :: "('n \<Rightarrow> u8 list \<Rightarrow> 's \<Rightarrow> 'n option \<times> 's) option"
  op_mkdir :: "('n \<Rightarrow> u8 list \<Rightarrow> 's \<Rightarrow> int \<times> 's) option"
  op_truncate :: "('n \<Rightarrow> 's \<Rightarrow> int \<times> 's) option"

record ('n, 's) fs_node =
  fs_flags :: u32
  fs_inode :: u32
  fs_length :: u32
  fs_ops_tab :: "('n, 's) fs_ops option"
  fs_read :: "('n \<Rightarrow> u32 \<Rightarrow> u32 \<Rightarrow> 's \<Rightarrow> u8 list \<times> 's) option"
  fs_write :: "('n \<Rightarrow> u32 \<Rightarrow> u8 list \<Rightarrow> 's \<Rightarrow> u32 \<times> 's) option"
  fs_open :: "('n \<Rightarrow> 's \<Rightarrow> 's) option"
  fs_close :: "('n \<Rightarrow> 's \<Rightarrow> 's) option"
  fs_readdir :: "('n \<Rightarrow> u32 \<Rightarrow> 's \<Rightarrow> (u8 list \<times> u32) option \<times> 's) option"
  fs_finddir :: "('n \<Rightarrow> u8 list \<Rightarrow> 's \<Rightarrow> 'n option \<times> 's) option"
  fs_ptr :: "'n option"

type_synonym ('n, 's) deref = "'s \<Rightarrow> 'n \<Rightarrow> ('n, 's) fs_node"

section \<open>Dispatch\<close>

text \<open>A read returns the bytes put into the buffer; its return value is their number.\<close>

definition vfs_read :: "('n, 's) deref \<Rightarrow> 'n \<Rightarrow> u32 \<Rightarrow> u32 \<Rightarrow> 's \<Rightarrow> u8 list \<times> 's" where
  "vfs_read nd n offset len s =
     (case fs_read (nd s n) of Some f \<Rightarrow> f n offset len s | None \<Rightarrow> ([], s))"

definition vfs_write :: "('n, 's) deref \<Rightarrow> 'n \<Rightarrow> u32 \<Rightarrow> u8 list \<Rightarrow> 's \<Rightarrow> u32 \<times> 's" where
  "vfs_write nd n offset xs s =
     (case fs_write (nd s n) of Some f \<Rightarrow> f n offset xs s | None \<Rightarrow> (0, s))"

definition vfs_open :: "('n, 's) deref \<Rightarrow> 'n \<Rightarrow> 's \<Rightarrow> 's" where
  "vfs_open nd n s = (case fs_open (nd s n) of Some f \<Rightarrow> f n s | None \<Rightarrow> s)"

definition vfs_close :: "('n, 's) deref \<Rightarrow> 'n \<Rightarrow> 's \<Rightarrow> 's" where
  "vfs_close nd n s = (case fs_close (nd s n) of Some f \<Rightarrow> f n s | None \<Rightarrow> s)"

definition vfs_readdir :: "('n, 's) deref \<Rightarrow> 'n \<Rightarrow> u32 \<Rightarrow> 's \<Rightarrow> (u8 list \<times> u32) option \<times> 's" where
  "vfs_readdir nd n index s =
     (case fs_readdir (nd s n) of
        Some f \<Rightarrow> if fs_flags (nd s n) AND 7 = FS_DIRECTORY then f n index s else (None, s)
      | None \<Rightarrow> (None, s))"

definition vfs_finddir :: "('n, 's) deref \<Rightarrow> 'n \<Rightarrow> u8 list \<Rightarrow> 's \<Rightarrow> 'n option \<times> 's" where
  "vfs_finddir nd n nm s =
     (case fs_finddir (nd s n) of
        Some f \<Rightarrow> if fs_flags (nd s n) AND 7 = FS_DIRECTORY then f n nm s else (None, s)
      | None \<Rightarrow> (None, s))"

definition vfs_follow :: "('n, 's) deref \<Rightarrow> 's \<Rightarrow> 'n \<Rightarrow> 'n" where
  "vfs_follow nd s n =
     (if fs_flags (nd s n) AND FS_MOUNTPOINT \<noteq> 0
      then case fs_ptr (nd s n) of Some r \<Rightarrow> r | None \<Rightarrow> n
      else n)"

definition vfs_create :: "('n, 's) deref \<Rightarrow> 'n option \<Rightarrow> u8 list \<Rightarrow> 's \<Rightarrow> 'n option \<times> 's" where
  "vfs_create nd dir nm s =
     (case dir of
        None \<Rightarrow> (None, s)
      | Some d \<Rightarrow>
          if fs_flags (nd s d) AND 7 \<noteq> FS_DIRECTORY then (None, s)
          else case Option.bind (fs_ops_tab (nd s d)) op_create of
            None \<Rightarrow> (None, s)
          | Some f \<Rightarrow> f d nm s)"

definition vfs_truncate :: "('n, 's) deref \<Rightarrow> 'n option \<Rightarrow> 's \<Rightarrow> int \<times> 's" where
  "vfs_truncate nd node s =
     (case node of
        None \<Rightarrow> (-1, s)
      | Some n \<Rightarrow>
          (case Option.bind (fs_ops_tab (nd s n)) op_truncate of
             None \<Rightarrow> (-1, s)
           | Some f \<Rightarrow> f n s))"

definition vfs_mkdir :: "('n, 's) deref \<Rightarrow> 'n option \<Rightarrow> u8 list \<Rightarrow> 's \<Rightarrow> int \<times> 's" where
  "vfs_mkdir nd dir nm s =
     (case dir of
        None \<Rightarrow> (-1, s)
      | Some d \<Rightarrow>
          if fs_flags (nd s d) AND 7 \<noteq> FS_DIRECTORY then (-1, s)
          else case Option.bind (fs_ops_tab (nd s d)) op_mkdir of
            None \<Rightarrow> (-1, s)
          | Some f \<Rightarrow> f d nm s)"

section \<open>Path resolution\<close>

text \<open>The inner loop: at most \<open>n\<close> characters up to a slash or the end.\<close>

fun next_comp :: "nat \<Rightarrow> u8 list \<Rightarrow> u8 list \<times> u8 list" where
  "next_comp 0 path = ([], path)"
| "next_comp (Suc n) [] = ([], [])"
| "next_comp (Suc n) (c # path) =
     (if c = 47 then ([], c # path)
      else case next_comp n path of (cmp, rest) \<Rightarrow> (c # cmp, rest))"

lemma next_comp_append: "fst (next_comp n path) @ snd (next_comp n path) = path"
  by (induction n path rule: next_comp.induct) (auto split: prod.splits)

lemma next_comp_shorter:
  assumes "(cmp, rest) = next_comp n path" and "cmp \<noteq> []"
  shows "length (dropWhile P rest) < length path"
proof -
  have "path = cmp @ rest" using next_comp_append [of n path] assms(1) by (metis fst_conv snd_conv)
  then show ?thesis using assms(2) length_dropWhile_le [of P rest] by (cases cmp) simp_all
qed

function resolve_walk :: "('n, 's) deref \<Rightarrow> u8 list \<Rightarrow> 'n \<Rightarrow> 's \<Rightarrow> 'n option \<times> 's" where
  "resolve_walk nd path node s =
     (case next_comp 127 path of (cmp, rest) \<Rightarrow>
        if rest \<noteq> [] \<and> hd rest \<noteq> 47 then (None, s)
        else
          let rest' = dropWhile (\<lambda>c. c = 47) rest
          in if cmp = [] then (Some node, s)
             else case vfs_finddir nd node cmp s of
               (None, s1) \<Rightarrow> (None, s1)
             | (Some n1, s1) \<Rightarrow>
                 if rest' = [] then (Some (vfs_follow nd s1 n1), s1)
                 else resolve_walk nd rest' (vfs_follow nd s1 n1) s1)"
  by pat_completeness auto

termination resolve_walk
  by (relation "measure (\<lambda>(nd, path, node, s). length path)") (simp_all add: next_comp_shorter)

declare resolve_walk.simps [simp del]

text \<open>\<open>root\<close> is \<^verbatim>\<open>fs_root\<close>; a null path is not modelled, all callers pass one.\<close>

definition vfs_resolve :: "('n, 's) deref \<Rightarrow> 'n option \<Rightarrow> u8 list \<Rightarrow> 's \<Rightarrow> 'n option \<times> 's" where
  "vfs_resolve nd root path s =
     (case root of
        None \<Rightarrow> (None, s)
      | Some r \<Rightarrow>
          let path = dropWhile (\<lambda>c. c = 47) path
          in if path = [] then (Some r, s) else resolve_walk nd path (vfs_follow nd s r) s)"

section \<open>Resolution walks the components of the path\<close>

text \<open>The components of a path: the maximal runs of characters other than the slash.\<close>

function comps :: "u8 list \<Rightarrow> u8 list list" where
  "comps path =
     (case dropWhile (\<lambda>c. c = 47) path of
        [] \<Rightarrow> []
      | c # cs \<Rightarrow> takeWhile (\<lambda>c. c \<noteq> 47) (c # cs) # comps (dropWhile (\<lambda>c. c \<noteq> 47) (c # cs)))"
  by pat_completeness auto

termination comps
proof (relation "measure length")
  fix path cs and c :: u8
  assume a: "dropWhile (\<lambda>c. c = 47) path = c # cs"
  then have "c \<noteq> 47" using hd_dropWhile [of "\<lambda>c. c = 47" path] by simp
  moreover have "length (c # cs) \<le> length path" using length_dropWhile_le [of "\<lambda>c. c = 47" path] a by simp
  ultimately show "(dropWhile (\<lambda>c. c \<noteq> 47) (c # cs), path) \<in> measure length"
    using length_dropWhile_le [of "\<lambda>c. c \<noteq> 47" cs] by simp
qed simp

declare comps.simps [simp del]

primrec walk :: "('n, 's) deref \<Rightarrow> u8 list list \<Rightarrow> 'n \<Rightarrow> 's \<Rightarrow> 'n option \<times> 's" where
  "walk nd [] node s = (Some node, s)"
| "walk nd (c # cs) node s =
     (if 127 < length c then (None, s)
      else case vfs_finddir nd node c s of
        (None, s1) \<Rightarrow> (None, s1)
      | (Some n1, s1) \<Rightarrow> walk nd cs (vfs_follow nd s1 n1) s1)"

lemma next_comp_short:
  "length (takeWhile (\<lambda>c. c \<noteq> 47) path) \<le> n \<Longrightarrow>
   next_comp n path = (takeWhile (\<lambda>c. c \<noteq> 47) path, dropWhile (\<lambda>c. c \<noteq> 47) path)"
proof (induction n path rule: next_comp.induct)
  case (1 path)
  then show ?case by (cases path) (auto split: if_splits)
qed (auto split: prod.split)

lemma next_comp_long:
  "n < length (takeWhile (\<lambda>c. c \<noteq> 47) path) \<Longrightarrow>
   snd (next_comp n path) \<noteq> [] \<and> hd (snd (next_comp n path)) \<noteq> 47"
proof (induction n path rule: next_comp.induct)
  case (1 path)
  then show ?case by (cases path) (auto split: if_splits)
qed (auto split: prod.split if_splits)

lemma comps_step:
  assumes "path \<noteq> []" and "hd path \<noteq> 47"
  shows "comps path = takeWhile (\<lambda>c. c \<noteq> 47) path # comps (dropWhile (\<lambda>c. c \<noteq> 47) path)"
  using assms by (cases path) (simp_all add: comps.simps [of "_ # _"])

lemma comps_slashes: "comps (dropWhile (\<lambda>c. c = 47) path) = comps path"
  by (simp add: comps.simps [of path] comps.simps [of "dropWhile _ path"])

lemma resolve_walk_eq:
  "path \<noteq> [] \<Longrightarrow> hd path \<noteq> 47 \<Longrightarrow> resolve_walk nd path node s = walk nd (comps path) node s"
proof (induction nd path node s rule: resolve_walk.induct)
  case (1 nd path node s)
  let ?c = "takeWhile (\<lambda>c. c \<noteq> 47) path" and ?r = "dropWhile (\<lambda>c. c \<noteq> 47) path"
  define r' where "r' = dropWhile (\<lambda>c. c = 47) ?r"
  have c: "?c \<noteq> []" using "1.prems" by (cases path) auto
  show ?case
  proof (cases "length ?c \<le> 127")
    case False
    then have "snd (next_comp 127 path) \<noteq> [] \<and> hd (snd (next_comp 127 path)) \<noteq> 47"
      by (intro next_comp_long) simp
    then show ?thesis
      using False by (simp add: resolve_walk.simps [of nd path] comps_step [OF "1.prems"] case_prod_beta)
  next
    case True
    note nc = next_comp_short [OF True]
    have ok: "\<not> (?r \<noteq> [] \<and> hd ?r \<noteq> 47)" using hd_dropWhile [of "\<lambda>c. c \<noteq> 47" path] by auto
    have r': "r' \<noteq> [] \<Longrightarrow> hd r' \<noteq> 47" using hd_dropWhile [of "\<lambda>c. c = 47" ?r] by (auto simp: r'_def)
    have cs: "comps ?r = comps r'" by (simp add: r'_def comps_slashes)
    have e: "r' = [] \<Longrightarrow> comps r' = []" by (simp add: comps.simps)
    have "resolve_walk nd r' (vfs_follow nd s1 n1) s1 = walk nd (comps r') (vfs_follow nd s1 n1) s1"
      if "vfs_finddir nd node ?c s = (Some n1, s1)" "r' \<noteq> []" for n1 s1
      using "1.IH" [OF nc [symmetric] ok r'_def c that(1) [symmetric] refl that(2) that(2)] r' that(2) by simp
    then show ?thesis
      using True c ok e
      by (auto simp: resolve_walk.simps [of nd path] nc comps_step [OF "1.prems"] cs r'_def [symmetric]
          Let_def split: option.split prod.split)
  qed
qed

text \<open>
  C20: Path resolution returns for every path and is the obvious walk: the components are the
  runs of characters between slashes, leading, repeated and trailing slashes do not count, the
  empty path is the root itself, every other path starts at the root with its mount followed,
  each step looks the component up in the current directory and follows a mount point, and a
  component of more than 127 characters or a failed lookup makes the whole resolution fail.
\<close>

theorem vfs_resolve_walk:
  "vfs_resolve nd root path s =
     (case root of
        None \<Rightarrow> (None, s)
      | Some r \<Rightarrow> if comps path = [] then (Some r, s) else walk nd (comps path) (vfs_follow nd s r) s)"
proof -
  let ?p = "dropWhile (\<lambda>c. c = 47) path"
  have "comps ?p = comps path" by (rule comps_slashes)
  moreover have "comps path = [] \<longleftrightarrow> ?p = []" 
    by (subst comps.simps) (simp del: dropWhile_eq_Nil_conv split: list.split)
  moreover have "?p \<noteq> [] \<Longrightarrow> hd ?p \<noteq> 47" using hd_dropWhile [of "\<lambda>c. c = 47" path] by auto
  ultimately show ?thesis
    by (simp add: vfs_resolve_def resolve_walk_eq del: dropWhile_eq_Nil_conv split: option.split)
qed

end
