(* ===== verification/Initrd.thy ===== *)
theory Initrd
  imports Vfs
begin

text \<open>
  \<^verbatim>\<open>kernel/initrd.c\<close>: the read-only file system in a tar archive that the boot loader left
  in memory. The archive is a byte buffer addressed by 32-bit addresses. The chain of
  headers is a list of address and size; a node of the file system is the root, the empty
  \<^verbatim>\<open>dev\<close> directory, the mounted disk or the file with a given index.
\<close>

datatype 'n initrd_node = InitRoot | InitDev | InitDisk 'n | InitFile nat

record root_node =
  rn_name :: "u8 list"
  rn_length :: u32
  rn_inode :: u32

record 'n initrd =
  archive :: buf
  headers :: "(u32 \<times> u32) list"
  root_nodes :: "root_node list"
  ext2_mount_node :: "'n option"

section \<open>The archive\<close>

text \<open>The octal size field, from its last digit on; characters are signed.\<close>

primrec getsize_loop :: "buf \<Rightarrow> nat \<Rightarrow> nat \<Rightarrow> u32 \<Rightarrow> u32 \<Rightarrow> u32" where
  "getsize_loop m p 0 count acc = acc"
| "getsize_loop m p (Suc j) count acc =
     getsize_loop m p j (count * 8) (acc + of_int (sint (m (p + j)) - 48) * count)"

definition getsize :: "buf \<Rightarrow> nat \<Rightarrow> u32" where
  "getsize m p = getsize_loop m p 11 1 0"

definition next_header :: "u32 \<Rightarrow> u32 \<Rightarrow> u32" where
  "next_header addr len =
     (let addr = addr + (len div 512 + 1) * 512
      in if len mod 512 \<noteq> 0 then addr + 512 else addr)"

text \<open>The loop over the headers; the last argument is the chain built so far.\<close>

partial_function (option) tar_parse :: "buf \<Rightarrow> u32 \<Rightarrow> (u32 \<times> u32) list \<Rightarrow> (u32 \<times> u32) list option" where
  "tar_parse m addr chain =
     (if m (unat addr) = 0 then Some chain
      else tar_parse m (next_header addr (getsize m (unat addr + 124)))
        (chain @ [(addr, getsize m (unat addr + 124))]))"

text \<open>The name field need not be terminated when it is full.\<close>

definition tar_name :: "buf \<Rightarrow> u32 \<Rightarrow> u8 list" where
  "tar_name m addr = take 127 (takeWhile (\<lambda>c. c \<noteq> 0) (buf_list m (unat addr) 100))"

text \<open>\<open>disk\<close> is the mounted disk the module variable holds at the call, which leaves it alone.\<close>

definition initrd_init :: "'n option \<Rightarrow> buf \<Rightarrow> u32 \<Rightarrow> 'n initrd option" where
  "initrd_init disk m ptr =
     (case tar_parse m ptr [] of
        None \<Rightarrow> None
      | Some hs \<Rightarrow>
          Some \<lparr>archive = m, headers = hs,
            root_nodes = map (\<lambda>i. \<lparr>rn_name = tar_name m (fst (hs ! i)), rn_length = snd (hs ! i),
              rn_inode = of_nat i\<rparr>) [0..<length hs],
            ext2_mount_node = disk\<rparr>)"

definition initrd_set_disk_mount :: "'n option \<Rightarrow> 'n initrd \<Rightarrow> 'n initrd" where
  "initrd_set_disk_mount node s = s\<lparr>ext2_mount_node := node\<rparr>"

section \<open>The callbacks\<close>

definition name_dev :: "u8 list" where
  "name_dev = [100, 101, 118]"

definition name_disk :: "u8 list" where
  "name_disk = [100, 105, 115, 107]"

definition initrd_readdir :: "'n initrd \<Rightarrow> 'n initrd_node \<Rightarrow> u32 \<Rightarrow> (u8 list \<times> u32) option" where
  "initrd_readdir s node index =
     (if node = InitRoot \<and> index = 0 then Some (name_dev, 0)
      else if node = InitRoot \<and> ext2_mount_node s \<noteq> None \<and> index = 1 then Some (name_disk, 0)
      else
        let base = (if node = InitRoot then (if ext2_mount_node s \<noteq> None then 2 else 1) else 1)
        in if index < base \<or> of_nat (length (root_nodes s)) \<le> index - base then None
           else let f = root_nodes s ! unat (index - base) in Some (rn_name f, rn_inode f))"

definition initrd_finddir :: "'n initrd \<Rightarrow> 'n initrd_node \<Rightarrow> u8 list \<Rightarrow> 'n initrd_node option" where
  "initrd_finddir s node nm =
     (if node = InitRoot \<and> nm = name_dev then Some InitDev
      else case (if node = InitRoot \<and> nm = name_disk then ext2_mount_node s else None) of
        Some d \<Rightarrow> Some (InitDisk d)
      | None \<Rightarrow>
          map_option InitFile (find (\<lambda>i. nm = rn_name (root_nodes s ! i)) [0..<length (root_nodes s)]))"

definition initrd_get_node_by_inode :: "'n initrd \<Rightarrow> u32 \<Rightarrow> (u32 \<times> u32) outcome" where
  "initrd_get_node_by_inode s inode =
     (if unat inode < length (root_nodes s) then Done (headers s ! unat inode) else Panic)"

definition initrd_read :: "'n initrd \<Rightarrow> u32 \<Rightarrow> u32 \<Rightarrow> u32 \<Rightarrow> u8 list outcome" where
  "initrd_read s inode offset len =
     (case initrd_get_node_by_inode s inode of
        Done (tar, hsize) \<Rightarrow>
          if hsize < offset then Done []
          else
            let n = (if hsize < offset + len then hsize - offset else len)
            in Done (buf_list (archive s) (unat (tar + 512 + offset)) (unat n))
      | Panic \<Rightarrow> Panic
      | NullDeref \<Rightarrow> NullDeref)"

section \<open>What an archive holds\<close>

text \<open>The archive of \<open>files\<close>, names with contents, laid out from \<open>a\<close>: a header block with the name
  and the octal size, the contents, padding to the next block, the other files, and a
  block that starts with a zero.\<close>

fun tar_at :: "buf \<Rightarrow> nat \<Rightarrow> (u8 list \<times> u8 list) list \<Rightarrow> bool" where
  "tar_at m a [] \<longleftrightarrow> m a = 0 \<and> a < 4294967296"
| "tar_at m a ((nm, d) # fs) \<longleftrightarrow>
     nm \<noteq> [] \<and> length nm \<le> 100 \<and> 0 \<notin> set nm \<and>
     buf_list m a 100 = nm @ replicate (100 - length nm) 0 \<and>
     (\<forall>j < 11. m (a + 124 + j) = of_nat (48 + length d div 8 ^ (10 - j) mod 8)) \<and>
     buf_list m (a + 512) (length d) = d \<and>
     a + 512 + length d < 4294967296 \<and>
     tar_at m (a + 512 + (length d + 511) div 512 * 512) fs"

lemma sint_octal: "x < 8 \<Longrightarrow> sint (of_nat (48 + x) :: u8) = 48 + int x"
proof -
  assume "x < 8"
  then have "x \<in> set [0..<8]" by simp
  then show ?thesis by (auto simp: upt_rec)
qed

definition octal :: "nat \<Rightarrow> nat \<Rightarrow> nat" where
  "octal n k = (\<Sum>i < k. n div 8 ^ i mod 8 * 8 ^ i)"

lemma octal_mod: "octal n k = n mod 8 ^ k"
proof (induction k)
  case (Suc k)
  have "n mod 8 ^ Suc k = 8 ^ k * (n div 8 ^ k mod 8) + n mod 8 ^ k"
    unfolding power_Suc2 by (rule mod_mult2_eq)
  with Suc show ?case by (simp add: octal_def mult.commute)
qed (simp add: octal_def)

lemma getsize_loop_eq:
  assumes "\<forall>j < 11. m (p + j) = of_nat (48 + n div 8 ^ (10 - j) mod 8)" and "j \<le> 11"
  shows "getsize_loop m p j (8 ^ (11 - j)) (of_nat (octal n (11 - j))) = of_nat (octal n 11)"
  using assms(2)
proof (induction j)
  case (Suc j)
  have "sint (m (p + j)) - 48 = int (n div 8 ^ (10 - j) mod 8)"
    using assms(1) Suc.prems sint_octal [of "n div 8 ^ (10 - j) mod 8"] by simp
  moreover have e: "11 - j = Suc (11 - Suc j)" "11 - Suc j = 10 - j" using Suc.prems by simp_all
  have "octal n (11 - j) = octal n (10 - j) + n div 8 ^ (10 - j) mod 8 * 8 ^ (10 - j)"
    unfolding e by (simp add: octal_def)
  moreover have "(8 :: u32) ^ (11 - j) = 8 ^ (10 - j) * 8" unfolding e by simp
  ultimately show ?case using Suc.IH Suc.prems e(2) by simp
qed simp

lemma getsize_eq:
  assumes "\<forall>j < 11. m (p + j) = of_nat (48 + n div 8 ^ (10 - j) mod 8)" and "n < 4294967296"
  shows "getsize m p = of_nat n"
  using getsize_loop_eq [OF assms(1), of 11] assms(2) by (simp add: getsize_def octal_mod)

lemma blocks_up: "(n + 511) div 512 = n div 512 + (if n mod 512 = 0 then 0 else 1 :: nat)"
proof -
  define q r where "q = n div 512" and "r = n mod 512"
  have n: "n = r + 512 * q" unfolding q_def r_def by simp
  have r: "r < 512" unfolding r_def by simp
  have "(n + 511) div 512 = (r + 511 + 512 * q) div 512" unfolding n by (simp add: ac_simps)
  also have "\<dots> = q + (r + 511) div 512" by (rule div_mult_self2) simp
  also have "(r + 511) div 512 = (if r = 0 then 0 else 1)" using r by (auto simp: div_if)
  finally show ?thesis by (simp only: q_def r_def)
qed

lemma next_header_eq:
  assumes "a + 512 + n < 4294967296" and "a + 512 + (n + 511) div 512 * 512 < 4294967296"
  shows "next_header (of_nat a) (of_nat n) = of_nat (a + 512 + (n + 511) div 512 * 512)"
proof -
  have n: "unat (of_nat n :: u32) = n" using assms(1) by (intro unat_of_nat32) simp
  have dm: "(of_nat n :: u32) div 512 = of_nat (n div 512)" "(of_nat n :: u32) mod 512 = of_nat (n mod 512)"
    using assms(1) by (simp_all add: word_unat_eq_iff unat_div_distrib unat_mod_distrib unat_of_nat)
  have z: "(of_nat (n mod 512) :: u32) = 0 \<longleftrightarrow> n mod 512 = 0"
    using of_nat_inj32 [of "n mod 512" 0] by (simp add: order_less_trans [OF mod_less_divisor])
  have "(n + 511) div 512 = n div 512 + (if n mod 512 = 0 then 0 else 1)" by (rule blocks_up)
  then show ?thesis by (simp add: next_header_def dm z algebra_simps)
qed

text \<open>Where the files of an archive start.\<close>

fun tar_starts :: "nat \<Rightarrow> (u8 list \<times> u8 list) list \<Rightarrow> nat list" where
  "tar_starts a [] = []"
| "tar_starts a ((nm, d) # fs) = a # tar_starts (a + 512 + (length d + 511) div 512 * 512) fs"

lemma tar_at_start: "tar_at m a fs \<Longrightarrow> a < 4294967296"
  by (cases fs) auto

lemma tar_parse_eq:
  "tar_at m a fs \<Longrightarrow> tar_parse m (of_nat a) chain =
     Some (chain @ zip (map of_nat (tar_starts a fs)) (map (\<lambda>f. of_nat (length (snd f))) fs))"
proof (induction m a fs arbitrary: chain rule: tar_at.induct)
  case (1 m a)
  then show ?case by (simp add: tar_parse.simps [of m "of_nat a"] unat_of_nat32)
next
  case (2 m a nm d fs)
  let ?n = "a + 512 + (length d + 511) div 512 * 512"
  have a: "unat (of_nat a :: u32) = a" using "2.prems" by (intro unat_of_nat32) simp
  have nm: "m a \<noteq> 0"
  proof -
    have "m a = buf_list m a 100 ! 0" by simp
    also have "\<dots> = nm ! 0" using "2.prems" by (simp add: nth_append del: nth_buf_list)
    finally show ?thesis using "2.prems" by (metis length_greater_0_conv nth_mem tar_at.simps(2))
  qed
  have sz: "getsize m (a + 124) = of_nat (length d)" using "2.prems" by (intro getsize_eq) simp_all
  have nh: "next_header (of_nat a) (of_nat (length d)) = of_nat ?n"
    using "2.prems" tar_at_start [of m ?n fs] by (intro next_header_eq) simp_all
  have "tar_parse m (of_nat a) chain = tar_parse m (of_nat ?n) (chain @ [(of_nat a, of_nat (length d))])"
    using nm by (subst tar_parse.simps) (simp add: a sz nh)
  with "2.IH" "2.prems" show ?case by simp
qed

lemma length_tar_starts [simp]: "length (tar_starts a fs) = length fs"
  by (induction a fs rule: tar_starts.induct) simp_all

lemma tar_file:
  "tar_at m a fs \<Longrightarrow> i < length fs \<Longrightarrow>
   (let (nm, d) = fs ! i; p = tar_starts a fs ! i
    in p + 512 + length d < 4294967296 \<and> buf_list m (p + 512) (length d) = d \<and>
       takeWhile (\<lambda>c. c \<noteq> 0) (buf_list m p 100) = nm \<and> length nm \<le> 100)"
proof (induction m a fs arbitrary: i rule: tar_at.induct)
  case (2 m a nm d fs)
  show ?case
  proof (cases i)
    case 0
    have "takeWhile (\<lambda>c. c \<noteq> 0) (nm @ replicate (100 - length nm) 0) = nm"
      using "2.prems" by (simp add: takeWhile_append)
    with 0 "2.prems" show ?thesis by simp
  next
    case (Suc j)
    with "2.IH" [of j] "2.prems" show ?thesis by simp
  qed
qed simp

lemma initrd_read_bytes:
  assumes "unat ino < length (root_nodes s)" and "headers s ! unat ino = (of_nat p, of_nat (length d))"
    and "p + 512 + length d < 4294967296" and "buf_list (archive s) (p + 512) (length d) = d"
    and "unat off + unat n < 4294967296"
  shows "initrd_read s ino off n = Done (take (unat n) (drop (unat off) d))"
proof -
  have l: "unat (of_nat (length d) :: u32) = length d" "unat (of_nat p :: u32) = p"
    using assms(3) by (simp_all only: unat_of_nat32)
  show ?thesis
  proof (cases "length d < unat off")
    case True
    then have "(of_nat (length d) :: u32) < off" by (simp add: word_less_nat_alt l)
    with True show ?thesis using assms(1,2) by (simp add: initrd_read_def initrd_get_node_by_inode_def)
  next
    case False
    then have no: "\<not> (of_nat (length d) :: u32) < off" by (simp add: word_less_nat_alt l)
    define k where "k = (if of_nat (length d) < off + n then of_nat (length d) - off else n)"
    have "unat (off + n) = unat off + unat n" using assms(5) by (rule unat_add32)
    then have k: "unat k = min (unat n) (length d - unat off)"
      using False by (auto simp: k_def word_less_nat_alt l unat_sub word_le_nat_alt)
    have "unat (of_nat p + 512 :: u32) = p + 512" using assms(3) by (subst unat_add32) (simp_all add: l)
    then have at: "unat (of_nat p + 512 + off) = p + 512 + unat off"
      using assms(3) False by (subst unat_add32) simp_all
    have "buf_list (archive s) (p + 512 + unat off) (unat k) = take (unat n) (drop (unat off) d)"
    proof (rule nth_equalityI)
      fix j
      assume "j < length (buf_list (archive s) (p + 512 + unat off) (unat k))"
      then have j: "j < unat k" by simp
      then have "unat off + j < length d" using k False by linarith
      then have "d ! (unat off + j) = archive s (p + 512 + (unat off + j))"
        by (subst assms(4) [symmetric]) simp
      then show "buf_list (archive s) (p + 512 + unat off) (unat k) ! j = take (unat n) (drop (unat off) d) ! j"
        using j k False by (simp add: add.assoc)
    qed (simp add: k)
    then show ?thesis
      using assms(1,2) no
      by (simp add: initrd_read_def initrd_get_node_by_inode_def Let_def k_def [symmetric] at)
  qed
qed

text \<open>
  C21: The initial RAM disk is read back as it was packed. For an archive of any list of files, parsing
  ends and yields the files in order with their names and lengths; a directory listing shows
  \<^verbatim>\<open>dev\<close>, the disk if one is mounted, and then the files; and a read returns exactly the bytes of the file from the offset on,
  clamped to its end, as long as offset plus length does not wrap at 32 bits.
\<close>

theorem initrd_roundtrip:
  assumes "tar_at m a fs" and "length fs < 4294967295"
  shows "\<exists>s :: 'n initrd. initrd_init disk m (of_nat a) = Some s \<and> length (root_nodes s) = length fs \<and>
    (\<forall>i < length fs. rn_name (root_nodes s ! i) = fst (fs ! i) \<and>
       rn_length (root_nodes s ! i) = of_nat (length (snd (fs ! i))) \<and>
       initrd_readdir s InitRoot (of_nat (i + (if disk = None then 1 else 2))) = Some (fst (fs ! i), of_nat i) \<and>
       (\<forall>off len. unat off + unat len < 4294967296 \<longrightarrow>
          initrd_read s (of_nat i) off len = Done (take (unat len) (drop (unat off) (snd (fs ! i))))))"
proof -
  define hs :: "(u32 \<times> u32) list" where
    "hs = zip (map of_nat (tar_starts a fs)) (map (\<lambda>f. of_nat (length (snd f))) fs)"
  define s :: "'n initrd" where "s = \<lparr>archive = m, headers = hs,
      root_nodes = map (\<lambda>i. \<lparr>rn_name = tar_name m (fst (hs ! i)), rn_length = snd (hs ! i),
        rn_inode = of_nat i\<rparr>) [0..<length hs], ext2_mount_node = disk\<rparr>"
  have init: "initrd_init disk m (of_nat a) = Some s"
    using tar_parse_eq [OF assms(1), of "[]"] by (simp add: initrd_init_def s_def hs_def)
  have len: "length hs = length fs" by (simp add: hs_def)
  have each: "rn_name (root_nodes s ! i) = fst (fs ! i) \<and>
      rn_length (root_nodes s ! i) = of_nat (length (snd (fs ! i))) \<and>
      initrd_readdir s InitRoot (of_nat (i + (if disk = None then 1 else 2))) = Some (fst (fs ! i), of_nat i) \<and>
      (\<forall>off n. unat off + unat n < 4294967296 \<longrightarrow>
         initrd_read s (of_nat i) off n = Done (take (unat n) (drop (unat off) (snd (fs ! i)))))"
    if i: "i < length fs" for i
  proof -
    define p d where "p = tar_starts a fs ! i" and "d = snd (fs ! i)"
    have h: "hs ! i = (of_nat p, of_nat (length d))" using i by (simp add: hs_def p_def d_def)
    have f: "p + 512 + length d < 4294967296" "buf_list m (p + 512) (length d) = d"
        "takeWhile (\<lambda>c. c \<noteq> 0) (buf_list m p 100) = fst (fs ! i)" "length (fst (fs ! i)) \<le> 100"
      using tar_file [OF assms(1) i] by (simp_all add: p_def d_def case_prod_beta Let_def)
    have u: "unat (of_nat p :: u32) = p" "unat (of_nat i :: u32) = i"
        "unat (of_nat (length fs) :: u32) = length fs"
      using f(1) i assms(2) by (auto intro!: unat_of_nat32)
    have nm: "tar_name m (of_nat p) = fst (fs ! i)" using f(3,4) u(1) by (simp add: tar_name_def)
    have rn: "root_nodes s ! i = \<lparr>rn_name = fst (fs ! i), rn_length = of_nat (length d), rn_inode = of_nat i\<rparr>"
      using i by (simp add: s_def len h nm)
    define k :: nat where "k = (if disk = None then 1 else 2)"
    have k: "(of_nat (i + k) :: u32) - of_nat k = of_nat i" "(of_nat (i + k) :: u32) \<noteq> 0" "\<not> (of_nat (i + k) :: u32) < of_nat k"
        "k = 2 \<Longrightarrow> (of_nat (i + k) :: u32) \<noteq> 1"
      using of_nat_inj32 [of "i + k" 0] of_nat_inj32 [of "i + 2" 1] unat_of_nat32 [of "i + k"] unat_of_nat32 [of k] i assms(2)
      by (auto simp: k_def word_less_nat_alt simp del: of_nat_add split: if_splits)
    then have "initrd_readdir s InitRoot (of_nat (i + k)) = Some (fst (fs ! i), of_nat i)"
      using i rn u by (cases disk) (simp_all add: initrd_readdir_def Let_def s_def len word_le_nat_alt k_def)
    moreover have "initrd_read s (of_nat i) off n = Done (take (unat n) (drop (unat off) d))"
      if "unat off + unat n < 4294967296" for off n
      using that f(1,2) u i h by (intro initrd_read_bytes) (simp_all add: s_def len)
    ultimately show ?thesis using rn by (simp add: d_def k_def)
  qed
  show ?thesis using init len each by (intro exI [of _ s]) (simp add: s_def)
qed

definition sample_archive :: buf where
  "sample_archive x =
     (if x = 0 then 97 else if x \<in> {124..133} then 48 else if x = 134 then 50
      else if x = 512 then 7 else if x = 513 then 9 else 0)"

lemma sample_archive_at: "tar_at sample_archive 0 [([97], [7, 9])]"
proof -
  have "buf_list sample_archive 0 100 = [97] @ replicate (100 - 1) 0"
  proof (rule nth_equalityI)
    fix j assume "j < length (buf_list sample_archive 0 100)"
    then show "buf_list sample_archive 0 100 ! j = ([97] @ replicate (100 - 1) 0) ! j"
      by (cases j) (simp_all add: sample_archive_def)
  qed simp
  moreover have "sample_archive (124 + j) = of_nat (48 + 2 div 8 ^ (10 - j) mod 8)" if "j < 11" for j
  proof (cases "j = 10")
    case False
    with that have "10 - j = Suc (9 - j)" by simp
    then obtain k where "10 - j = Suc k" ..
    moreover have "(2 :: nat) div 8 ^ Suc k = 0" by (rule div_less) (simp add: less_le_trans [of 2 8])
    ultimately show ?thesis using that False by (simp add: sample_archive_def)
  qed (simp add: sample_archive_def)
  moreover have "buf_list sample_archive 512 2 = [7, 9]"
    by (simp add: buf_list_def upt_rec sample_archive_def)
  moreover have "sample_archive 1024 = 0" by (simp add: sample_archive_def)
  ultimately show ?thesis by (simp flip: numeral_2_eq_2)
qed

theorem initrd_roundtrip_witness:
  "\<exists>s :: nat initrd. initrd_init None sample_archive 0 = Some s \<and> length (root_nodes s) = 1 \<and>
     rn_name (root_nodes s ! 0) = [97] \<and> initrd_read s 0 1 8 = Done [9]"
proof -
  obtain s :: "nat initrd" where s: "initrd_init None sample_archive 0 = Some s" "length (root_nodes s) = 1"
      "rn_name (root_nodes s ! 0) = [97]"
      "\<forall>off n. unat off + unat n < 4294967296 \<longrightarrow> initrd_read s 0 off n = Done (take (unat n) (drop (unat off) [7, 9]))"
    using initrd_roundtrip [OF sample_archive_at, of None] by auto
  have "initrd_read s 0 1 8 = Done [9]" using s(4) [rule_format, of 1 8] by simp
  with s show ?thesis by blast
qed

end
