(* ===== verification/Mutex.thy ===== *)
theory Mutex
  imports Yield
begin

text \<open>
  \<^verbatim>\<open>kernel/mutex.c\<close>: a flag tested and set with interrupts masked, and a loop that yields
  while another task holds it.
\<close>

record mutex =
  locked :: bool

text \<open>The masked section: take the lock if it is free.\<close>

definition try_lock :: "mutex \<Rightarrow> mutex option" where
  "try_lock m = (if \<not> locked m then Some (m\<lparr>locked := True\<rparr>) else None)"

partial_function (option) mutex_lock :: "(nat \<Rightarrow> mutex \<Rightarrow> mutex) \<Rightarrow> nat \<Rightarrow> mutex \<Rightarrow> (nat \<times> mutex) option" where
  "mutex_lock env k m =
     (case try_lock m of
        Some m' \<Rightarrow> Some (k, m')
      | None \<Rightarrow> mutex_lock env (Suc k) (env k m))"

definition mutex_unlock :: "mutex \<Rightarrow> mutex" where
  "mutex_unlock m = m\<lparr>locked := False\<rparr>"

text \<open>Taking the lock is waiting for it and then setting the flag.\<close>

lemma mutex_lock_wait:
  assumes "\<not> locked (after_yields env k m j)"
  shows "\<exists>i \<le> j. mutex_lock env k m = Some (k + i, (after_yields env k m i)\<lparr>locked := True\<rparr>)"
  using assms
proof (induction j arbitrary: k m)
  case 0
  then show ?case by (simp add: mutex_lock.simps [of env k m] try_lock_def)
next
  case (Suc j)
  show ?case
  proof (cases "locked m")
    case True
    obtain i where "i \<le> j" "mutex_lock env (Suc k) (env k m)
        = Some (Suc k + i, (after_yields env (Suc k) (env k m) i)\<lparr>locked := True\<rparr>)"
      using Suc.IH [of "Suc k" "env k m"] Suc.prems by auto
    with True show ?thesis
      by (intro exI [of _ "Suc i"]) (simp add: mutex_lock.simps [of env k m] try_lock_def)
  next
    case False
    then show ?thesis
      by (intro exI [of _ 0]) (simp add: mutex_lock.simps [of env k m] try_lock_def)
  qed
qed

section \<open>Mutual exclusion\<close>

text \<open>Tasks interleave at the masked sections; \<open>holds t\<close> says that task \<open>t\<close> is between the
  return of its lock call and its unlock.\<close>

record mutex_sys =
  mx :: mutex
  holds :: "nat \<Rightarrow> bool"

inductive mutex_step :: "mutex_sys \<Rightarrow> mutex_sys \<Rightarrow> bool" where
  acquire: "\<not> holds s t \<Longrightarrow> try_lock (mx s) = Some m \<Longrightarrow>
    mutex_step s (s\<lparr>mx := m, holds := (holds s)(t := True)\<rparr>)"
| blocked: "try_lock (mx s) = None \<Longrightarrow> mutex_step s s"
| release: "holds s t \<Longrightarrow> mutex_step s (s\<lparr>mx := mutex_unlock (mx s), holds := (holds s)(t := False)\<rparr>)"

inductive mutex_reach :: "mutex_sys \<Rightarrow> bool" where
  start: "mutex_reach \<lparr>mx = \<lparr>locked = False\<rparr>, holds = \<lambda>_. False\<rparr>"
| step: "mutex_reach s \<Longrightarrow> mutex_step s s' \<Longrightarrow> mutex_reach s'"

definition mutex_inv :: "mutex_sys \<Rightarrow> bool" where
  "mutex_inv s \<longleftrightarrow> (\<forall>t u. holds s t \<and> holds s u \<longrightarrow> t = u) \<and> (locked (mx s) \<longleftrightarrow> (\<exists>t. holds s t))"

lemma mutex_step_inv: "mutex_step s s' \<Longrightarrow> mutex_inv s \<Longrightarrow> mutex_inv s'"
  by (induction rule: mutex_step.induct)
    (auto simp: mutex_inv_def try_lock_def mutex_unlock_def split: if_splits)

lemma mutex_reach_inv: "mutex_reach s \<Longrightarrow> mutex_inv s"
  by (induction rule: mutex_reach.induct)
    (auto simp: mutex_inv_def [of "\<lparr>mx = _, holds = _\<rparr>"] intro: mutex_step_inv)

text \<open>
  C22: Mutual exclusion and progress. In every interleaving at most one task holds the mutex, the
  flag is set exactly while one does, and a lock call of a task that does not hold it
  returns as soon as it is scheduled with the flag clear.
\<close>

theorem mutex_exclusion:
  assumes "mutex_reach s"
  shows "(\<forall>t u. holds s t \<and> holds s u \<longrightarrow> t = u) \<and> (locked (mx s) \<longleftrightarrow> (\<exists>t. holds s t)) \<and>
    (\<forall>env k j. \<not> locked (after_yields env k (mx s) j) \<longrightarrow>
      (\<exists>i \<le> j. mutex_lock env k (mx s) = Some (k + i, (after_yields env k (mx s) i)\<lparr>locked := True\<rparr>)))"
  using mutex_reach_inv [OF assms] mutex_lock_wait by (auto simp: mutex_inv_def)

theorem mutex_exclusion_witness:
  "\<exists>s. mutex_reach s \<and> holds s 1 \<and> \<not> holds s 2 \<and> locked (mx s)"
proof -
  let ?s = "\<lparr>mx = \<lparr>locked = True\<rparr>, holds = (\<lambda>_. False)(1 := True)\<rparr> :: mutex_sys"
  have r: "mutex_reach ?s"
    using mutex_reach.step [OF mutex_reach.start mutex_step.acquire, of 1 "\<lparr>locked = True\<rparr>"]
    by (simp add: try_lock_def)
  from mutex_exclusion [OF r] have "locked (mx ?s)" by auto
  with r show ?thesis by (intro exI [of _ ?s]) simp
qed

end
