(* ===== verification/Vga.thy ===== *)
theory Vga
  imports Nos_Prelude
begin

text \<open>
  \<^verbatim>\<open>kernel/vga.c\<close>: the text console. The screen is the array of 16-bit cells at \<^verbatim>\<open>vga_mem\<close>; every access
  to an I/O port is appended to a log, which is all a port write does as far as this
  kernel can tell; the one port it reads, to reset a flip-flop in the card, it reads for that effect only. Row and column are kept at their widths in the source.
\<close>

datatype port_access = Outb u16 u8 | Outw u16 u16 | Inb u16

definition VGA_WIDTH :: nat where "VGA_WIDTH = 80"
definition VGA_HEIGHT :: nat where "VGA_HEIGHT = 25"

record vga =
  vga_mem :: "nat \<Rightarrow> u16"
  vga_row :: u32
  vga_col :: u16
  vga_current_color :: u16
  ports :: "port_access list"

definition outb :: "u16 \<Rightarrow> u8 \<Rightarrow> 'a vga_scheme \<Rightarrow> 'a vga_scheme" where
  "outb p v s = s\<lparr>ports := ports s @ [Outb p v]\<rparr>"

definition outw :: "u16 \<Rightarrow> u16 \<Rightarrow> 'a vga_scheme \<Rightarrow> 'a vga_scheme" where
  "outw p v s = s\<lparr>ports := ports s @ [Outw p v]\<rparr>"

definition inb_port :: "u16 \<Rightarrow> 'a vga_scheme \<Rightarrow> 'a vga_scheme" where
  "inb_port p s = s\<lparr>ports := ports s @ [Inb p]\<rparr>"

definition make_vga_entry :: "u8 \<Rightarrow> u8 \<Rightarrow> u16" where
  "make_vga_entry c color = ucast c OR push_bit 8 (ucast color)"

definition vga_set_cursor :: "u16 \<Rightarrow> u16 \<Rightarrow> 'a vga_scheme \<Rightarrow> 'a vga_scheme" where
  "vga_set_cursor x y s =
     (let pos = y * 80 + x
      in outb 0x3D5 (ucast (drop_bit 8 pos AND 0xFF)) (outb 0x3D4 0x0E
           (outb 0x3D5 (ucast (pos AND 0xFF)) (outb 0x3D4 0x0F s))))"

text \<open>The blank cell of the current colour; \<^verbatim>\<open>make_vga_entry\<close> takes the low byte of the colour.\<close>

definition blank :: "'a vga_scheme \<Rightarrow> u16" where
  "blank s = make_vga_entry 32 (ucast (vga_current_color s))"

primrec clear_row :: "nat \<Rightarrow> nat \<Rightarrow> 'a vga_scheme \<Rightarrow> 'a vga_scheme" where
  "clear_row i 0 s = s"
| "clear_row i (Suc j) s = (let s = clear_row i j s in s\<lparr>vga_mem := (vga_mem s)(i * VGA_WIDTH + j := blank s)\<rparr>)"

primrec clear_rows :: "nat \<Rightarrow> 'a vga_scheme \<Rightarrow> 'a vga_scheme" where
  "clear_rows 0 s = s"
| "clear_rows (Suc i) s = clear_row i VGA_WIDTH (clear_rows i s)"

definition vga_clear :: "'a vga_scheme \<Rightarrow> 'a vga_scheme" where
  "vga_clear s = vga_set_cursor 0 0 ((clear_rows VGA_HEIGHT s)\<lparr>vga_row := 0, vga_col := 0\<rparr>)"

definition vga_init :: "'a vga_scheme \<Rightarrow> 'a vga_scheme" where
  "vga_init s = vga_clear s"

definition vga_set_color :: "u16 \<Rightarrow> u16 \<Rightarrow> 'a vga_scheme \<Rightarrow> 'a vga_scheme" where
  "vga_set_color fg bg s = s\<lparr>vga_current_color := fg OR push_bit 4 bg\<rparr>"

definition vga_putc_at :: "u8 \<Rightarrow> u8 \<Rightarrow> u16 \<Rightarrow> u16 \<Rightarrow> 'a vga_scheme \<Rightarrow> 'a vga_scheme" where
  "vga_putc_at c color x y s = s\<lparr>vga_mem := (vga_mem s)(unat y * VGA_WIDTH + unat x := make_vga_entry c color)\<rparr>"

text \<open>\<^verbatim>\<open>memcpy\<close> copies forward, so a cell is read before the copy that overwrites it gets there.\<close>

primrec scroll_copy :: "nat \<Rightarrow> 'a vga_scheme \<Rightarrow> 'a vga_scheme" where
  "scroll_copy 0 s = s"
| "scroll_copy (Suc k) s = (let s = scroll_copy k s in s\<lparr>vga_mem := (vga_mem s)(k := vga_mem s (k + VGA_WIDTH))\<rparr>)"

definition vga_scroll :: "'a vga_scheme \<Rightarrow> 'a vga_scheme" where
  "vga_scroll s =
     (let s = scroll_copy (VGA_WIDTH * (VGA_HEIGHT - 1)) s;
          s = clear_row (VGA_HEIGHT - 1) VGA_WIDTH s
      in s\<lparr>vga_col := 0, vga_row := of_nat (VGA_HEIGHT - 1)\<rparr>)"

definition vga_putc :: "u8 \<Rightarrow> 'a vga_scheme \<Rightarrow> 'a vga_scheme" where
  "vga_putc c s =
     (if c = 10 then
        let s = s\<lparr>vga_row := vga_row s + 1\<rparr>;
            s = (if vga_row s \<ge> of_nat VGA_HEIGHT then vga_scroll s else s)
        in s\<lparr>vga_col := 0\<rparr>
      else if c = 8 then
        let s = (if vga_col s > 0 then s\<lparr>vga_col := vga_col s - 1\<rparr>
                 else if vga_row s > 0 then s\<lparr>vga_row := vga_row s - 1, vga_col := of_nat (VGA_WIDTH - 1)\<rparr>
                 else s)
        in vga_set_cursor (vga_col s) (ucast (vga_row s)) s
      else
        let s = vga_putc_at c (ucast (vga_current_color s)) (vga_col s) (ucast (vga_row s)) s;
            s = s\<lparr>vga_col := vga_col s + 1\<rparr>;
            s = (if vga_col s = of_nat VGA_WIDTH then
                   let s = s\<lparr>vga_col := 0, vga_row := vga_row s + 1\<rparr>
                   in if vga_row s \<ge> of_nat VGA_HEIGHT then vga_scroll s else s
                 else s)
        in vga_set_cursor (vga_col s) (ucast (vga_row s)) s)"

primrec vga_print :: "u8 list \<Rightarrow> 'a vga_scheme \<Rightarrow> 'a vga_scheme" where
  "vga_print [] s = s"
| "vga_print (c # cs) s = vga_print cs (vga_putc c s)"

section \<open>The screen\<close>

definition vga_inv :: "'a vga_scheme \<Rightarrow> bool" where
  "vga_inv s \<longleftrightarrow> unat (vga_row s) < 25 \<and> unat (vga_col s) < 80"

lemmas vga_consts = VGA_WIDTH_def VGA_HEIGHT_def

lemma vga_ports_sel [simp]:
  "vga_mem (outb p v s) = vga_mem s" "vga_row (outb p v s) = vga_row s" "vga_col (outb p v s) = vga_col s"
  "vga_current_color (outb p v s) = vga_current_color s"
  "vga_mem (vga_set_cursor x y s) = vga_mem s" "vga_row (vga_set_cursor x y s) = vga_row s"
  "vga_col (vga_set_cursor x y s) = vga_col s" "vga_current_color (vga_set_cursor x y s) = vga_current_color s"
  by (simp_all add: outb_def vga_set_cursor_def Let_def)

lemma clear_row_sel [simp]:
  "vga_row (clear_row i n s) = vga_row s" "vga_col (clear_row i n s) = vga_col s"
  "vga_current_color (clear_row i n s) = vga_current_color s" "ports (clear_row i n s) = ports s" "blank (clear_row i n s) = blank s"
  by (induction n) (simp_all add: Let_def blank_def)

lemma clear_row_mem:
  "vga_mem (clear_row i n s) k = (if i * 80 \<le> k \<and> k < i * 80 + n then blank s else vga_mem s k)"
  by (induction n) (auto simp: Let_def VGA_WIDTH_def)

lemma clear_rows_sel [simp]:
  "vga_current_color (clear_rows n s) = vga_current_color s" "blank (clear_rows n s) = blank s" "ports (clear_rows n s) = ports s"
  by (induction n) (simp_all add: Let_def blank_def)

lemma clear_rows_mem: "vga_mem (clear_rows n s) k = (if k < n * 80 then blank s else vga_mem s k)"
  by (induction n) (auto simp: clear_row_mem VGA_WIDTH_def)

lemma scroll_copy_sel [simp]:
  "vga_row (scroll_copy n s) = vga_row s" "vga_col (scroll_copy n s) = vga_col s"
  "vga_current_color (scroll_copy n s) = vga_current_color s" "blank (scroll_copy n s) = blank s" "ports (scroll_copy n s) = ports s"
  by (induction n) (simp_all add: Let_def blank_def)

lemma scroll_copy_mem: "vga_mem (scroll_copy n s) k = (if k < n then vga_mem s (k + 80) else vga_mem s k)"
  by (induction n arbitrary: k) (auto simp: Let_def VGA_WIDTH_def)

lemma vga_scroll_sel [simp]:
  "vga_row (vga_scroll s) = 24" "vga_col (vga_scroll s) = 0" "vga_current_color (vga_scroll s) = vga_current_color s"
  "ports (vga_scroll s) = ports s"
  by (simp_all add: vga_scroll_def Let_def VGA_HEIGHT_def)

lemma vga_scroll_mem:
  "vga_mem (vga_scroll s) k = (if k < 1920 then vga_mem s (k + 80) else if k < 2000 then blank s else vga_mem s k)"
  by (simp add: vga_scroll_def Let_def clear_row_mem scroll_copy_mem vga_consts)

text \<open>The cursor as an index into the screen.\<close>

definition vga_pos :: "'a vga_scheme \<Rightarrow> nat" where
  "vga_pos s = unat (vga_row s) * 80 + unat (vga_col s)"

definition vga_cell :: "u8 \<Rightarrow> 'a vga_scheme \<Rightarrow> u16" where
  "vga_cell c s = make_vga_entry c (ucast (vga_current_color s))"

lemma vga_row_next: "unat (r :: u32) < 25 \<Longrightarrow> unat (r + 1) = unat r + 1 \<and> (r + 1 \<ge> of_nat VGA_HEIGHT \<longleftrightarrow> unat r = 24)"
  using unat_add32 [of r 1] by (auto simp: word_le_nat_alt VGA_HEIGHT_def)

lemma vga_col_next: "unat (c :: u16) < 80 \<Longrightarrow> unat (c + 1) = unat c + 1 \<and> (c + 1 = of_nat VGA_WIDTH \<longleftrightarrow> unat c = 79)"
proof -
  assume c: "unat c < 80"
  then have u: "unat (c + 1) = unat c + 1" by (subst unat_plus_if') simp
  have "c + 1 = 80 \<longleftrightarrow> unat (c + 1) = unat (80 :: u16)" by (simp add: word_unat_eq_iff)
  then show ?thesis using u by (auto simp: VGA_WIDTH_def)
qed

lemma vga_row16: "unat (r :: u32) < 25 \<Longrightarrow> unat (ucast r :: u16) = unat r"
  by (simp add: unsigned_ucast_eq take_bit_nat_eq_self)

lemma vga_newline:
  assumes "vga_inv s"
  shows "vga_inv (vga_putc 10 s) \<and> (if unat (vga_row s) = 24 then vga_pos (vga_putc 10 s) = 1920 \<and> vga_mem (vga_putc 10 s) = vga_mem (vga_scroll s)
    else vga_pos (vga_putc 10 s) = (unat (vga_row s) + 1) * 80 \<and> vga_mem (vga_putc 10 s) = vga_mem s)"
proof -
  have "vga_mem (vga_scroll (s\<lparr>vga_row := x\<rparr>)) = vga_mem (vga_scroll s)" for x
    by (rule ext) (simp add: vga_scroll_mem blank_def)
  then show ?thesis
    using assms vga_row_next [of "vga_row s"] by (auto simp: vga_putc_def Let_def vga_inv_def vga_pos_def)
qed

lemma vga_back:
  assumes "vga_inv s"
  shows "vga_inv (vga_putc 8 s) \<and> vga_pos (vga_putc 8 s) = vga_pos s - 1 \<and> vga_mem (vga_putc 8 s) = vga_mem s"
proof -
  have "vga_col s > 0 \<Longrightarrow> unat (vga_col s - 1) = unat (vga_col s) - 1" "vga_row s > 0 \<Longrightarrow> unat (vga_row s - 1) = unat (vga_row s) - 1"
    by (simp_all add: word_less_nat_alt unat_sub word_le_nat_alt)
  then show ?thesis
    using assms by (auto simp: vga_putc_def Let_def vga_inv_def vga_pos_def VGA_WIDTH_def word_less_nat_alt word_unat_eq_iff)
qed

lemma vga_char:
  assumes "vga_inv s" and "c \<noteq> 10" and "c \<noteq> 8"
  shows "vga_inv (vga_putc c s) \<and>
    (if vga_pos s = 1999
     then vga_pos (vga_putc c s) = 1920 \<and>
       (\<forall>k. vga_mem (vga_putc c s) k = (if k < 1920 then ((vga_mem s)(1999 := vga_cell c s)) (k + 80) else if k < 2000 then blank s else vga_mem s k))
     else vga_pos (vga_putc c s) = vga_pos s + 1 \<and> vga_mem (vga_putc c s) = (vga_mem s)(vga_pos s := vga_cell c s))"
proof -
  note r = vga_row_next [of "vga_row s"] and k = vga_col_next [of "vga_col s"] and w = vga_row16 [of "vga_row s"]
  have p: "vga_pos s = 1999 \<longleftrightarrow> unat (vga_row s) = 24 \<and> unat (vga_col s) = 79"
  proof -
    have "x * 80 + y = 1999 \<longleftrightarrow> x = 24 \<and> y = 79" if "x < 25" "y < 80" for x y :: nat using that by presburger
    then show ?thesis using assms(1) by (simp add: vga_inv_def vga_pos_def)
  qed
  show ?thesis
    using assms r k w unfolding p
    by (auto simp: vga_putc_def Let_def vga_inv_def vga_pos_def vga_putc_at_def vga_cell_def VGA_WIDTH_def vga_scroll_mem blank_def)
qed

section \<open>Properties\<close>

text \<open>
  The terminal the console implements: a screen of cells and one position. A cell has the character in its low
  and the colour in its high byte; scrolling moves the 24 lower rows up and blanks the last one.
\<close>

definition tty_cell :: "nat \<Rightarrow> nat \<Rightarrow> u16" where
  "tty_cell color c = of_nat (c + 256 * color)"

definition tty_scroll :: "nat \<Rightarrow> (nat \<Rightarrow> u16) \<Rightarrow> nat \<Rightarrow> u16" where
  "tty_scroll color m = (\<lambda>k. if k < 1920 then m (k + 80) else if k < 2000 then tty_cell color 32 else m k)"

definition tty_put :: "nat \<Rightarrow> u8 \<Rightarrow> (nat \<Rightarrow> u16) \<times> nat \<Rightarrow> (nat \<Rightarrow> u16) \<times> nat" where
  "tty_put color c = (\<lambda>(m, p).
     if c = 10 then if p div 80 = 24 then (tty_scroll color m, 1920) else (m, (p div 80 + 1) * 80)
     else if c = 8 then (m, p - 1)
     else let m = m(p := tty_cell color (unat c))
       in if p = 1999 then (tty_scroll color m, 1920) else (m, p + 1))"

lemma make_vga_entry_cell: "make_vga_entry c color = tty_cell (unat color) (unat c)"
proof -
  have "make_vga_entry c color = ucast c + push_bit 8 (ucast color)"
    unfolding make_vga_entry_def by (rule disjunctive_add [symmetric]) (auto simp: bit_simps dest: bit_imp_le_length)
  then show ?thesis by (simp add: tty_cell_def push_bit_eq_mult mult.commute)
qed

lemma vga_scroll_tty: "vga_mem (vga_scroll s) = tty_scroll (unat (ucast (vga_current_color s) :: u8)) (vga_mem s)"
  by (rule ext) (simp add: vga_scroll_mem tty_scroll_def blank_def make_vga_entry_cell)

lemma vga_putc_color [simp]: "vga_current_color (vga_putc c s) = vga_current_color s"
  by (simp add: vga_putc_def vga_putc_at_def Let_def)

lemma vga_putc_tty:
  assumes "vga_inv s"
  shows "vga_inv (vga_putc c s)"
    "(vga_mem (vga_putc c s), vga_pos (vga_putc c s)) = tty_put (unat (ucast (vga_current_color s) :: u8)) c (vga_mem s, vga_pos s)"
proof -
  have r: "vga_pos s div 80 = unat (vga_row s)" using assms by (simp add: vga_pos_def vga_inv_def)
  consider "c = 10" | "c = 8" | "c \<noteq> 10" "c \<noteq> 8" by blast
  then have "vga_inv (vga_putc c s) \<and>
    (vga_mem (vga_putc c s), vga_pos (vga_putc c s)) = tty_put (unat (ucast (vga_current_color s) :: u8)) c (vga_mem s, vga_pos s)"
  proof cases
    case 1
    then show ?thesis using vga_newline [OF assms] by (simp add: tty_put_def r vga_scroll_tty split: if_splits)
  next
    case 2
    then show ?thesis using vga_back [OF assms] by (simp add: tty_put_def)
  next
    case 3
    then show ?thesis
      using vga_char [OF assms 3]
      by (auto simp: fun_eq_iff tty_put_def Let_def vga_cell_def blank_def make_vga_entry_cell tty_scroll_def split: if_splits)
  qed
  then show "vga_inv (vga_putc c s)"
    "(vga_mem (vga_putc c s), vga_pos (vga_putc c s)) = tty_put (unat (ucast (vga_current_color s) :: u8)) c (vga_mem s, vga_pos s)"
    by simp_all
qed

text \<open>
  C40: The console is the terminal. Whatever is printed, the cursor stays inside the 80 by 25 cells, no
  cell outside them changes, and every cell and the cursor are what the terminal has: a printable character
  stands at the cursor, which moves on by one; from the last cell the screen scrolls up by one row with a blank
  row below. A newline moves to the start of the next row, scrolling on the last one, and a backspace one cell
  back without erasing.
\<close>

theorem vga_on_screen:
  assumes "vga_inv s"
  shows "vga_inv (vga_print cs s) \<and> (\<forall>k \<ge> 2000. vga_mem (vga_print cs s) k = vga_mem s k) \<and>
    (vga_mem (vga_print cs s), vga_pos (vga_print cs s)) =
      fold (tty_put (unat (vga_current_color s) mod 256)) cs (vga_mem s, vga_pos s)"
proof -
  have col: "unat (ucast x :: u8) = unat (x :: u16) mod 256" for x by (simp add: unsigned_ucast_eq take_bit_eq_mod)
  have out: "k \<ge> 2000 \<Longrightarrow> p < 2000 \<Longrightarrow> fst (tty_put color c (m, p)) k = m k" for k p color c m
    by (simp add: tty_put_def tty_scroll_def Let_def)
  have step: "vga_mem (vga_putc x t) k = vga_mem t k" if i: "vga_inv t" and "k \<ge> 2000" for x k and t :: "'a vga_scheme"
  proof -
    have "vga_pos t < 2000" using i by (auto simp: vga_pos_def vga_inv_def)
    then show ?thesis using vga_putc_tty(2) [OF i, of x] out [OF that(2)] by (metis fst_conv)
  qed
  show ?thesis
    using assms
  proof (induction cs arbitrary: s)
    case (Cons c cs)
    then show ?case
      using vga_putc_tty [OF Cons.prems, of c] step [OF Cons.prems] Cons.IH [of "vga_putc c s"] by (simp add: col)
  qed simp
qed

theorem vga_on_screen_witness:
  "\<exists>s :: vga. vga_pos s = 1999 \<and> (\<forall>i. vga_mem s i = of_nat i) \<and>
     vga_pos (vga_print [65] s) = 1920 \<and> vga_mem (vga_print [65] s) 0 = 80 \<and> vga_mem (vga_print [65] s) 1919 = 0x0F41 \<and>
     vga_mem (vga_print [65] s) 1920 = 0x0F20 \<and> vga_mem (vga_print [65] s) 1999 = 0x0F20"
proof -
  let ?s = "\<lparr>vga_mem = of_nat, vga_row = 24, vga_col = 79, vga_current_color = 15, ports = []\<rparr> :: vga"
  have s: "vga_inv ?s" "vga_pos ?s = 1999" by (simp_all add: vga_inv_def vga_pos_def)
  have "(vga_mem (vga_print [65] ?s), vga_pos (vga_print [65] ?s)) = tty_put 15 65 (of_nat, 1999)"
    using vga_on_screen [OF s(1), of "[65]"] s(2) by (simp del: vga_print.simps)
  also have "\<dots> = (tty_scroll 15 (of_nat(1999 := 0x0F41)), 1920)" by (simp add: tty_put_def tty_cell_def)
  finally have "vga_mem (vga_print [65] ?s) = tty_scroll 15 (of_nat(1999 := 0x0F41))" "vga_pos (vga_print [65] ?s) = 1920"
    by simp_all
  then show ?thesis using s(2)
    by (intro exI [of _ ?s]) (simp add: tty_scroll_def tty_cell_def del: vga_print.simps)
qed

end
