(* ===== verification/Fb.thy ===== *)
theory Fb
  imports Vga
begin

text \<open>
  \<^verbatim>\<open>kernel/fb.c\<close>: the linear frame buffer and its single owner. The state extends that of the text console,
  with which it shares the video memory; \<open>plane2\<close> is the font plane seen through the window at
  \<^verbatim>\<open>0xA0000\<close>. What the PCI probe and the identification register return are arguments of \<open>fb_init\<close>.
\<close>

record fb = vga +
  fb_present :: bool
  fb_phys :: u32
  saved_font :: buf
  font_saved :: bool
  plane2 :: buf
  fb_owner :: int

definition bga_write :: "u16 \<Rightarrow> u16 \<Rightarrow> 'a vga_scheme \<Rightarrow> 'a vga_scheme" where
  "bga_write index value s = outw 0x01CF value (outw 0x01CE index s)"

definition vga_font_access_begin :: "'a vga_scheme \<Rightarrow> 'a vga_scheme" where
  "vga_font_access_begin s =
     outw 0x3CE 0x0406 (outw 0x3CE 0x0005 (outw 0x3CE 0x0204 (outw 0x3C4 0x0604 (outw 0x3C4 0x0402 s))))"

definition vga_font_access_end :: "'a vga_scheme \<Rightarrow> 'a vga_scheme" where
  "vga_font_access_end s =
     outw 0x3CE 0x0E06 (outw 0x3CE 0x1005 (outw 0x3CE 0x0004 (outw 0x3C4 0x0204 (outw 0x3C4 0x0302 s))))"

definition FB_FONT_BYTES :: nat where "FB_FONT_BYTES = 8192"

definition vga_save_font :: "'a fb_scheme \<Rightarrow> 'a fb_scheme" where
  "vga_save_font s =
     (let s = vga_font_access_begin s;
          s = s\<lparr>saved_font := memcpy_at (saved_font s) 0 (plane2 s) 0 FB_FONT_BYTES\<rparr>
      in (vga_font_access_end s)\<lparr>font_saved := True\<rparr>)"

definition text_misc :: u8 where "text_misc = 0x67"
definition text_seq :: "u8 list" where "text_seq = [0x03, 0x00, 0x03, 0x00, 0x02]"

definition text_crtc :: "u8 list" where
  "text_crtc = [0x5F, 0x4F, 0x50, 0x82, 0x55, 0x81, 0xBF, 0x1F, 0x00, 0x4F, 0x0D, 0x0E,
    0x00, 0x00, 0x00, 0x50, 0x9C, 0x0E, 0x8F, 0x28, 0x1F, 0x96, 0xB9, 0xA3, 0xFF]"

definition text_gc :: "u8 list" where
  "text_gc = [0x00, 0x00, 0x00, 0x00, 0x00, 0x10, 0x0E, 0x00, 0xFF]"

definition text_ac :: "u8 list" where
  "text_ac = [0x00, 0x01, 0x02, 0x03, 0x04, 0x05, 0x14, 0x07, 0x38, 0x39, 0x3A, 0x3B,
    0x3C, 0x3D, 0x3E, 0x3F, 0x0C, 0x00, 0x0F, 0x08, 0x00]"

text \<open>The loops that write a register file: number to the index port, value to the data port.\<close>

primrec out_regs :: "u16 \<Rightarrow> u16 \<Rightarrow> nat \<Rightarrow> u8 list \<Rightarrow> 'a vga_scheme \<Rightarrow> 'a vga_scheme" where
  "out_regs ip dp i [] s = s"
| "out_regs ip dp i (v # vs) s = out_regs ip dp (Suc i) vs (outb dp v (outb ip (of_nat i) s))"

definition vga_restore_text_mode :: "'a fb_scheme \<Rightarrow> 'a fb_scheme" where
  "vga_restore_text_mode s =
     (let s = outb 0x3C2 text_misc s;
          s = out_regs 0x3C4 0x3C5 0 text_seq s;
          s = outb 0x3D5 (text_crtc ! 0x11 AND 0x7F) (outb 0x3D4 0x11 s);
          s = out_regs 0x3D4 0x3D5 0 text_crtc s;
          s = out_regs 0x3CE 0x3CF 0 text_gc s;
          s = inb_port 0x3DA s;
          s = out_regs 0x3C0 0x3C0 0 text_ac s;
          s = outb 0x3C0 0x20 s
      in if font_saved s
         then let s = vga_font_access_begin s;
                  s = s\<lparr>plane2 := memcpy_at (plane2 s) 0 (saved_font s) 0 FB_FONT_BYTES\<rparr>
              in vga_font_access_end s
         else s)"

text \<open>\<open>found\<close>: the PCI device exists; \<open>ident\<close>: the value of its identification register; \<open>bar\<close>: its first
  base address register.\<close>

definition fb_init :: "bool \<Rightarrow> u16 \<Rightarrow> u32 \<Rightarrow> 'a fb_scheme \<Rightarrow> 'a fb_scheme" where
  "fb_init found ident bar s =
     (if \<not> found then s
      else let s = outw 0x01CE 0 s
        in if ident AND 0xFFF0 \<noteq> 0xB0C0 then s
           else vga_save_font (s\<lparr>fb_phys := bar AND 0xFFFFFFF0, fb_present := True\<rparr>))"

definition fb_claim :: "int \<Rightarrow> 'a fb_scheme \<Rightarrow> int \<times> 'a fb_scheme" where
  "fb_claim t s = (if fb_owner s \<noteq> - 1 \<and> fb_owner s \<noteq> t then (- 1, s) else (0, s\<lparr>fb_owner := t\<rparr>))"

definition fb_owned_by :: "int \<Rightarrow> 'a fb_scheme \<Rightarrow> bool" where
  "fb_owned_by t s \<longleftrightarrow> fb_owner s = t"

definition fb_release :: "int \<Rightarrow> 'a fb_scheme \<Rightarrow> 'a fb_scheme" where
  "fb_release t s = (if fb_owner s = t then s\<lparr>fb_owner := - 1\<rparr> else s)"

definition fb_font_data :: "'a fb_scheme \<Rightarrow> buf option" where
  "fb_font_data s = (if font_saved s then Some (saved_font s) else None)"

definition fb_enable :: "'a fb_scheme \<Rightarrow> int \<times> 'a fb_scheme" where
  "fb_enable s =
     (if \<not> fb_present s then (- 1, s)
      else (0, bga_write 4 (0x01 OR 0x40) (bga_write 3 32 (bga_write 2 768 (bga_write 1 1024 (bga_write 4 0 s))))))"

definition fb_disable :: "'a fb_scheme \<Rightarrow> 'a fb_scheme" where
  "fb_disable s = (if \<not> fb_present s then s else vga_restore_text_mode (bga_write 4 0 s))"

definition fb_task_exit :: "int \<Rightarrow> 'a fb_scheme \<Rightarrow> 'a fb_scheme" where
  "fb_task_exit t s = (if fb_owner s \<noteq> t then s else vga_clear (fb_disable (s\<lparr>fb_owner := - 1\<rparr>)))"

section \<open>Ownership\<close>

lemma out_regs_more:
  "fb_owner (out_regs ip dp i vs s) = fb_owner s" "fb_present (out_regs ip dp i vs s) = fb_present s"
  "font_saved (out_regs ip dp i vs s) = font_saved s" "saved_font (out_regs ip dp i vs s) = saved_font s"
  by (induction vs arbitrary: i s) (simp_all add: outb_def)

lemma clear_more:
  "fb_owner (vga_clear s) = fb_owner s" "fb_present (vga_clear s) = fb_present s"
  "font_saved (vga_clear s) = font_saved s" "saved_font (vga_clear s) = saved_font s"
proof -
  have r: "fb_owner (clear_row i n t) = fb_owner t \<and> fb_present (clear_row i n t) = fb_present t \<and>
      font_saved (clear_row i n t) = font_saved t \<and> saved_font (clear_row i n t) = saved_font t" for i n and t :: "'a fb_scheme"
    by (induction n) (simp_all add: Let_def)
  have "fb_owner (clear_rows n t) = fb_owner t \<and> fb_present (clear_rows n t) = fb_present t \<and>
      font_saved (clear_rows n t) = font_saved t \<and> saved_font (clear_rows n t) = saved_font t" for n and t :: "'a fb_scheme"
    by (induction n) (simp_all add: r)
  then show "fb_owner (vga_clear s) = fb_owner s" "fb_present (vga_clear s) = fb_present s"
    "font_saved (vga_clear s) = font_saved s" "saved_font (vga_clear s) = saved_font s"
    by (simp_all add: vga_clear_def vga_set_cursor_def outb_def Let_def)
qed

lemma disable_more:
  "fb_owner (fb_disable s) = fb_owner s" "fb_present (fb_disable s) = fb_present s"
  "font_saved (fb_disable s) = font_saved s" "saved_font (fb_disable s) = saved_font s"
  by (simp_all add: fb_disable_def vga_restore_text_mode_def bga_write_def out_regs_more outb_def outw_def inb_port_def
      vga_font_access_begin_def vga_font_access_end_def Let_def)

lemma fb_task_exit_owner: "fb_owner (fb_task_exit t s) = (if fb_owner s = t then - 1 else fb_owner s)"
  by (simp add: fb_task_exit_def clear_more disable_more)

end
