(* ===== verification/Process.thy ===== *)
theory Process
  imports Nos_Prelude
begin

text \<open>
  \<^verbatim>\<open>include/task.h\<close>: open files and tasks. Pointers are 32-bit addresses with 0 for null; the objects behind
  them are in the stores of the theories that own them. The array of files is indexed by descriptor, a
  task name is the list of its bytes.
\<close>

record file_obj =
  f_type :: u32
  f_node :: u32
  f_offset :: u32
  f_cid :: int
  f_pipe :: u32
  f_sock :: int

definition FD_NONE :: u32 where "FD_NONE = 0"
definition FD_CONSOLE :: u32 where "FD_CONSOLE = 1"
definition FD_CHANNEL :: u32 where "FD_CHANNEL = 2"
definition FD_FILE :: u32 where "FD_FILE = 3"
definition FD_PIPE_R :: u32 where "FD_PIPE_R = 4"
definition FD_PIPE_W :: u32 where "FD_PIPE_W = 5"
definition FD_SOCKET :: u32 where "FD_SOCKET = 6"
definition FD_WRITABLE :: u32 where "FD_WRITABLE = 0x100"
definition FD_WRITEONLY :: u32 where "FD_WRITEONLY = 0x200"

definition FD_TYPE :: "u32 \<Rightarrow> u32" where
  "FD_TYPE t = t AND 0xFF"

definition TASK_MAX_FILES :: nat where "TASK_MAX_FILES = 8"

record task =
  task_id :: int
  task_name :: "u8 list"
  esp :: u32
  stack_mem :: u32
  kstack_top :: u32
  task_dir :: u32
  owns_dir :: bool
  brk :: u32
  files :: "nat \<Rightarrow> file_obj"
  task_next :: u32
  reap_next :: u32

lemmas fd_defs = FD_NONE_def FD_CONSOLE_def FD_CHANNEL_def FD_FILE_def FD_PIPE_R_def FD_PIPE_W_def FD_SOCKET_def

lemma fd_distinct [simp]:
  "FD_PIPE_R \<noteq> FD_PIPE_W" "FD_PIPE_W \<noteq> FD_PIPE_R" "FD_SOCKET \<noteq> FD_PIPE_R" "FD_SOCKET \<noteq> FD_PIPE_W" "FD_PIPE_R \<noteq> FD_SOCKET"
  "FD_PIPE_W \<noteq> FD_SOCKET" "FD_NONE \<noteq> FD_PIPE_R" "FD_NONE \<noteq> FD_PIPE_W" "FD_NONE \<noteq> FD_SOCKET" "FD_PIPE_R \<noteq> FD_NONE" "FD_PIPE_W \<noteq> FD_NONE"
  "FD_SOCKET \<noteq> FD_NONE" "FD_CONSOLE \<noteq> FD_PIPE_R" "FD_CONSOLE \<noteq> FD_PIPE_W" "FD_CONSOLE \<noteq> FD_SOCKET" "FD_FILE \<noteq> FD_PIPE_R"
  "FD_FILE \<noteq> FD_PIPE_W" "FD_FILE \<noteq> FD_SOCKET" "FD_FILE \<noteq> FD_NONE" "FD_CHANNEL \<noteq> FD_PIPE_R" "FD_CHANNEL \<noteq> FD_PIPE_W" "FD_CHANNEL \<noteq> FD_SOCKET"
  by (simp_all add: fd_defs)

lemma FD_TYPE_simps [simp]:
  "FD_TYPE FD_NONE = FD_NONE" "FD_TYPE FD_CONSOLE = FD_CONSOLE" "FD_TYPE FD_CHANNEL = FD_CHANNEL" "FD_TYPE FD_FILE = FD_FILE"
  "FD_TYPE FD_PIPE_R = FD_PIPE_R" "FD_TYPE FD_PIPE_W = FD_PIPE_W" "FD_TYPE FD_SOCKET = FD_SOCKET"
  by (simp_all add: FD_TYPE_def fd_defs)

end
