(* ===== verification/Kmalloc.thy ===== *)
theory Kmalloc
  imports Nos_Prelude
begin

text \<open>
  \<^verbatim>\<open>kernel/kmalloc.c\<close>: the kernel heap, a chain of blocks that each start with a
  \<^verbatim>\<open>struct alloc\<close> header; a header of size 0 that is not in use ends the chain.
  Memory is a store of 32-bit words by byte address. Every walk runs with
  interrupts masked, so an operation is one atomic step.
\<close>

section \<open>Model\<close>

record alloc =
  size :: u32
  status :: u32

record kheap =
  kmem :: "nat \<Rightarrow> u32"
  heap :: u32
  heap_end :: u32

definition alloc_at :: "kheap \<Rightarrow> u32 \<Rightarrow> alloc" where
  "alloc_at h mem = \<lparr>size = kmem h (unat mem), status = kmem h (unat (mem + 4))\<rparr>"

definition set_alloc :: "kheap \<Rightarrow> u32 \<Rightarrow> alloc \<Rightarrow> kheap" where
  "set_alloc h mem a =
     h\<lparr>kmem := (kmem h)(unat mem := size a, unat (mem + 4) := status a)\<rparr>"

definition POINTER_TO_HEAD :: "u32 \<Rightarrow> u32" where "POINTER_TO_HEAD a = a - 8"
definition HEAD_TO_POINTER :: "u32 \<Rightarrow> u32" where "HEAD_TO_POINTER a = a + 8"
definition PAGE_ALIGNED :: "u32 \<Rightarrow> bool" where "PAGE_ALIGNED a \<longleftrightarrow> a AND 0xFFF = 0"
definition PAGE_ALIGN :: "u32 \<Rightarrow> u32" where "PAGE_ALIGN a = (a AND 0xFFFFF000) + 0x1000"

definition heap_init :: "u32 \<Rightarrow> u32 \<Rightarrow> kheap \<Rightarrow> kheap" where
  "heap_init kernel_end reserved_end h =
     (let start = (if reserved_end > kernel_end then reserved_end else kernel_end);
          start = (if start AND 0xFFF \<noteq> 0 then (start AND 0xFFFFF000) + 0x1000 else start);
          stop = start + 0x1000 * 600
      in \<lparr>kmem = (\<lambda>a. if unat start \<le> a \<and> a < unat start + unat (stop - start) then 0 else kmem h a),
          heap = start, heap_end = stop\<rparr>)"

definition round_size :: "u32 \<Rightarrow> u32" where
  "round_size n = (n + 8 - 1) AND NOT (8 - 1)"

partial_function (option) kmalloc_walk :: "kheap \<Rightarrow> u32 \<Rightarrow> u32 \<Rightarrow> (u32 \<times> kheap) outcome option" where
  "kmalloc_walk h sz mem =
     (if mem < heap_end h
      then let a = alloc_at h mem; next = mem + 8 + size a
           in if status a = 1 then kmalloc_walk h sz next
              else if status a = 0
              then if size a \<ge> sz
                   then Some (Done (HEAD_TO_POINTER mem, set_alloc h mem (a\<lparr>status := 1\<rparr>)))
                   else if size a = 0
                   then Some (Done (HEAD_TO_POINTER mem, set_alloc h mem (a\<lparr>size := sz, status := 1\<rparr>)))
                   else kmalloc_walk h sz next
              else kmalloc_walk h sz next
      else Some Panic)"

definition kmalloc :: "kheap \<Rightarrow> u32 \<Rightarrow> (u32 \<times> kheap) outcome option" where
  "kmalloc h n = kmalloc_walk h (round_size n) (heap h)"

definition kfree :: "kheap \<Rightarrow> u32 \<Rightarrow> kheap" where
  "kfree h ptr =
     (if ptr = 0 then h
      else let mem = POINTER_TO_HEAD ptr in set_alloc h mem ((alloc_at h mem)\<lparr>status := 0\<rparr>))"

text \<open>The last block of the chain when its payload is not page aligned: a padding block and an aligned one.\<close>

definition kmalloc_a_split :: "kheap \<Rightarrow> u32 \<Rightarrow> u32 \<Rightarrow> u32 \<times> kheap" where
  "kmalloc_a_split h sz mem =
     (let a = alloc_at h mem;
          addr = PAGE_ALIGN (HEAD_TO_POINTER mem);
          offset = addr - HEAD_TO_POINTER mem
      in if offset \<ge> 8
         then let h = set_alloc h mem (a\<lparr>size := offset - 8\<rparr>); b = addr - 8
              in (HEAD_TO_POINTER b, set_alloc h b \<lparr>size = sz, status = 1\<rparr>)
         else let h = set_alloc h mem (a\<lparr>size := offset + 0x1000 - 8\<rparr>); b = (addr + 0x1000) - 8
              in (HEAD_TO_POINTER b, set_alloc h b \<lparr>size = sz, status = 1\<rparr>))"

partial_function (option) kmalloc_a_walk :: "kheap \<Rightarrow> u32 \<Rightarrow> u32 \<Rightarrow> (u32 \<times> kheap) outcome option" where
  "kmalloc_a_walk h sz mem =
     (if mem < heap_end h
      then let a = alloc_at h mem; next = mem + 8 + size a
           in if status a = 1 then kmalloc_a_walk h sz next
              else if status a = 0
              then if size a \<ge> sz
                   then if PAGE_ALIGNED (HEAD_TO_POINTER mem)
                        then Some (Done (HEAD_TO_POINTER mem, set_alloc h mem (a\<lparr>status := 1\<rparr>)))
                        else kmalloc_a_walk h sz next
                   else if size a = 0
                   then if PAGE_ALIGNED (HEAD_TO_POINTER mem)
                        then Some (Done (HEAD_TO_POINTER mem,
                               set_alloc h mem (a\<lparr>status := 1, size := sz\<rparr>)))
                        else Some (Done (kmalloc_a_split h sz mem))
                   else kmalloc_a_walk h sz next
              else kmalloc_a_walk h sz next
      else Some Panic)"

definition kmalloc_a :: "kheap \<Rightarrow> u32 \<Rightarrow> (u32 \<times> kheap) outcome option" where
  "kmalloc_a h n = kmalloc_a_walk h (round_size n) (heap h)"

section \<open>The abstract heap: a list of blocks\<close>

text \<open>
  A block is its payload size and whether it is in use. \<open>chain m e a bs\<close> says that
  from address \<open>a\<close> the words of \<open>m\<close> are the headers of \<open>bs\<close>, that every header lies
  below the heap end \<open>e\<close>, and that memory after the last block is zero up to \<open>e\<close>.
\<close>

type_synonym block = "nat \<times> bool"

fun chain :: "(nat \<Rightarrow> u32) \<Rightarrow> nat \<Rightarrow> nat \<Rightarrow> block list \<Rightarrow> bool" where
  "chain m e a [] \<longleftrightarrow> 8 dvd a \<and> a < 2 ^ 32 \<and> (\<forall>x. a \<le> x \<and> x < e \<longrightarrow> m x = 0)"
| "chain m e a ((n, u) # bs) \<longleftrightarrow> 8 dvd a \<and> a < e \<and> n < 2 ^ 32 \<and> m a = of_nat n \<and>
     m (a + 4) = (if u then 1 else 0) \<and> (u \<or> 0 < n) \<and> chain m e (a + 8 + n) bs"

fun live :: "nat \<Rightarrow> block list \<Rightarrow> (nat \<times> nat) list" where
  "live a [] = []"
| "live a ((n, u) # bs) = (if u then [(a + 8, n)] else []) @ live (a + 8 + n) bs"

fun alloc_blocks :: "nat \<Rightarrow> nat \<Rightarrow> nat \<Rightarrow> block list \<Rightarrow> (nat \<times> block list) option" where
  "alloc_blocks e sz a [] = (if a < e then Some (a + 8, [(sz, True)]) else None)"
| "alloc_blocks e sz a ((n, u) # bs) =
     (if \<not> u \<and> sz \<le> n then Some (a + 8, (n, True) # bs)
      else map_option (\<lambda>(p, bs'). (p, (n, u) # bs')) (alloc_blocks e sz (a + 8 + n) bs))"

text \<open>The same for the page-aligned allocator; the padding block stays free.\<close>

fun alloc_blocks_a :: "nat \<Rightarrow> nat \<Rightarrow> nat \<Rightarrow> block list \<Rightarrow> (nat \<times> block list) option" where
  "alloc_blocks_a e sz a [] =
     (if e \<le> a then None
      else if 4096 dvd a + 8 then Some (a + 8, [(sz, True)])
      else let p = ((a + 8) div 4096 + 1) * 4096 in Some (p, [(p - a - 16, False), (sz, True)]))"
| "alloc_blocks_a e sz a ((n, u) # bs) =
     (if \<not> u \<and> sz \<le> n \<and> 4096 dvd a + 8 then Some (a + 8, (n, True) # bs)
      else map_option (\<lambda>(p, bs'). (p, (n, u) # bs')) (alloc_blocks_a e sz (a + 8 + n) bs))"

fun free_block :: "nat \<Rightarrow> nat \<Rightarrow> block list \<Rightarrow> block list" where
  "free_block p a [] = []"
| "free_block p a ((n, u) # bs) =
     (if p = a + 8 then (n, False) # bs else (n, u) # free_block p (a + 8 + n) bs)"

definition blocks_end :: "nat \<Rightarrow> block list \<Rightarrow> nat" where
  "blocks_end a bs = a + (\<Sum>(n, u)\<leftarrow>bs. 8 + n)"

definition heap_inv :: "kheap \<Rightarrow> block list \<Rightarrow> bool" where
  "heap_inv h bs \<longleftrightarrow> 4096 dvd unat (heap h) \<and> 4096 dvd unat (heap_end h) \<and>
     chain (kmem h) (unat (heap_end h)) (unat (heap h)) bs"

lemma unat_round_size:
  assumes "unat sz + 7 < 2 ^ 32"
  shows "unat (round_size sz) = (unat sz + 7) div 8 * 8"
proof -
  have "unat (sz + 8 - 1) = unat sz + 7"
    using assms by (simp add: unat_word_ariths)
  moreover have "(NOT (8 - 1) :: u32) = NOT (mask 3)"
    by (simp add: mask_eq_exp_minus_1)
  ultimately have "unat (round_size sz) = (unat sz + 7) div 2 ^ 3 * 2 ^ 3"
    using unat_and_not_mask [of "sz + 8 - 1" 3] unfolding round_size_def by presburger
  then show ?thesis by simp
qed

lemma chain_mono: "chain m e a bs \<Longrightarrow> (\<And>x. a \<le> x \<Longrightarrow> m' x = m x) \<Longrightarrow> chain m' e a bs"
  by (induction bs arbitrary: a) auto

lemma blocks_end_simps [simp]:
  "blocks_end a [] = a" "blocks_end a ((n, u) # bs) = blocks_end (a + 8 + n) bs"
  by (simp_all add: blocks_end_def)

lemma blocks_end_ge: "a \<le> blocks_end a bs"
  by (simp add: blocks_end_def)

lemma chain_end: "chain m e a bs \<Longrightarrow> blocks_end a bs < 2 ^ 32"
  by (induction bs arbitrary: a) auto

text \<open>Reading the header at a chain address.\<close>

lemma alloc_at_chain:
  assumes "a + 8 \<le> 2 ^ 32"
  shows "alloc_at h (of_nat a) = \<lparr>size = kmem h a, status = kmem h (a + 4)\<rparr>"
  using assms by (simp add: alloc_at_def unat_word_ariths unat_of_nat)

lemma set_alloc_chain:
  assumes "a + 8 \<le> 2 ^ 32"
  shows "set_alloc h (of_nat a) al = h\<lparr>kmem := (kmem h)(a := size al, a + 4 := status al)\<rparr>"
  using assms by (simp add: set_alloc_def unat_word_ariths unat_of_nat)

text \<open>
  The result \<open>r\<close> of an allocation on heap \<open>h\<close> whose blocks from address \<open>a\<close> are \<open>bs\<close>
  implements the abstract result \<open>res\<close>: it panics when the abstract heap is full; otherwise it
  returns the abstract pointer, the new headers describe the new blocks, and neither the words
  below \<open>a\<close> nor the payload of a block in use has changed.
\<close>

definition payloads_kept :: "nat \<Rightarrow> block list \<Rightarrow> (nat \<Rightarrow> u32) \<Rightarrow> (nat \<Rightarrow> u32) \<Rightarrow> bool" where
  "payloads_kept a bs m m' \<longleftrightarrow> (\<forall>x < a. m' x = m x) \<and>
     (\<forall>(q, n) \<in> set (live a bs). \<forall>x. q \<le> x \<and> x < q + n \<longrightarrow> m' x = m x)"

definition alloc_ok :: "kheap \<Rightarrow> nat \<Rightarrow> block list \<Rightarrow> (nat \<times> block list) option \<Rightarrow>
    (u32 \<times> kheap) outcome option \<Rightarrow> bool" where
  "alloc_ok h a bs res r \<longleftrightarrow> (case res of
       None \<Rightarrow> r = Some Panic
     | Some (p, bs') \<Rightarrow> \<exists>m'. r = Some (Done (of_nat p, h\<lparr>kmem := m'\<rparr>)) \<and>
         chain m' (unat (heap_end h)) a bs' \<and> payloads_kept a bs (kmem h) m')"

lemma alloc_ok_SomeI:
  "r = Some (Done (of_nat p, h\<lparr>kmem := m'\<rparr>)) \<Longrightarrow> chain m' (unat (heap_end h)) a bs' \<Longrightarrow>
   payloads_kept a bs (kmem h) m' \<Longrightarrow> alloc_ok h a bs (Some (p, bs')) r"
  by (auto simp: alloc_ok_def)

lemma live_ge: "(q, n) \<in> set (live a bs) \<Longrightarrow> a + 8 \<le> q \<and> q + n \<le> blocks_end a bs"
  by (induction a bs rule: live.induct) (auto intro: order_trans [OF _ blocks_end_ge] split: if_splits)

lemma frame_skip:
  assumes "payloads_kept (a + 8 + n) bs m m'"
  shows "payloads_kept a ((n, u) # bs) m m'" "m' a = m a" "m' (a + 4) = m (a + 4)"
  using assms by (auto simp: payloads_kept_def)

lemma frame_hdr:
  assumes "\<And>x. x < a \<or> a + 8 \<le> x \<and> x < blocks_end a bs \<Longrightarrow> m' x = m x"
  shows "payloads_kept a bs m m'"
  using assms live_ge [of _ _ a bs] by (fastforce simp: payloads_kept_def)

lemma alloc_ok_skip:
  assumes "alloc_ok h (a + 8 + n) bs res r" and "chain (kmem h) (unat (heap_end h)) a ((n, u) # bs)"
  shows "alloc_ok h a ((n, u) # bs) (map_option (\<lambda>(p, bs'). (p, (n, u) # bs')) res) r"
proof (cases res)
  case None
  with assms(1) show ?thesis by (simp add: alloc_ok_def)
next
  case (Some pb)
  obtain p bs' where "pb = (p, bs')" by force
  with Some assms(1) obtain m' where m: "r = Some (Done (of_nat p, h\<lparr>kmem := m'\<rparr>))"
      "chain m' (unat (heap_end h)) (a + 8 + n) bs'" "payloads_kept (a + 8 + n) bs (kmem h) m'"
    by (auto simp: alloc_ok_def)
  with assms(2) frame_skip [OF m(3)] have "chain m' (unat (heap_end h)) a ((n, u) # bs')"
    by simp
  then show ?thesis using alloc_ok_SomeI [OF m(1) _ frame_skip(1) [OF m(3)]]
    by (simp add: Some \<open>pb = (p, bs')\<close>)
qed

lemma take_block:
  assumes "chain m e a ((n, u) # bs)"
  shows "chain (m(a + 4 := 1)) e a ((n, True) # bs)"
  using assms by (auto elim!: chain_mono)

lemma hdr_fits: "8 dvd a \<Longrightarrow> 8 dvd e \<Longrightarrow> a < e \<Longrightarrow> a + 8 \<le> (e :: nat)"
  by (auto simp: dvd_def)

lemma hdr_fits_word:
  assumes "8 dvd a" and "8 dvd unat (heap_end h)" and "a < unat (heap_end h)"
  shows "a + 8 \<le> 2 ^ 32" "of_nat a < heap_end h"
proof -
  show "a + 8 \<le> 2 ^ 32"
    using le_less_trans [OF hdr_fits [OF assms] unat_lt_2p32] by simp
  then show "of_nat a < heap_end h"
    using assms(3) by (simp add: word_less_nat_alt unat_of_nat)
qed

lemma kmalloc_walk_hdr:
  assumes "8 dvd a" and "8 dvd unat (heap_end h)" and "a < unat (heap_end h)"
  shows "kmalloc_walk h sz (of_nat a) =
    (if kmem h (a + 4) = 0 \<and> sz \<le> kmem h a
     then Some (Done (of_nat (a + 8), h\<lparr>kmem := (kmem h)(a + 4 := 1)\<rparr>))
     else if kmem h (a + 4) = 0 \<and> kmem h a = 0
     then Some (Done (of_nat (a + 8), h\<lparr>kmem := (kmem h)(a := sz, a + 4 := 1)\<rparr>))
     else kmalloc_walk h sz (of_nat a + 8 + kmem h a))"
  using hdr_fits_word [OF assms]
  by (simp add: kmalloc_walk.simps [of h sz "of_nat a"] alloc_at_chain set_alloc_chain
      HEAD_TO_POINTER_def Let_def add.commute)

lemma kmalloc_walk_refines:
  assumes "chain (kmem h) (unat (heap_end h)) a bs" and e: "8 dvd unat (heap_end h)"
    and sz: "8 dvd sz" "unat (heap_end h) + sz < 2 ^ 32"
  shows "alloc_ok h a bs (alloc_blocks (unat (heap_end h)) sz a bs) (kmalloc_walk h (of_nat sz) (of_nat a))"
  using assms(1)
proof (induction bs arbitrary: a)
  case Nil
  show ?case
  proof (cases "a < unat (heap_end h)")
    case True
    with Nil e have z: "kmem h a = 0" "kmem h (a + 4) = 0" "a + 8 \<le> unat (heap_end h)"
      using hdr_fits [of a "unat (heap_end h)"] by auto
    let ?m = "(kmem h)(a := of_nat sz, a + 4 := 1)"
    have "kmalloc_walk h (of_nat sz) (of_nat a) = Some (Done (of_nat (a + 8), h\<lparr>kmem := ?m\<rparr>))"
      using Nil e z sz True by (auto simp: kmalloc_walk_hdr fun_upd_idem)
    then show ?thesis using True Nil sz z by (auto intro!: alloc_ok_SomeI frame_hdr)
  next
    case False
    with Nil show ?thesis
      by (simp add: kmalloc_walk.simps [of h "of_nat sz" "of_nat a"] nos_word alloc_ok_def)
  qed
next
  case (Cons b bs)
  obtain n u where b: "b = (n, u)" by force
  show ?case
  proof (cases "\<not> u \<and> sz \<le> n")
    case True
    with Cons.prems b e sz
    have "kmalloc_walk h (of_nat sz) (of_nat a) = Some (Done (of_nat (a + 8), h\<lparr>kmem := (kmem h)(a + 4 := 1)\<rparr>))"
      by (simp add: kmalloc_walk_hdr nos_word)
    then show ?thesis using True Cons.prems take_block [of "kmem h" _ a n u bs]
      by (auto simp: b intro!: alloc_ok_SomeI frame_hdr)
  next
    case False
    then have "kmalloc_walk h (of_nat sz) (of_nat a) = kmalloc_walk h (of_nat sz) (of_nat (a + 8 + n))"
      using Cons.prems e sz by (auto simp: b kmalloc_walk_hdr nos_word word_unat_eq_iff)
    with Cons.IH [of "a + 8 + n"] Cons.prems False show ?thesis
      using alloc_ok_skip [of h a n bs _ _ u] by (auto simp: b)
  qed
qed

text \<open>
  The aligned allocator. Block headers sit on multiples of 8, so the distance to the next page
  boundary is at least a header and the branch that skips a whole page is never taken.
\<close>

definition next_page :: "nat \<Rightarrow> nat" where
  "next_page x = (x div 4096 + 1) * 4096"

lemma next_page_le: "x < e \<Longrightarrow> 4096 dvd e \<Longrightarrow> next_page x \<le> e"
proof (elim dvdE)
  fix k assume "x < e" "e = 4096 * k"
  then have "x div 4096 < k" by (simp add: less_mult_imp_div_less mult.commute)
  then show ?thesis using \<open>e = 4096 * k\<close> by (simp add: next_page_def)
qed

lemma next_page_bounds: "x < next_page x" "next_page x \<le> x + 4096" "4096 dvd next_page x"
  by (simp_all add: next_page_def dividend_less_div_times)

lemma next_page_gap: "8 dvd x \<Longrightarrow> x + 8 \<le> next_page x"
proof -
  assume "8 dvd x"
  moreover have "8 dvd next_page x" by (rule dvd_trans [of _ 4096]) (simp_all add: next_page_bounds)
  ultimately show ?thesis using next_page_bounds(1) [of x] by (auto simp: dvd_def)
qed

lemma PAGE_ALIGNED_nat: "PAGE_ALIGNED a \<longleftrightarrow> 4096 dvd unat a"
  by (simp add: PAGE_ALIGNED_def word_unat_eq_iff unat_page_off dvd_eq_mod_eq_0)

lemma PAGE_ALIGN_nat:
  assumes "x + 4096 < 2 ^ 32"
  shows "PAGE_ALIGN (of_nat x) = of_nat (next_page x)"
proof -
  have "unat (of_nat x AND 0xFFFFF000 :: u32) = x div 4096 * 4096"
    using assms by (simp add: unat_page_base unat_of_nat)
  moreover from this have "unat ((of_nat x AND 0xFFFFF000) + 0x1000 :: u32) = x div 4096 * 4096 + 4096"
    using assms by (simp add: unat_word_ariths)
  moreover have "unat (of_nat (next_page x) :: u32) = next_page x"
    using assms next_page_bounds(2) [of x] by (intro unat_of_nat32) simp
  ultimately show ?thesis
    by (simp add: PAGE_ALIGN_def word_unat_eq_iff) (simp add: next_page_def)
qed

lemma kmalloc_a_split_eq:
  assumes "8 dvd a" and "a + 8 + 4096 < 2 ^ 32" and "p = next_page (a + 8)"
  shows "kmalloc_a_split h sz (of_nat a) =
    (of_nat p, h\<lparr>kmem := (kmem h)(a := of_nat (p - a - 16), p - 8 := sz, p - 4 := 1)\<rparr>)"
proof -
  have p: "a + 16 \<le> p" "p < 2 ^ 32"
    using next_page_gap [of "a + 8"] next_page_bounds [of "a + 8"] assms by auto
  have addr: "PAGE_ALIGN (of_nat a + 8) = of_nat p"
    using PAGE_ALIGN_nat [of "a + 8"] assms by (simp add: add.commute)
  have off: "(of_nat p - (of_nat a + 8) :: u32) = of_nat (p - a - 8)"
    using p by (simp add: of_nat_diff)
  have big: "(8 :: u32) \<le> of_nat (p - a - 8)"
    using p unat_of_nat32 [of "p - a - 8"] by (simp add: word_le_nat_alt del: of_nat_diff)
  have sub: "of_nat p - 8 = (of_nat (p - 8) :: u32)" "of_nat (p - a - 8) - 8 = (of_nat (p - a - 16) :: u32)"
    using p by (simp_all add: of_nat_diff)
  have pad: "set_alloc h (of_nat a) ((alloc_at h (of_nat a))\<lparr>size := v\<rparr>) = h\<lparr>kmem := (kmem h)(a := v)\<rparr>" for v
    using p by (simp add: set_alloc_chain alloc_at_chain fun_upd_idem)
  have blk: "set_alloc h' (of_nat (p - 8)) \<lparr>size = sz, status = 1\<rparr> =
      h'\<lparr>kmem := (kmem h')(p - 8 := sz, p - 4 := 1)\<rparr>" for h'
  proof -
    have "p - 8 + 4 = p - 4" using p by simp
    then show ?thesis
      using p set_alloc_chain [of "p - 8" h' "\<lparr>size = sz, status = 1\<rparr>"] by (simp del: of_nat_diff)
  qed
  show ?thesis
    unfolding kmalloc_a_split_def HEAD_TO_POINTER_def Let_def addr off if_P [OF big] sub pad blk
    using p by (simp add: of_nat_diff)
qed

lemma kmalloc_a_walk_hdr:
  assumes "8 dvd a" and "8 dvd unat (heap_end h)" and "a < unat (heap_end h)"
    and "unat (heap_end h) + 4096 < 2 ^ 32"
  shows "kmalloc_a_walk h sz (of_nat a) =
    (if kmem h (a + 4) = 0 \<and> sz \<le> kmem h a
     then if 4096 dvd a + 8 then Some (Done (of_nat (a + 8), h\<lparr>kmem := (kmem h)(a + 4 := 1)\<rparr>))
          else kmalloc_a_walk h sz (of_nat a + 8 + kmem h a)
     else if kmem h (a + 4) = 0 \<and> kmem h a = 0
     then if 4096 dvd a + 8 then Some (Done (of_nat (a + 8), h\<lparr>kmem := (kmem h)(a := sz, a + 4 := 1)\<rparr>))
          else Some (Done (of_nat (next_page (a + 8)), h\<lparr>kmem := (kmem h)(a := of_nat (next_page (a + 8) - a - 16),
            next_page (a + 8) - 8 := sz, next_page (a + 8) - 4 := 1)\<rparr>))
     else kmalloc_a_walk h sz (of_nat a + 8 + kmem h a))"
proof -
  have "unat (of_nat a + 8 :: u32) = a + 8"
    using unat_of_nat32 [of "a + 8"] hdr_fits [OF assms(1-3)] assms(4) by (simp add: add.commute)
  moreover have "kmalloc_a_split h sz (of_nat a) = (of_nat (next_page (a + 8)), h\<lparr>kmem := (kmem h)
      (a := of_nat (next_page (a + 8) - a - 16), next_page (a + 8) - 8 := sz, next_page (a + 8) - 4 := 1)\<rparr>)"
    using hdr_fits [OF assms(1-3)] assms(4) by (intro kmalloc_a_split_eq [OF assms(1) _ refl]) simp
  ultimately show ?thesis
    using hdr_fits_word [OF assms(1-3)]
    by (simp add: kmalloc_a_walk.simps [of h sz "of_nat a"] alloc_at_chain set_alloc_chain
        HEAD_TO_POINTER_def Let_def PAGE_ALIGNED_nat add.commute fun_upd_idem del: of_nat_diff)
qed

lemma chain_split:
  assumes "\<forall>x. a \<le> x \<and> x < e \<longrightarrow> m x = 0" and "8 dvd a" and "8 dvd p" and "a + 24 \<le> p" and "p \<le> e"
    and "e + sz < 2 ^ 32" and "8 dvd sz"
  shows "chain (m(a := of_nat (p - a - 16), p - 8 := of_nat sz, p - 4 := 1)) e a
    [(p - a - 16, False), (sz, True)]"
proof -
  obtain q where p: "p = a + 24 + q" using assms(4) le_Suc_ex by blast
  then have "p - a - 16 = q + 8" "p - 8 = a + 16 + q" "p - 4 = a + 20 + q" by simp_all
  moreover have "8 dvd q + 8" "8 dvd q" using assms(2,3) p
    by (auto simp: dvd_add_right_iff)
  ultimately show ?thesis using assms p by (simp add: add.assoc)
qed

lemma kmalloc_a_last:
  assumes "chain (kmem h) (unat (heap_end h)) a []" and e: "4096 dvd unat (heap_end h)"
    and sz: "8 dvd sz" "unat (heap_end h) + sz + 4096 < 2 ^ 32" "0 < sz"
    and "a < unat (heap_end h)" and "\<not> 4096 dvd a + 16"
  shows "alloc_ok h a [] (alloc_blocks_a (unat (heap_end h)) sz a []) (kmalloc_a_walk h (of_nat sz) (of_nat a))"
proof -
  let ?e = "unat (heap_end h)" and ?p = "next_page (a + 8)"
  have e8: "8 dvd ?e" using e by (rule dvd_trans [rotated]) simp
  have z: "kmem h a = 0" "kmem h (a + 4) = 0" "a + 8 \<le> ?e" "8 dvd a"
    using assms hdr_fits [of a ?e] e8 by auto
  have w: "\<not> of_nat sz \<le> (0 :: u32)" using sz by (simp add: word_le_nat_alt unat_of_nat)
  show ?thesis
  proof (cases "4096 dvd a + 8")
    case True
    let ?m = "(kmem h)(a := of_nat sz, a + 4 := 1)"
    have "kmalloc_a_walk h (of_nat sz) (of_nat a) = Some (Done (of_nat (a + 8), h\<lparr>kmem := ?m\<rparr>))"
      using True assms z w e8 by (simp add: kmalloc_a_walk_hdr)
    then show ?thesis using True assms z by (auto intro!: alloc_ok_SomeI frame_hdr)
  next
    case False
    have "?p \<noteq> a + 16" using next_page_bounds(3) [of "a + 8"] assms(7) by metis
    moreover have "a + 8 \<noteq> ?e" using False e by metis
    ultimately have g: "a + 16 < ?p" "?p \<le> ?e" "4096 dvd ?p"
      using next_page_gap [of "a + 8"] next_page_bounds(3) [of "a + 8"] next_page_le [of "a + 8" ?e]
        z e by simp_all
    then have g8: "8 dvd ?p" by (auto intro: dvd_trans [of 8 4096])
    have "a + 24 \<le> ?p" using g(1) g8 z(4) hdr_fits [of "a + 16" ?p] by simp
    let ?m = "(kmem h)(a := of_nat (?p - a - 16), ?p - 8 := of_nat sz, ?p - 4 := 1)"
    have r: "kmalloc_a_walk h (of_nat sz) (of_nat a) = Some (Done (of_nat ?p, h\<lparr>kmem := ?m\<rparr>))"
      using False assms z w e8 by (simp add: kmalloc_a_walk_hdr del: of_nat_diff)
    have c: "chain ?m ?e a [(?p - a - 16, False), (sz, True)]"
      using assms(1) sz(1,2) z(4) g(2) g8 \<open>a + 24 \<le> ?p\<close> by (intro chain_split) simp_all
    have "payloads_kept a [] (kmem h) ?m" using g by (auto simp: payloads_kept_def)
    then show ?thesis
      using alloc_ok_SomeI [OF r c] False assms(6) by (simp add: next_page_def Let_def)
  qed
qed

lemma kmalloc_a_walk_refines:
  assumes "chain (kmem h) (unat (heap_end h)) a bs" and e: "4096 dvd unat (heap_end h)"
    and sz: "8 dvd sz" "unat (heap_end h) + sz + 4096 < 2 ^ 32" "0 < sz"
    and "\<not> 4096 dvd blocks_end a bs + 16"
  shows "alloc_ok h a bs (alloc_blocks_a (unat (heap_end h)) sz a bs) (kmalloc_a_walk h (of_nat sz) (of_nat a))"
  using assms(1,6)
proof (induction bs arbitrary: a)
  case Nil
  show ?case
  proof (cases "a < unat (heap_end h)")
    case True
    with Nil e sz show ?thesis by (intro kmalloc_a_last) auto
  next
    case False
    with Nil show ?thesis
      by (simp add: kmalloc_a_walk.simps [of h "of_nat sz" "of_nat a"] nos_word alloc_ok_def)
  qed
next
  case (Cons b bs)
  obtain n u where b: "b = (n, u)" by force
  have e8: "8 dvd unat (heap_end h)" using e by (rule dvd_trans [rotated]) simp
  show ?case
  proof (cases "\<not> u \<and> sz \<le> n \<and> 4096 dvd a + 8")
    case True
    with Cons.prems b e8 sz
    have "kmalloc_a_walk h (of_nat sz) (of_nat a) = Some (Done (of_nat (a + 8), h\<lparr>kmem := (kmem h)(a + 4 := 1)\<rparr>))"
      by (simp add: kmalloc_a_walk_hdr nos_word)
    then show ?thesis using True Cons.prems take_block [of "kmem h" _ a n u bs]
      by (auto simp: b intro!: alloc_ok_SomeI frame_hdr)
  next
    case False
    have hdr: "8 dvd a" "a < unat (heap_end h)" "kmem h a = of_nat n"
      "kmem h (a + 4) = (if u then 1 else 0)" "u \<or> 0 < n" "n < 2 ^ 32"
      using Cons.prems(1) by (simp_all add: b)
    then have "(of_nat sz \<le> kmem h a) = (sz \<le> n)" "kmem h a = 0 \<longleftrightarrow> n = 0"
      using sz by (simp_all add: word_le_nat_alt unat_of_nat word_unat_eq_iff)
    moreover have "of_nat a + 8 + kmem h a = of_nat (a + 8 + n)" using hdr by simp
    ultimately have "kmalloc_a_walk h (of_nat sz) (of_nat a) = kmalloc_a_walk h (of_nat sz) (of_nat (a + 8 + n))"
      using False kmalloc_a_walk_hdr [OF hdr(1) e8 hdr(2), of "of_nat sz"] hdr(4,5) sz by (cases u) simp_all
    with Cons.IH [of "a + 8 + n"] Cons.prems False show ?thesis
      using alloc_ok_skip [of h a n bs _ _ u] by (auto simp: b)
  qed
qed

text \<open>What the abstract allocators do to the blocks in use: \<open>p\<close> becomes one, no other changes.\<close>

definition fresh :: "nat \<Rightarrow> nat \<Rightarrow> nat \<Rightarrow> block list \<Rightarrow> block list \<Rightarrow> bool" where
  "fresh sz a p bs bs' \<longleftrightarrow> p \<notin> fst ` set (live a bs) \<and>
     (\<exists>n \<ge> sz. set (live a bs') = insert (p, n) (set (live a bs)))"

lemma fresh_skip:
  assumes "fresh sz (a + 8 + n) p bs bs'"
  shows "fresh sz a p ((n, u) # bs) ((n, u) # bs')"
proof -
  from assms obtain k where k: "k \<ge> sz" "p \<notin> fst ` set (live (a + 8 + n) bs)"
      "set (live (a + 8 + n) bs') = insert (p, k) (set (live (a + 8 + n) bs))"
    by (auto simp: fresh_def)
  then have "a + 8 < p" using live_ge [of p k "a + 8 + n" bs'] by simp
  with k show ?thesis by (auto simp: fresh_def intro!: exI [of _ k])
qed

lemma fresh_take: "sz \<le> n \<Longrightarrow> fresh sz a (a + 8) ((n, False) # bs) ((n, True) # bs)"
  using live_ge [of _ _ "a + 8 + n" bs] by (force simp: fresh_def)

lemma alloc_blocks_fresh: "alloc_blocks e sz a bs = Some (p, bs') \<Longrightarrow> fresh sz a p bs bs'"
proof (induction bs arbitrary: a bs')
  case Nil
  then show ?case by (auto simp: fresh_def split: if_splits)
next
  case (Cons b bs)
  obtain n u where b: "b = (n, u)" by force
  show ?case
  proof (cases "\<not> u \<and> sz \<le> n")
    case True
    with Cons.prems b fresh_take [of sz n a bs] show ?thesis by auto
  next
    case False
    with Cons.prems b obtain bs2 where "alloc_blocks e sz (a + 8 + n) bs = Some (p, bs2)" "bs' = (n, u) # bs2"
      by (auto split: if_splits)
    with Cons.IH b show ?thesis by (simp add: fresh_skip)
  qed
qed

lemma alloc_blocks_a_fresh:
  "alloc_blocks_a e sz a bs = Some (p, bs') \<Longrightarrow> chain m e a bs \<Longrightarrow> fresh sz a p bs bs' \<and> 4096 dvd p"
proof (induction bs arbitrary: a bs')
  case Nil
  then show ?case using next_page_gap [of "a + 8"]
    by (auto simp: fresh_def Let_def next_page_def split: if_splits)
next
  case (Cons b bs)
  obtain n u where b: "b = (n, u)" by force
  show ?case
  proof (cases "\<not> u \<and> sz \<le> n \<and> 4096 dvd a + 8")
    case True
    with Cons.prems b fresh_take [of sz n a bs] show ?thesis by auto
  next
    case False
    with Cons.prems b obtain bs2 where "alloc_blocks_a e sz (a + 8 + n) bs = Some (p, bs2)" "bs' = (n, u) # bs2"
      by (auto split: if_splits)
    with Cons.IH Cons.prems(2) b show ?thesis by (simp add: fresh_skip)
  qed
qed

lemma free_block_chain:
  assumes "chain m e a bs" and "(p, n) \<in> set (live a bs)" and "0 < n"
    and m': "m' (p - 4) = 0" "\<And>x. x \<noteq> p - 4 \<Longrightarrow> m' x = m x"
  shows "chain m' e a (free_block p a bs) \<and>
    set (live a (free_block p a bs)) = set (live a bs) - {(p, n)}"
  using assms(1,2)
proof (induction bs arbitrary: a)
  case (Cons b bs)
  obtain k u where b: "b = (k, u)" by force
  note c = Cons.prems(1) [unfolded b chain.simps]
  show ?case
  proof (cases "p = a + 8")
    case True
    have notin: "(p, x) \<notin> set (live (a + 8 + k) bs)" for x
      using live_ge [of p x "a + 8 + k" bs] True by auto
    then have "k = n" "u" using Cons.prems(2) by (auto simp: b split: if_splits)
    have eq: "p - 4 = a + 4" using True by simp
    have "chain m' e (a + 8 + k) bs"
      by (rule chain_mono [where m = m]) (use c m'(2) eq in auto)
    then have "chain m' e a ((k, False) # bs)"
      unfolding chain.simps using c m' eq \<open>k = n\<close> assms(3) by simp
    then show ?thesis using notin [of n] \<open>k = n\<close> \<open>u\<close> True by (simp add: b del: chain.simps)
  next
    case False
    then have l: "(p, n) \<in> set (live (a + 8 + k) bs)" using Cons.prems(2) by (auto simp: b split: if_splits)
    then have "a + 16 + k \<le> p" using live_ge [of p n "a + 8 + k" bs] by simp
    then have ne: "p - 4 \<noteq> a" "p - 4 \<noteq> a + 4" "p \<noteq> a + 8" by simp_all
    have ih: "chain m' e (a + 8 + k) (free_block p (a + 8 + k) bs)"
      "set (live (a + 8 + k) (free_block p (a + 8 + k) bs)) = set (live (a + 8 + k) bs) - {(p, n)}"
      using Cons.IH [OF _ l] c by simp_all
    have "chain m' e a ((k, u) # free_block p (a + 8 + k) bs)"
      unfolding chain.simps using ih(1) c ne m'(2) by simp
    then show ?thesis using ih(2) ne by (auto simp: b simp del: chain.simps)
  qed
qed simp

lemma live_disjoint:
  "(p, n) \<in> set (live a bs) \<Longrightarrow> (q, k) \<in> set (live a bs) \<Longrightarrow> (p, n) \<noteq> (q, k) \<Longrightarrow> p + n + 8 \<le> q \<or> q + k + 8 \<le> p"
proof (induction bs arbitrary: a)
  case (Cons b bs)
  then show ?case
    using live_ge [of p n "a + 8 + fst b" bs] live_ge [of q k "a + 8 + fst b" bs]
    by (cases b) (auto split: if_splits)
qed simp

lemma chain_store:
  assumes "chain m e a bs" and "(p, n) \<in> set (live a bs)" and "p \<le> x" and "x < p + n"
    and m': "\<And>y. y \<noteq> x \<Longrightarrow> m' y = m y"
  shows "chain m' e a bs"
  using assms(1,2)
proof (induction bs arbitrary: a)
  case (Cons b bs)
  obtain k u where b: "b = (k, u)" by force
  show ?case
  proof (cases "(p, n) \<in> set (live (a + 8 + k) bs)")
    case True
    then have "a + 8 + k \<le> x" using live_ge [of p n "a + 8 + k" bs] assms(3) by simp
    with Cons.IH [OF _ True] Cons.prems(1) b m' show ?thesis by auto
  next
    case False
    then have "p = a + 8" "n = k" using Cons.prems b by (auto split: if_splits)
    moreover from this have "chain m' e (a + 8 + k) bs"
      using Cons.prems(1) b assms(3,4) m' by (auto elim!: chain_mono)
    ultimately show ?thesis using Cons.prems(1) b assms(3,4) m' by auto
  qed
qed simp

section \<open>The allocator contract\<close>

text \<open>A request small enough that the rounded size and the chain end fit in 32 bits.\<close>

definition request_ok :: "kheap \<Rightarrow> block list \<Rightarrow> u32 \<Rightarrow> bool" where
  "request_ok h bs n \<longleftrightarrow> 0 < n \<and> unat (heap_end h) + unat n + 0x2000 < 2 ^ 32"

text \<open>
  For the aligned allocator also: the chain does not end exactly two headers below a page
  boundary. There the padding block would have size zero; see \<open>kmalloc_a_zero_pad\<close> below.
\<close>

definition request_a_ok :: "kheap \<Rightarrow> block list \<Rightarrow> u32 \<Rightarrow> bool" where
  "request_a_ok h bs n \<longleftrightarrow> request_ok h bs n \<and> \<not> 4096 dvd blocks_end (unat (heap h)) bs + 16"

locale allocator =
  fixes alloc :: "kheap \<Rightarrow> u32 \<Rightarrow> (u32 \<times> kheap) outcome option"
    and place :: "nat \<Rightarrow> nat \<Rightarrow> nat \<Rightarrow> block list \<Rightarrow> (nat \<times> block list) option"
    and ok :: "kheap \<Rightarrow> block list \<Rightarrow> u32 \<Rightarrow> bool"
  assumes refines: "heap_inv h bs \<Longrightarrow> ok h bs n \<Longrightarrow>
      alloc_ok h (unat (heap h)) bs (place (unat (heap_end h)) (unat (round_size n)) (unat (heap h)) bs) (alloc h n)"
    and place_fresh: "heap_inv h bs \<Longrightarrow> place (unat (heap_end h)) sz (unat (heap h)) bs = Some (p, bs') \<Longrightarrow>
      fresh sz (unat (heap h)) p bs bs'"
    and ok_round: "ok h bs n \<Longrightarrow> unat n \<le> unat (round_size n)"
begin

lemma returns:
  "heap_inv h bs \<Longrightarrow> ok h bs n \<Longrightarrow> \<exists>r. alloc h n = Some r"
  using refines [of h bs n] by (auto simp: alloc_ok_def split: option.splits)

text \<open>A successful allocation is a new block of at least the size asked for.\<close>

lemma success:
  assumes "heap_inv h bs" and "ok h bs n" and "alloc h n = Some (Done (p, h'))"
  obtains bs' k where "heap_inv h' bs'" and "heap h' = heap h" and "heap_end h' = heap_end h"
    and "unat n \<le> k" and "unat p \<notin> fst ` set (live (unat (heap h)) bs)"
    and "set (live (unat (heap h)) bs') = insert (unat p, k) (set (live (unat (heap h)) bs))"
    and "payloads_kept (unat (heap h)) bs (kmem h) (kmem h')"
proof -
  let ?r = "place (unat (heap_end h)) (unat (round_size n)) (unat (heap h)) bs"
  from refines [OF assms(1,2)] assms(3) obtain q bs' m' where r: "?r = Some (q, bs')" "p = of_nat q"
      "h' = h\<lparr>kmem := m'\<rparr>" "chain m' (unat (heap_end h)) (unat (heap h)) bs'"
      "payloads_kept (unat (heap h)) bs (kmem h) m'"
    by (auto simp: alloc_ok_def split: option.splits)
  from place_fresh [OF assms(1) r(1)] obtain k where k: "unat (round_size n) \<le> k"
      "q \<notin> fst ` set (live (unat (heap h)) bs)"
      "set (live (unat (heap h)) bs') = insert (q, k) (set (live (unat (heap h)) bs))"
    by (auto simp: fresh_def)
  then have "q < 2 ^ 32" using live_ge [of q k _ bs'] chain_end [OF r(4)] by fastforce
  then have "unat p = q" using r(2) by (simp add: unat_of_nat)
  with r k ok_round [OF assms(2)] assms(1) that [of bs' k] show thesis
    by (auto simp: heap_inv_def)
qed

end

lemma request_round:
  assumes "request_ok h bs n"
  shows "unat (round_size n) = (unat n + 7) div 8 * 8" "8 dvd unat (round_size n)"
    "unat n \<le> unat (round_size n)" "unat (round_size n) \<le> unat n + 7"
proof -
  show eq: "unat (round_size n) = (unat n + 7) div 8 * 8"
    using assms by (intro unat_round_size) (simp add: request_ok_def)
  show "8 dvd unat (round_size n)" "unat n \<le> unat (round_size n)" "unat (round_size n) \<le> unat n + 7"
    unfolding eq using div_mult_mod_eq [of "unat n + 7" 8] mod_less_divisor [of 8 "unat n + 7"]
    by (simp, linarith, linarith)
qed

lemma heap_inv_8: "heap_inv h bs \<Longrightarrow> 8 dvd unat (heap_end h)"
  by (auto simp: heap_inv_def intro: dvd_trans [of 8 4096])

interpretation km: allocator kmalloc alloc_blocks request_ok
proof
  fix h bs n sz p bs'
  show "alloc_ok h (unat (heap h)) bs (alloc_blocks (unat (heap_end h)) (unat (round_size n)) (unat (heap h)) bs)
      (kmalloc h n)" if "heap_inv h bs" "request_ok h bs n"
    using kmalloc_walk_refines [of h "unat (heap h)" bs "unat (round_size n)"] that
      request_round(2-4) [OF that(2)] heap_inv_8 [OF that(1)]
    by (simp add: kmalloc_def heap_inv_def request_ok_def)
  show "fresh sz (unat (heap h)) p bs bs'"
    if "alloc_blocks (unat (heap_end h)) sz (unat (heap h)) bs = Some (p, bs')"
    using that by (rule alloc_blocks_fresh)
  show "unat n \<le> unat (round_size n)" if "request_ok h bs n"
    using request_round [OF that] by simp
qed

interpretation kma: allocator kmalloc_a alloc_blocks_a request_a_ok
proof
  fix h bs n sz p bs'
  show "alloc_ok h (unat (heap h)) bs (alloc_blocks_a (unat (heap_end h)) (unat (round_size n)) (unat (heap h)) bs)
      (kmalloc_a h n)" if "heap_inv h bs" "request_a_ok h bs n"
  proof -
    from that(2) have rq: "request_ok h bs n" "\<not> 4096 dvd blocks_end (unat (heap h)) bs + 16"
      by (simp_all add: request_a_ok_def)
    moreover from rq have "0 < unat n" by (simp add: request_ok_def word_less_nat_alt)
    ultimately show ?thesis
      using kmalloc_a_walk_refines [of h "unat (heap h)" bs "unat (round_size n)"] that(1)
        request_round(2-4) [OF rq(1)]
      by (simp add: kmalloc_a_def heap_inv_def request_ok_def)
  qed
  show "fresh sz (unat (heap h)) p bs bs'"
    if "heap_inv h bs" "alloc_blocks_a (unat (heap_end h)) sz (unat (heap h)) bs = Some (p, bs')"
    using alloc_blocks_a_fresh [OF that(2)] that(1) by (auto simp: heap_inv_def)
  show "unat n \<le> unat (round_size n)" if "request_a_ok h bs n"
    using that request_round(3) [of h bs n] by (simp add: request_a_ok_def)
qed

lemma kfree_inv:
  assumes "heap_inv h bs" and "(unat p, n) \<in> set (live (unat (heap h)) bs)" and "0 < n"
  shows "heap_inv (kfree h p) (free_block (unat p) (unat (heap h)) bs)"
    "heap (kfree h p) = heap h" "heap_end (kfree h p) = heap_end h"
proof -
  have "8 \<le> unat p" using live_ge [OF assms(2)] by simp
  then have "unat (p - 8) = unat p - 8" "unat (p - 8) + 8 \<le> 2 ^ 32" "p \<noteq> 0"
    using unat_sub [of 8 p] unat_lt_2p32 [of p] by (auto simp: word_le_nat_alt less_imp_le)
  moreover from this have "unat p - 8 + 4 = unat p - 4" using \<open>8 \<le> unat p\<close> by simp
  ultimately have "kfree h p = h\<lparr>kmem := (kmem h)(unat p - 4 := 0)\<rparr>"
    using alloc_at_chain [of "unat (p - 8)" h] set_alloc_chain [of "unat (p - 8)" h]
    by (simp add: kfree_def POINTER_TO_HEAD_def fun_upd_idem)
  with free_block_chain [OF _ assms(2,3), of "kmem h" _ "kmem (kfree h p)"] assms(1) show
    "heap_inv (kfree h p) (free_block (unat p) (unat (heap h)) bs)"
    "heap (kfree h p) = heap h" "heap_end (kfree h p) = heap_end h"
    by (auto simp: heap_inv_def)
qed

lemma heap_init_start:
  assumes "unat (s :: u32) < 0xFF000000"
  shows "4096 dvd unat (if s AND 0xFFF \<noteq> 0 then (s AND 0xFFFFF000) + 0x1000 else s)"
    "unat (if s AND 0xFFF \<noteq> 0 then (s AND 0xFFFFF000) + 0x1000 else s) < 0xFF001000"
proof -
  have "unat ((s AND 0xFFFFF000) + 0x1000) = unat s div 4096 * 4096 + 4096"
    using assms div_times_less_eq_dividend [of "unat s" 4096]
    by (simp add: unat_word_ariths unat_page_base)
  moreover have "unat s div 4096 * 4096 \<le> unat s" by simp
  ultimately show "unat (if s AND 0xFFF \<noteq> 0 then (s AND 0xFFFFF000) + 0x1000 else s) < 0xFF001000"
    "4096 dvd unat (if s AND 0xFFF \<noteq> 0 then (s AND 0xFFFFF000) + 0x1000 else s)"
    using assms PAGE_ALIGNED_nat [of s] by (auto simp: PAGE_ALIGNED_def)
qed

lemma heap_init_inv:
  assumes "unat kernel_end < 0xFF000000" and "unat reserved_end < 0xFF000000"
  shows "heap_inv (heap_init kernel_end reserved_end h) []"
proof -
  let ?s = "if reserved_end > kernel_end then reserved_end else kernel_end"
  define st where "st = (if ?s AND 0xFFF \<noteq> 0 then (?s AND 0xFFFFF000) + 0x1000 else ?s)"
  have st: "4096 dvd unat st" "unat st < 0xFF001000"
    using heap_init_start [of ?s] assms unfolding st_def by auto
  then have e: "unat (st + 0x1000 * 600) = unat st + 0x1000 * 600" by (simp add: unat_word_ariths)
  have i: "heap_init kernel_end reserved_end h =
      \<lparr>kmem = (\<lambda>a. if unat st \<le> a \<and> a < unat st + unat ((st + 0x1000 * 600) - st) then 0 else kmem h a),
       heap = st, heap_end = st + 0x1000 * 600\<rparr>"
    unfolding heap_init_def Let_def st_def by (rule refl)
  have "4096 dvd unat (st + 0x1000 * 600)" unfolding e using st(1) by (intro dvd_add) simp_all
  moreover have "8 dvd unat st" using st(1) by (rule dvd_trans [rotated]) simp
  moreover have "unat ((st + 0x1000 * 600) - st) = 0x1000 * 600" by simp
  ultimately show ?thesis
    unfolding i heap_inv_def using st e by (simp del: add_diff_cancel_left')
qed

section \<open>Clients of the heap\<close>

text \<open>
  The heap with the blocks its clients own (pointer and requested size): clients make admissible
  allocations (\<open>request_ok\<close>, \<open>request_a_ok\<close>), free a block they own, and store words anywhere inside
  the blocks they own.
\<close>

type_synonym heap_sys = "kheap \<times> (u32 \<times> u32) set"

inductive heap_step :: "heap_sys \<Rightarrow> heap_sys \<Rightarrow> bool" where
  alloc: "heap_inv h bs \<Longrightarrow> request_ok h bs n \<Longrightarrow> kmalloc h n = Some (Done (p, h')) \<Longrightarrow>
    heap_step (h, own) (h', insert (p, n) own)"
| alloc_a: "heap_inv h bs \<Longrightarrow> request_a_ok h bs n \<Longrightarrow> kmalloc_a h n = Some (Done (p, h')) \<Longrightarrow>
    heap_step (h, own) (h', insert (p, n) own)"
| free: "(p, n) \<in> own \<Longrightarrow> heap_step (h, own) (kfree h p, own - {(p, n)})"
| store: "(p, n) \<in> own \<Longrightarrow> unat p \<le> x \<Longrightarrow> x < unat p + unat n \<Longrightarrow>
    heap_step (h, own) (h\<lparr>kmem := (kmem h)(x := v)\<rparr>, own)"

inductive heap_reach :: "heap_sys \<Rightarrow> bool" where
  boot: "unat kernel_end < 0xFF000000 \<Longrightarrow> unat reserved_end < 0xFF000000 \<Longrightarrow>
    heap_reach (heap_init kernel_end reserved_end h, {})"
| step: "heap_reach s \<Longrightarrow> heap_step s t \<Longrightarrow> heap_reach t"

text \<open>Every owned block is a block in use of at least the requested size, and pointers are distinct.\<close>

definition owned :: "kheap \<Rightarrow> block list \<Rightarrow> (u32 \<times> u32) set \<Rightarrow> bool" where
  "owned h bs own \<longleftrightarrow> heap_inv h bs \<and> inj_on fst own \<and>
     (\<forall>(p, n) \<in> own. 0 < n \<and> (\<exists>k \<ge> unat n. (unat p, k) \<in> set (live (unat (heap h)) bs)))"

text \<open>A block list is determined by memory.\<close>

lemma chain_end_zero:
  assumes "8 dvd e" and "chain m e a []"
  shows "\<not> chain m e a ((n, u) # bs)"
proof
  assume c: "chain m e a ((n, u) # bs)"
  then have "a + 8 \<le> e" using assms(1) hdr_fits by simp
  then have "m a = 0" "m (a + 4) = 0" using assms(2) by simp_all
  with c have "(of_nat n :: u32) = of_nat 0" "\<not> u" "0 < n" "n < 4294967296" by (simp_all split: if_splits)
  then show False using of_nat_inj32 [of n 0] by simp
qed

lemma chain_unique: "8 dvd e \<Longrightarrow> chain m e a bs \<Longrightarrow> chain m e a cs \<Longrightarrow> bs = cs"
proof (induction bs arbitrary: a cs)
  case Nil
  then show ?case using chain_end_zero by (metis neq_Nil_conv surj_pair)
next
  case (Cons b bs)
  obtain n u where b: "b = (n, u)" by force
  from Cons.prems obtain k v cs' where c: "cs = (k, v) # cs'"
    using chain_end_zero b by (metis neq_Nil_conv surj_pair)
  have "(of_nat n :: u32) = of_nat k" "n < 4294967296" "k < 4294967296" "u = v"
    using Cons.prems(2,3) by (simp_all add: b c split: if_splits)
  then have "n = k" "u = v" using of_nat_inj32 by blast+
  then show ?case using Cons.IH [of "a + 8 + n" cs'] Cons.prems by (simp add: b c)
qed

lemma heap_inv_unique: "heap_inv h bs \<Longrightarrow> heap_inv h cs \<Longrightarrow> bs = cs"
  using chain_unique [OF heap_inv_8] unfolding heap_inv_def by blast

lemma owned_block:
  assumes "owned h bs own" and "(p, n) \<in> own"
  obtains k where "unat n \<le> k" and "0 < k" and "(unat p, k) \<in> set (live (unat (heap h)) bs)"
  using assms by (force simp: owned_def word_less_nat_alt)

lemma owned_alloc:
  assumes "owned h bs own" and "0 < n" and "heap_inv h' bs'" and "heap h' = heap h" and "unat n \<le> k"
    and "unat p \<notin> fst ` set (live (unat (heap h)) bs)"
    and "set (live (unat (heap h)) bs') = insert (unat p, k) (set (live (unat (heap h)) bs))"
  shows "owned h' bs' (insert (p, n) own)"
proof -
  have "p \<notin> fst ` own" using assms(1,6) by (force simp: owned_def)
  then have "inj_on fst (insert (p, n) own)" using assms(1) by (auto simp: owned_def inj_on_def)
  then show ?thesis using assms by (fastforce simp: owned_def)
qed

context allocator
begin

lemma owned_success:
  assumes "owned h bs own" and "ok h bs n" and "0 < n" and "alloc h n = Some (Done (p, h'))"
  shows "\<exists>bs'. owned h' bs' (insert (p, n) own)"
proof -
  have inv: "heap_inv h bs" using assms(1) by (simp add: owned_def)
  obtain bs' k where "heap_inv h' bs'" "heap h' = heap h" "unat n \<le> k"
      "unat p \<notin> fst ` set (live (unat (heap h)) bs)"
      "set (live (unat (heap h)) bs') = insert (unat p, k) (set (live (unat (heap h)) bs))"
    by (rule success [OF inv assms(2,4)])
  from owned_alloc [OF assms(1,3) this] show ?thesis ..
qed

end

lemma owned_free:
  assumes o: "owned h bs own" and "(p, n) \<in> own"
  shows "owned (kfree h p) (free_block (unat p) (unat (heap h)) bs) (own - {(p, n)})"
proof -
  obtain k where k: "unat n \<le> k" "0 < k" "(unat p, k) \<in> set (live (unat (heap h)) bs)"
    using owned_block [OF assms] .
  have inv: "heap_inv h bs" using o by (simp add: owned_def)
  note f = kfree_inv [OF inv k(3,2)]
  have l: "set (live (unat (heap h)) (free_block (unat p) (unat (heap h)) bs)) =
      set (live (unat (heap h)) bs) - {(unat p, k)}"
    using free_block_chain [OF _ k(3,2), of "kmem h" "unat (heap_end h)" "(kmem h)(unat p - 4 := 0)"] inv
    by (simp add: heap_inv_def)
  have "0 < m \<and> (\<exists>j \<ge> unat m. (unat q, j) \<in> set (live (unat (heap h)) bs) - {(unat p, k)})"
    if "(q, m) \<in> own - {(p, n)}" for q m
  proof -
    have "q \<noteq> p" using o that assms(2) inj_onD [of fst own "(q, m)" "(p, n)"] by (auto simp: owned_def)
    then have "unat q \<noteq> unat p" by (simp add: word_unat_eq_iff)
    with o that show ?thesis by (auto simp: owned_def)
  qed
  moreover have "inj_on fst (own - {(p, n)})" using o by (auto simp: owned_def inj_on_def)
  ultimately show ?thesis unfolding owned_def f(2) l using f(1) by auto
qed

lemma owned_store:
  assumes "owned h bs own" and "(p, n) \<in> own" and "unat p \<le> x" and "x < unat p + unat n"
  shows "owned (h\<lparr>kmem := (kmem h)(x := v)\<rparr>) bs own"
proof -
  obtain k where k: "unat n \<le> k" "(unat p, k) \<in> set (live (unat (heap h)) bs)"
    using owned_block [OF assms(1,2)] .
  then show ?thesis
    using assms chain_store [OF _ k(2), of "kmem h" "unat (heap_end h)" x "(kmem h)(x := v)"]
    by (simp add: owned_def heap_inv_def)
qed

lemma heap_step_owned:
  assumes "heap_step s t" and "owned (fst s) bs (snd s)"
  shows "\<exists>bs'. owned (fst t) bs' (snd t)"
  using assms
proof (induction rule: heap_step.induct)
  case (alloc h cs n p h' own)
  then have "owned h bs own" and "cs = bs" using heap_inv_unique by (auto simp: owned_def)
  with km.owned_success [of h bs own n p h'] alloc(2,3) show ?case by (auto simp: request_ok_def)
next
  case (alloc_a h cs n p h' own)
  then have "owned h bs own" and "cs = bs" using heap_inv_unique by (auto simp: owned_def)
  with kma.owned_success [of h bs own n p h'] alloc_a(2,3) show ?case by (auto simp: request_ok_def request_a_ok_def)
next
  case (free p n own h)
  then show ?case using owned_free [of h bs own p n] by auto
next
  case (store p n own x h v)
  then show ?case using owned_store [of h bs own p n x v] by auto
qed

section \<open>Properties\<close>

text \<open>
  C5: \<^verbatim>\<open>kmalloc\<close> is first fit on the block list: its walk always ends, it panics exactly when
  no free block fits and the chain has reached the heap end, and otherwise it returns the payload
  of the first free block that is large enough (or of a new last block), leaving the payload of
  every block in use unchanged.
\<close>

theorem kmalloc_refines:
  assumes "heap_inv h bs" and "request_ok h bs n"
  shows "case alloc_blocks (unat (heap_end h)) ((unat n + 7) div 8 * 8) (unat (heap h)) bs of
      None \<Rightarrow> kmalloc h n = Some Panic
    | Some (p, bs') \<Rightarrow> \<exists>h'. kmalloc h n = Some (Done (of_nat p, h')) \<and> heap_inv h' bs' \<and>
        payloads_kept (unat (heap h)) bs (kmem h) (kmem h')"
  using km.refines [OF assms] assms(1) unfolding alloc_ok_def request_round(1) [OF assms(2)]
  by (force simp: heap_inv_def split: option.splits)

definition demo_heap :: kheap where
  "demo_heap = heap_init 0x100000 0 \<lparr>kmem = (\<lambda>_. 0), heap = 0, heap_end = 0\<rparr>"

lemma demo_heap_inv: "heap_inv demo_heap []" "heap demo_heap = 0x100000" "heap_end demo_heap = 0x358000"
  using heap_init_inv [where kernel_end = "0x100000" and reserved_end = 0] by (simp_all add: demo_heap_def) (simp_all add: heap_init_def Let_def)

theorem kmalloc_refines_witness: "\<exists>h'. kmalloc demo_heap 100 = Some (Done (0x100008, h')) \<and> heap_inv h' [(104, True)]"
  using kmalloc_refines [OF demo_heap_inv(1), of 100] demo_heap_inv(2,3) by (auto simp: request_ok_def)

text \<open>
  C26: The page-aligned allocator returns a page-aligned pointer to a block in use of the requested
  size, keeps the other blocks in use and their payloads, and panics only when the heap is full,
  provided the chain does not end exactly 16 bytes below a page boundary.
\<close>

theorem kmalloc_a_spec:
  assumes "heap_inv h bs" and "request_a_ok h bs n"
  shows "kmalloc_a h n = Some Panic \<and>
      alloc_blocks_a (unat (heap_end h)) (unat (round_size n)) (unat (heap h)) bs = None \<or>
    (\<exists>p h' bs' k. kmalloc_a h n = Some (Done (p, h')) \<and> 4096 dvd unat p \<and> heap_inv h' bs' \<and> unat n \<le> k \<and>
      unat p \<notin> fst ` set (live (unat (heap h)) bs) \<and>
      set (live (unat (heap h)) bs') = insert (unat p, k) (set (live (unat (heap h)) bs)) \<and>
      payloads_kept (unat (heap h)) bs (kmem h) (kmem h'))"
proof (cases "alloc_blocks_a (unat (heap_end h)) (unat (round_size n)) (unat (heap h)) bs")
  case None
  then show ?thesis using kma.refines [OF assms] by (simp add: alloc_ok_def)
next
  case (Some qb)
  obtain q bs2 where qb: "qb = (q, bs2)" by force
  with Some kma.refines [OF assms] obtain h' where h: "kmalloc_a h n = Some (Done (of_nat q, h'))"
    by (auto simp: alloc_ok_def)
  have "4096 dvd q" using alloc_blocks_a_fresh Some qb assms(1) by (auto simp: heap_inv_def)
  then have "4096 dvd unat (of_nat q :: u32)" by (simp add: unat_of_nat dvd_mod)
  moreover obtain bs' k where "heap_inv h' bs'" "unat n \<le> k"
      "unat (of_nat q :: u32) \<notin> fst ` set (live (unat (heap h)) bs)"
      "set (live (unat (heap h)) bs') = insert (unat (of_nat q :: u32), k) (set (live (unat (heap h)) bs))"
      "payloads_kept (unat (heap h)) bs (kmem h) (kmem h')"
    by (rule kma.success [OF assms h])
  ultimately show ?thesis using h by blast
qed

theorem kmalloc_a_spec_witness:
  "\<exists>p h' bs'. kmalloc_a demo_heap 0x2004 = Some (Done (p, h')) \<and> 4096 dvd unat p \<and> heap_inv h' bs'"
proof -
  have "request_a_ok demo_heap [] 0x2004"
    using demo_heap_inv by (simp add: request_a_ok_def request_ok_def dvd_eq_mod_eq_0)
  moreover have "alloc_blocks_a (unat (heap_end demo_heap)) sz (unat (heap demo_heap)) [] \<noteq> None" for sz
    using demo_heap_inv by (simp add: Let_def)
  ultimately show ?thesis
    using kmalloc_a_spec [OF demo_heap_inv(1), of "0x2004"] by blast
qed

text \<open>
  C6: After \<^verbatim>\<open>heap_init\<close>, in every sequence of admissible allocations, frees of owned blocks and stores inside
  owned blocks, the blocks owned at any moment lie above the heap start, do not wrap around, and do not
  overlap. An allocation is admissible when its size is positive, heap end plus size plus two pages fits in
  32 bits and, for \<^verbatim>\<open>kmalloc_a\<close>, the chain does not end exactly 16 bytes below a page boundary. The
  code checks none of this; \<open>kmalloc_a_zero_pad\<close> shows that the last condition is needed.
\<close>

theorem heap_isolation:
  assumes "heap_reach (h, own)" and "(p, n) \<in> own"
  shows "unat (heap h) + 8 \<le> unat p \<and> unat p + unat n < 2 ^ 32 \<and>
    (\<forall>q m. (q, m) \<in> own \<and> (q, m) \<noteq> (p, n) \<longrightarrow> unat p + unat n \<le> unat q \<or> unat q + unat m \<le> unat p)"
proof -
  have "\<exists>bs. owned (fst s) bs (snd s)" if "heap_reach s" for s
    using that
  proof (induction rule: heap_reach.induct)
    case (boot kernel_end reserved_end h)
    then show ?case using heap_init_inv by (auto simp: owned_def)
  next
    case (step s t)
    then show ?case using heap_step_owned by blast
  qed
  then obtain bs where o: "owned h bs own" using assms(1) by fastforce
  obtain k where k: "unat n \<le> k" "0 < k" "(unat p, k) \<in> set (live (unat (heap h)) bs)"
    by (rule owned_block [OF o assms(2)])
  have "blocks_end (unat (heap h)) bs < 2 ^ 32" using o chain_end by (auto simp: owned_def heap_inv_def)
  moreover have "unat p + unat n \<le> unat q \<or> unat q + unat m \<le> unat p"
    if qm: "(q, m) \<in> own" "(q, m) \<noteq> (p, n)" for q m
  proof -
    obtain j where j: "unat m \<le> j" "0 < j" "(unat q, j) \<in> set (live (unat (heap h)) bs)"
      by (rule owned_block [OF o qm(1)])
    have "q \<noteq> p" using o qm assms(2) inj_onD [of fst own "(q, m)" "(p, n)"] by (auto simp: owned_def)
    then have "unat q \<noteq> unat p" by (simp add: word_unat_eq_iff)
    with live_disjoint [OF k(3) j(3)] k(1) j(1) show ?thesis by auto
  qed
  ultimately show ?thesis using live_ge [OF k(3)] k(1) by auto
qed

theorem heap_isolation_witness:
  "\<exists>h own. heap_reach (h, own) \<and> (0x100008, 100) \<in> own \<and> unat (heap h) + 8 \<le> unat (0x100008 :: u32)"
proof -
  have b: "heap_reach (demo_heap, {})"
    unfolding demo_heap_def by (rule heap_reach.boot) simp_all
  have rq: "request_ok demo_heap [] 100" using demo_heap_inv(3) by (simp add: request_ok_def)
  obtain h' where "kmalloc demo_heap 100 = Some (Done (0x100008, h'))"
    using km.refines [OF demo_heap_inv(1) rq] request_round(1) [OF rq] demo_heap_inv(2,3)
    by (auto simp: alloc_ok_def)
  from heap_step.alloc [OF demo_heap_inv(1) rq this] have r: "heap_reach (h', {(0x100008, 100)})"
    by (rule heap_reach.step [OF b])
  from heap_isolation [OF r, of "0x100008" 100] r show ?thesis by auto
qed

text \<open>
  C27: When the chain ends exactly 16 bytes below a page boundary, \<^verbatim>\<open>kmalloc_a\<close> leaves a free padding
  block of size zero, which a later \<^verbatim>\<open>kmalloc\<close> takes for the end of the chain: it returns a block
  that overlaps the aligned block still in use.
\<close>

theorem kmalloc_a_zero_pad:
  "\<exists>p1 h1 p2 h2 p3 h3. kmalloc demo_heap 0xFE8 = Some (Done (p1, h1)) \<and>
     kmalloc_a h1 0x1000 = Some (Done (p2, h2)) \<and> kmalloc h2 16 = Some (Done (p3, h3)) \<and>
     unat p3 < unat p2 \<and> unat p2 < unat p3 + 16"
proof -
  have rq: "request_ok demo_heap [] 0xFE8" using demo_heap_inv(3) by (simp add: request_ok_def)
  obtain h1 where h1: "kmalloc demo_heap 0xFE8 = Some (Done (0x100008, h1))" "heap_inv h1 [(0xFE8, True)]"
      "heap h1 = 0x100000" "heap_end h1 = 0x358000"
    using km.refines [OF demo_heap_inv(1) rq] request_round(1) [OF rq] demo_heap_inv
    by (auto simp: alloc_ok_def heap_inv_def)
  have m: "kmem h1 0x100000 = 0xFE8" "kmem h1 0x100004 = 1" "kmem h1 0x100FF0 = 0" "kmem h1 0x100FF4 = 0"
    using h1(2-4) by (simp_all add: heap_inv_def)
  define h2 where "h2 = h1\<lparr>kmem := (kmem h1)(0x100FF0 := 0, 0x100FF8 := 0x1000, 0x100FFC := 1)\<rparr>"
  have r: "round_size 0x1000 = 0x1000" "round_size 16 = 16" by (simp_all add: round_size_def)
  have "kmalloc_a h1 0x1000 = Some (Done (0x101000, h2))"
    using kmalloc_a_walk_hdr [of "0x100000" h1 "0x1000"] kmalloc_a_walk_hdr [of "0x100FF0" h1 "0x1000"] h1(3,4) m
    by (simp add: kmalloc_a_def r next_page_def h2_def)
  moreover have "\<exists>h3. kmalloc h2 16 = Some (Done (0x100FF8, h3))"
    using kmalloc_walk_hdr [of "0x100000" h2 16] kmalloc_walk_hdr [of "0x100FF0" h2 16] h1(3,4) m
    by (simp add: kmalloc_def r h2_def)
  ultimately show ?thesis using h1(1) by fastforce
qed

text \<open>
  C28: Neither allocator compares the end of a new last block with \<^verbatim>\<open>heap_end\<close>: on a fresh heap a
  request larger than the whole heap succeeds, and the block runs past the heap.
\<close>

theorem kmalloc_past_heap_end:
  "\<exists>p h'. kmalloc demo_heap 3000000 = Some (Done (p, h')) \<and> unat (heap_end h') < unat p + 3000000"
proof -
  have rq: "request_ok demo_heap [] 3000000" using demo_heap_inv(3) by (simp add: request_ok_def)
  show ?thesis
    using km.refines [OF demo_heap_inv(1) rq] request_round(1) [OF rq] demo_heap_inv
    by (auto simp: alloc_ok_def)
qed

end
