(* ===== verification/Paging.thy ===== *)
theory Paging
  imports Kmalloc
begin

text \<open>
  \<^verbatim>\<open>kernel/paging.c\<close>: the physical frame bitmap, page tables and directories, address
  space cloning and destruction, and the validation of user pointers.

  Directories and page tables are kept in stores of their own by kernel heap address
  (\<open>dirs\<close>, \<open>ptabs\<close>); their blocks come from the kernel heap of theory \<open>Kmalloc\<close>, whose
  isolation theorem justifies the separate stores. A \<^verbatim>\<open>struct page *\<close> is the pair of a table
  address and an index. Physical memory is a store of 32-bit words.
\<close>

section \<open>State\<close>

record page =
  present :: bool
  rw :: bool
  user :: bool
  accessed :: bool
  dirty :: bool
  frame :: u32

type_synonym page_table = "nat \<Rightarrow> page"

record page_directory =
  tables :: "nat \<Rightarrow> u32"
  tables_physical :: "nat \<Rightarrow> u32"
  phys_addr :: u32

record vm =
  frames :: "nat \<Rightarrow> u32"
  nframes :: u32
  paging_enabled :: bool
  dirs :: "u32 \<Rightarrow> page_directory"
  ptabs :: "u32 \<Rightarrow> page_table"
  kernel_directory :: u32
  current_directory :: u32
  physmem :: "nat \<Rightarrow> u32"
  kh :: kheap

definition page_zero :: page where
  "page_zero = \<lparr>present = False, rw = False, user = False, accessed = False, dirty = False, frame = 0\<rparr>"

section \<open>The frame bitmap\<close>

definition INDEX_FROM_BIT :: "u32 \<Rightarrow> u32" where "INDEX_FROM_BIT a = a div (8 * 4)"
definition OFFSET_FROM_BIT :: "u32 \<Rightarrow> u32" where "OFFSET_FROM_BIT a = a mod (8 * 4)"

definition set_frame :: "(nat \<Rightarrow> u32) \<Rightarrow> u32 \<Rightarrow> (nat \<Rightarrow> u32)" where
  "set_frame fr frame_addr =
     (let frame = frame_addr div 0x1000; idx = unat (INDEX_FROM_BIT frame); off = unat (OFFSET_FROM_BIT frame)
      in fr(idx := fr idx OR push_bit off 1))"

definition clear_frame :: "(nat \<Rightarrow> u32) \<Rightarrow> u32 \<Rightarrow> (nat \<Rightarrow> u32)" where
  "clear_frame fr frame_addr =
     (let frame = frame_addr div 0x1000; idx = unat (INDEX_FROM_BIT frame); off = unat (OFFSET_FROM_BIT frame)
      in fr(idx := fr idx AND NOT (push_bit off 1)))"

definition first_bit :: "u32 \<Rightarrow> nat option" where
  "first_bit w = find (\<lambda>j. w AND push_bit j 1 = 0) [0..<32]"

fun first_frame_from :: "(nat \<Rightarrow> u32) \<Rightarrow> nat list \<Rightarrow> u32" where
  "first_frame_from fr [] = -1"
| "first_frame_from fr (i # is) =
     (if fr i \<noteq> 0xFFFFFFFF
      then case first_bit (fr i) of Some j \<Rightarrow> of_nat (i * 4 * 8 + j) | None \<Rightarrow> first_frame_from fr is
      else first_frame_from fr is)"

definition first_frame :: "vm \<Rightarrow> u32" where
  "first_frame s = first_frame_from (frames s) [0..<unat (INDEX_FROM_BIT (nframes s))]"

definition alloc_frame :: "vm \<Rightarrow> page \<Rightarrow> bool \<Rightarrow> bool \<Rightarrow> (page \<times> vm) outcome" where
  "alloc_frame s pg is_kernel is_writeable =
     (if frame pg \<noteq> 0 then Done (pg, s)
      else let idx = first_frame s
           in if idx = -1 then Panic
              else Done (pg\<lparr>present := True, rw := is_writeable, user := \<not> is_kernel, frame := take_bit 20 idx\<rparr>,
                         s\<lparr>frames := set_frame (frames s) (idx * 0x1000)\<rparr>))"

definition free_frame :: "vm \<Rightarrow> page \<Rightarrow> page \<times> vm" where
  "free_frame s pg =
     (if frame pg = 0 then (pg, s)
      else (pg\<lparr>frame := 0, present := False\<rparr>,
            if frame pg < nframes s then s\<lparr>frames := clear_frame (frames s) (frame pg * 0x1000)\<rparr> else s))"

text \<open>The bitmap as a set of frames.\<close>

definition frame_used :: "(nat \<Rightarrow> u32) \<Rightarrow> nat \<Rightarrow> bool" where
  "frame_used fr f \<longleftrightarrow> bit (fr (f div 32)) (f mod 32)"

lemma frame_used_ext: "(\<And>f. frame_used fr f = frame_used fr' f) \<Longrightarrow> fr = fr'"
proof (rule ext, rule bit_eqI)
  fix i n
  assume e: "\<And>f. frame_used fr f = frame_used fr' f" and "possible_bit TYPE(u32) n"
  then have "n < 32" by simp
  with e [of "i * 32 + n"] show "bit (fr i) n = bit (fr' i) n" by (simp add: frame_used_def)
qed

lemma frame_addr_nat:
  assumes "f < 2 ^ 20"
  shows "unat (of_nat f * 0x1000 div 0x1000 :: u32) = f"
  using assms by (simp add: unat_div_distrib unat_word_ariths unat_of_nat)

lemma set_frame_used:
  assumes "f < 2 ^ 20"
  shows "frame_used (set_frame fr (of_nat f * 0x1000)) g \<longleftrightarrow> g = f \<or> frame_used fr g"
proof -
  have "set_frame fr (of_nat f * 0x1000) = fr(f div 32 := fr (f div 32) OR push_bit (f mod 32) 1)"
    using frame_addr_nat [OF assms]
    by (simp add: set_frame_def Let_def INDEX_FROM_BIT_def OFFSET_FROM_BIT_def unat_div_distrib unat_mod_distrib)
  moreover have "g div 32 = f div 32 \<and> g mod 32 = f mod 32 \<longleftrightarrow> g = f" by (metis div_mult_mod_eq)
  ultimately show ?thesis by (auto simp: frame_used_def bit_simps)
qed

lemma clear_frame_used:
  assumes "f < 2 ^ 20"
  shows "frame_used (clear_frame fr (of_nat f * 0x1000)) g \<longleftrightarrow> g \<noteq> f \<and> frame_used fr g"
proof -
  have "clear_frame fr (of_nat f * 0x1000) = fr(f div 32 := fr (f div 32) AND NOT (push_bit (f mod 32) 1))"
    using frame_addr_nat [OF assms]
    by (simp add: clear_frame_def Let_def INDEX_FROM_BIT_def OFFSET_FROM_BIT_def unat_div_distrib unat_mod_distrib)
  moreover have "g div 32 = f div 32 \<and> g mod 32 = f mod 32 \<longleftrightarrow> g = f" by (metis div_mult_mod_eq)
  moreover have "g mod 32 < 32" by simp
  ultimately show ?thesis by (auto simp: frame_used_def bit_simps)
qed

lemma find_append: "find P (xs @ ys) = (case find P xs of Some x \<Rightarrow> Some x | None \<Rightarrow> find P ys)"
  by (induction xs) auto

lemma find_map: "find P (map f xs) = map_option f (find (\<lambda>x. P (f x)) xs)"
  by (induction xs) auto

lemma find_cong_set: "(\<And>x. x \<in> set xs \<Longrightarrow> P x = Q x) \<Longrightarrow> find P xs = find Q xs"
  by (induction xs) auto

text \<open>The search is the search for the first unused frame among the whole words of the bitmap.\<close>

lemma first_bit_used: "first_bit (fr i) = find (\<lambda>j. \<not> frame_used fr (32 * i + j)) [0..<32]"
  unfolding first_bit_def
  by (rule find_cong_set) (auto simp: frame_used_def push_bit_of_1 and_exp_eq_0_iff_not_bit)

lemma first_frame_from_find:
  "first_frame_from fr [k..<n] =
    (case find (\<lambda>f. \<not> frame_used fr f) [32 * k..<32 * n] of Some f \<Rightarrow> of_nat f | None \<Rightarrow> -1)"
proof (induction "n - k" arbitrary: k)
  case (Suc d)
  let ?P = "\<lambda>f. \<not> frame_used fr f"
  from Suc(2) have k: "k < n" and d: "d = n - Suc k" by simp_all
  have up: "[32 * k..<32 * n] = map (\<lambda>j. 32 * k + j) [0..<32] @ [32 * Suc k..<32 * n]"
  proof -
    obtain m where "32 * n = 32 * k + 32 + m" using k le_Suc_ex [of "32 * k + 32" "32 * n"] by auto
    then have "[32 * k..<32 * n] = [32 * k..<32 * k + 32] @ [32 * k + 32..<32 * n]"
      using upt_add_eq_append [of "32 * k" "32 * k + 32" m] by simp
    moreover have "[32 * k..<32 * k + 32] = map (\<lambda>j. 32 * k + j) [0..<32]"
      using map_add_upt [of "32 * k" 32] by (simp only: add.commute [of _ "32 * k"])
    ultimately show ?thesis by (simp add: add.commute)
  qed
  have w: "find ?P (map (\<lambda>j. 32 * k + j) [0..<32]) = map_option (\<lambda>j. 32 * k + j) (first_bit (fr k))"
    by (simp add: find_map first_bit_used)
  have full: "first_bit (fr k) = None" if "fr k = 0xFFFFFFFF"
  proof -
    have "fr k = -1" using that by simp
    then show ?thesis
      unfolding first_bit_def by (simp add: find_None_iff push_bit_of_1 and_exp_eq_0_iff_not_bit)
  qed
  show ?case
    using Suc(1) [OF d] full k unfolding up find_append w
    by (cases "first_bit (fr k)") (auto simp: upt_conv_Cons mult.commute)
qed simp

lemma first_frame_find:
  "first_frame s = (case find (\<lambda>f. \<not> frame_used (frames s) f) [0..<32 * (unat (nframes s) div 32)] of
      Some f \<Rightarrow> of_nat f | None \<Rightarrow> -1)"
  using first_frame_from_find [of "frames s" 0 "unat (nframes s) div 32"]
  by (simp add: first_frame_def INDEX_FROM_BIT_def unat_div_distrib)

text \<open>
  The frames the allocator manages: all frame numbers below \<^verbatim>\<open>nframes\<close> rounded down to a
  multiple of 32. Frame 0 backs the kernel's page 0 and is never free once paging is on.
\<close>

definition frame_limit :: "vm \<Rightarrow> nat" where
  "frame_limit s = 32 * (unat (nframes s) div 32)"

definition frames_inv :: "vm \<Rightarrow> bool" where
  "frames_inv s \<longleftrightarrow> frame_used (frames s) 0 \<and> unat (nframes s) \<le> 2 ^ 20"

lemma frame_limit_bound: "frames_inv s \<Longrightarrow> frame_limit s \<le> 2 ^ 20" "frame_limit s \<le> unat (nframes s)"
  by (auto simp: frames_inv_def frame_limit_def intro: order_trans [of _ "unat (nframes s)"])

text \<open>Allocating a frame for an unmapped page.\<close>

lemma alloc_frame_first:
  assumes "frame pg = 0" and "find (\<lambda>f. \<not> frame_used (frames s) f) [0..<frame_limit s] = Some f" and b: "f < 2 ^ 20"
  shows "alloc_frame s pg k w = Done (pg\<lparr>present := True, rw := w, user := \<not> k, frame := of_nat f\<rparr>,
      s\<lparr>frames := set_frame (frames s) (of_nat f * 0x1000)\<rparr>)"
proof -
  have "first_frame s = of_nat f" using assms(2) by (simp add: first_frame_find frame_limit_def)
  moreover have "(of_nat f :: u32) \<noteq> -1"
  proof
    assume "(of_nat f :: u32) = -1"
    also have "(-1 :: u32) = of_nat 4294967295" by simp
    finally show False using b of_nat_inj32 [of f 4294967295] by simp
  qed
  moreover have "take_bit 20 (of_nat f :: u32) = of_nat f"
    using b by (simp add: take_bit_of_nat take_bit_nat_eq_self)
  ultimately show ?thesis using assms(1) by (simp add: alloc_frame_def Let_def)
qed

lemma alloc_frame_cases:
  assumes "frames_inv s" and "frame pg = 0"
  obtains (full) "alloc_frame s pg k w = Panic" "\<forall>f < frame_limit s. frame_used (frames s) f"
  | (fresh) f fr where "alloc_frame s pg k w =
        Done (pg\<lparr>present := True, rw := w, user := \<not> k, frame := of_nat f\<rparr>, s\<lparr>frames := fr\<rparr>)"
      "0 < f" "f < frame_limit s" "\<not> frame_used (frames s) f"
      "\<forall>g < f. frame_used (frames s) g" "\<And>g. frame_used fr g \<longleftrightarrow> g = f \<or> frame_used (frames s) g"
proof (cases "find (\<lambda>f. \<not> frame_used (frames s) f) [0..<frame_limit s]")
  case None
  then have "first_frame s = -1" by (simp add: first_frame_find frame_limit_def)
  with None show ?thesis using assms full by (auto simp: alloc_frame_def find_None_iff)
next
  case (Some f)
  then have f: "f < frame_limit s" "\<not> frame_used (frames s) f" "\<forall>g < f. frame_used (frames s) g"
    by (auto simp: find_Some_iff)
  have b: "f < 2 ^ 20" using f(1) frame_limit_bound(1) [OF assms(1)] by simp
  moreover have "0 < f" using f(2) assms(1) by (cases f) (auto simp: frames_inv_def)
  ultimately show ?thesis using f alloc_frame_first [OF assms(2) Some b] set_frame_used [OF b] by (intro fresh) auto
qed

section \<open>Page tables\<close>

definition page_lookup :: "vm \<Rightarrow> u32 \<Rightarrow> u32 \<Rightarrow> (u32 \<times> nat) option" where
  "page_lookup s addr dir =
     (let a = addr div 0x1000; t = tables (dirs s dir) (unat (a div 1024))
      in if t \<noteq> 0 then Some (t, unat (a mod 1024)) else None)"

definition page_at :: "vm \<Rightarrow> u32 \<times> nat \<Rightarrow> page" where
  "page_at s r = ptabs s (fst r) (snd r)"

definition set_page :: "vm \<Rightarrow> u32 \<times> nat \<Rightarrow> page \<Rightarrow> vm" where
  "set_page s r pg = s\<lparr>ptabs := (ptabs s)(fst r := (ptabs s (fst r))(snd r := pg))\<rparr>"

text \<open>\<^verbatim>\<open>kmalloc_p\<close> and \<^verbatim>\<open>kmalloc_ap\<close>; the flag says whether the caller asked for the physical address.\<close>

definition phys_of :: "vm \<Rightarrow> u32 \<Rightarrow> u32 outcome" where
  "phys_of s ptr =
     (if paging_enabled s
      then case page_lookup s ptr (kernel_directory s) of
             None \<Rightarrow> NullDeref
           | Some r \<Rightarrow> Done (frame (page_at s r) * 0x1000 + (ptr AND 0xFFF))
      else Done ptr)"

definition with_phys :: "vm \<Rightarrow> (u32 \<times> kheap) outcome option \<Rightarrow> ((u32 \<times> u32) \<times> vm) outcome option" where
  "with_phys s r =
     (case r of
        None \<Rightarrow> None
      | Some (Done (ptr, h)) \<Rightarrow>
          (case phys_of s ptr of Done phys \<Rightarrow> Some (Done ((ptr, phys), s\<lparr>kh := h\<rparr>))
           | Panic \<Rightarrow> Some Panic | NullDeref \<Rightarrow> Some NullDeref)
      | Some Panic \<Rightarrow> Some Panic
      | Some NullDeref \<Rightarrow> Some NullDeref)"

definition kmalloc_p :: "vm \<Rightarrow> u32 \<Rightarrow> ((u32 \<times> u32) \<times> vm) outcome option" where
  "kmalloc_p s n = with_phys s (kmalloc (kh s) n)"

definition kmalloc_ap :: "vm \<Rightarrow> u32 \<Rightarrow> ((u32 \<times> u32) \<times> vm) outcome option" where
  "kmalloc_ap s n = with_phys s (kmalloc_a (kh s) n)"

definition obind :: "'a outcome option \<Rightarrow> ('a \<Rightarrow> 'b outcome option) \<Rightarrow> 'b outcome option" where
  "obind r f = (case r of None \<Rightarrow> None | Some (Done x) \<Rightarrow> f x | Some Panic \<Rightarrow> Some Panic
     | Some NullDeref \<Rightarrow> Some NullDeref)"

definition get_page :: "vm \<Rightarrow> u32 \<Rightarrow> bool \<Rightarrow> u32 \<Rightarrow> ((u32 \<times> nat) option \<times> vm) outcome option" where
  "get_page s addr mk dir =
     (let a = addr div 0x1000; table_idx = unat (a div 1024); t = tables (dirs s dir) table_idx
      in if t \<noteq> 0 then Some (Done (Some (t, unat (a mod 1024)), s))
         else if mk
         then obind (kmalloc_ap s 0x1000) (\<lambda>((t, tmp), s).
                let d = dirs s dir;
                    d = d\<lparr>tables := (tables d)(table_idx := t),
                          tables_physical := (tables_physical d)(table_idx := tmp OR 0x7)\<rparr>
                in Some (Done (Some (t, unat (a mod 1024)),
                     s\<lparr>dirs := (dirs s)(dir := d), ptabs := (ptabs s)(t := (\<lambda>_. page_zero))\<rparr>)))
         else Some (Done (None, s)))"

text \<open>\<^verbatim>\<open>kernel/copy_page_physical.S\<close>: 1024 word moves with paging off.\<close>

fun copy_loop :: "(nat \<Rightarrow> u32) \<Rightarrow> u32 \<Rightarrow> u32 \<Rightarrow> nat \<Rightarrow> (nat \<Rightarrow> u32)" where
  "copy_loop m ebx ecx 0 = m"
| "copy_loop m ebx ecx (Suc edx) = copy_loop (m(unat ecx := m (unat ebx))) (ebx + 4) (ecx + 4) edx"

definition copy_page_physical :: "vm \<Rightarrow> u32 \<Rightarrow> u32 \<Rightarrow> vm" where
  "copy_page_physical s src dest = s\<lparr>physmem := copy_loop (physmem s) src dest 1024\<rparr>"

definition clone_page :: "vm \<Rightarrow> page \<Rightarrow> page \<Rightarrow> (page \<times> vm) outcome" where
  "clone_page s src pg =
     (if frame src = 0 then Done (pg, s)
      else case alloc_frame s pg False False of
             Done (pg, s) \<Rightarrow>
               let pg = (if present src then pg\<lparr>present := True\<rparr> else pg);
                   pg = (if rw src then pg\<lparr>rw := True\<rparr> else pg);
                   pg = (if user src then pg\<lparr>user := True\<rparr> else pg);
                   pg = (if accessed src then pg\<lparr>accessed := True\<rparr> else pg);
                   pg = (if dirty src then pg\<lparr>dirty := True\<rparr> else pg)
               in Done (pg, copy_page_physical s (frame src * 0x1000) (frame pg * 0x1000))
           | Panic \<Rightarrow> Panic | NullDeref \<Rightarrow> NullDeref)"

text \<open>The index range of the loops over the entries of a table or directory.\<close>

definition entries :: "nat list" where
  "entries = [0..<1024]"

primrec clone_pages :: "vm \<Rightarrow> u32 \<Rightarrow> u32 \<Rightarrow> nat list \<Rightarrow> vm outcome" where
  "clone_pages s src t [] = Done s"
| "clone_pages s src t (i # is) =
     (case clone_page s (page_at s (src, i)) (page_at s (t, i)) of
        Done (pg, s) \<Rightarrow> clone_pages (set_page s (t, i) pg) src t is
      | Panic \<Rightarrow> Panic | NullDeref \<Rightarrow> NullDeref)"

definition clone_table :: "vm \<Rightarrow> u32 \<Rightarrow> ((u32 \<times> u32) \<times> vm) outcome option" where
  "clone_table s src =
     obind (kmalloc_ap s 0x1000) (\<lambda>((t, phys), s).
       case clone_pages (s\<lparr>ptabs := (ptabs s)(t := (\<lambda>_. page_zero))\<rparr>) src t entries of
         Done s \<Rightarrow> Some (Done ((t, phys), s)) | Panic \<Rightarrow> Some Panic | NullDeref \<Rightarrow> Some NullDeref)"

primrec clone_entries :: "vm \<Rightarrow> u32 \<Rightarrow> u32 \<Rightarrow> nat list \<Rightarrow> vm outcome option" where
  "clone_entries s src dir [] = Some (Done s)"
| "clone_entries s src dir (i # is) =
     (let st = tables (dirs s src) i; d = dirs s dir
      in if st = 0 then clone_entries s src dir is
         else if tables (dirs s (kernel_directory s)) i = st
         then clone_entries (s\<lparr>dirs := (dirs s)(dir := d\<lparr>tables := (tables d)(i := st),
                tables_physical := (tables_physical d)(i := tables_physical (dirs s src) i)\<rparr>)\<rparr>) src dir is
         else obind (clone_table s st) (\<lambda>((t, phys), s).
                let d = dirs s dir
                in clone_entries (s\<lparr>dirs := (dirs s)(dir := d\<lparr>tables := (tables d)(i := t),
                     tables_physical := (tables_physical d)(i := phys OR 7)\<rparr>)\<rparr>) src dir is))"

definition clone_directory :: "vm \<Rightarrow> u32 \<Rightarrow> (u32 \<times> vm) outcome option" where
  "clone_directory s src =
     obind (kmalloc_ap s 8196) (\<lambda>((dir, phys), s).
       let offset = 4096;
           s = s\<lparr>dirs := (dirs s)(dir := \<lparr>tables = (\<lambda>_. 0), tables_physical = (\<lambda>_. 0),
                                       phys_addr = phys + offset\<rparr>)\<rparr>
       in obind (clone_entries s src dir entries) (\<lambda>s. Some (Done (dir, s))))"

primrec free_pages :: "vm \<Rightarrow> u32 \<Rightarrow> nat list \<Rightarrow> vm" where
  "free_pages s t [] = s"
| "free_pages s t (j # js) =
     (if frame (page_at s (t, j)) \<noteq> 0
      then let (pg, s) = free_frame s (page_at s (t, j)) in free_pages (set_page s (t, j) pg) t js
      else free_pages s t js)"

primrec free_tables :: "vm \<Rightarrow> u32 \<Rightarrow> nat list \<Rightarrow> vm" where
  "free_tables s dir [] = s"
| "free_tables s dir (i # is) =
     (let t = tables (dirs s dir) i
      in if t = 0 then free_tables s dir is
         else if tables (dirs s (kernel_directory s)) i = t then free_tables s dir is
         else let s = free_pages s t entries in free_tables (s\<lparr>kh := kfree (kh s) t\<rparr>) dir is)"

definition free_directory :: "vm \<Rightarrow> u32 \<Rightarrow> vm" where
  "free_directory s dir =
     (if dir = 0 then s
      else let s = free_tables s dir entries in s\<lparr>kh := kfree (kh s) dir\<rparr>)"

definition switch_page_directory :: "vm \<Rightarrow> u32 \<Rightarrow> vm" where
  "switch_page_directory s dir = s\<lparr>current_directory := dir\<rparr>"

text \<open>The loops of \<^verbatim>\<open>mm_paging_init\<close>: make the tables, then identity map.\<close>

partial_function (option) make_tables :: "vm \<Rightarrow> u32 \<Rightarrow> vm outcome option" where
  "make_tables s i =
     (if i < heap_end (kh s)
      then case get_page s i True (kernel_directory s) of
             None \<Rightarrow> None
           | Some (Done (_, s')) \<Rightarrow> make_tables s' (i + 0x1000)
           | Some Panic \<Rightarrow> Some Panic
           | Some NullDeref \<Rightarrow> Some NullDeref
      else Some (Done s))"

partial_function (option) identity_map :: "vm \<Rightarrow> u32 \<Rightarrow> vm outcome option" where
  "identity_map s i =
     (if i < heap_end (kh s) + 0x1000
      then case get_page s i True (kernel_directory s) of
             None \<Rightarrow> None
           | Some (Done (None, s')) \<Rightarrow> Some NullDeref
           | Some (Done (Some r, s')) \<Rightarrow>
               (case alloc_frame s' (page_at s' r) True True of
                  Done (pg, s'') \<Rightarrow> identity_map (set_page s'' r pg) (i + 0x1000)
                | Panic \<Rightarrow> Some Panic
                | NullDeref \<Rightarrow> Some NullDeref)
           | Some Panic \<Rightarrow> Some Panic
           | Some NullDeref \<Rightarrow> Some NullDeref
      else Some (Done s))"

definition mm_paging_init :: "vm \<Rightarrow> u32 \<Rightarrow> vm outcome option" where
  "mm_paging_init s mem_size =
     (let nf = mem_size div 0x1000
      in obind (kmalloc (kh s) (INDEX_FROM_BIT nf * 4)) (\<lambda>(_, h).
         obind (kmalloc_a h 8196) (\<lambda>(kd, h).
         let s = s\<lparr>nframes := nf, frames := (\<lambda>i. if i < unat (INDEX_FROM_BIT nf) then 0 else frames s i),
                   kh := h, kernel_directory := kd,
                   dirs := (dirs s)(kd := \<lparr>tables = (\<lambda>_. 0), tables_physical = (\<lambda>_. 0), phys_addr = 0\<rparr>)\<rparr>
         in obind (make_tables s 0) (\<lambda>s.
            obind (identity_map s 0) (\<lambda>s.
            let s = switch_page_directory s (kernel_directory s); s = s\<lparr>paging_enabled := True\<rparr>
            in obind (clone_directory s (kernel_directory s)) (\<lambda>(d, s).
               Some (Done (switch_page_directory s d))))))))"

section \<open>User pointers\<close>

definition USER_VADDR_MIN :: u32 where "USER_VADDR_MIN = 0x40000000"
definition USER_VADDR_MAX :: u32 where "USER_VADDR_MAX = 0x80000000"

definition page_ok :: "vm \<Rightarrow> u32 \<Rightarrow> bool \<Rightarrow> bool" where
  "page_ok s a w =
     (case page_lookup s a (current_directory s) of
        None \<Rightarrow> False
      | Some r \<Rightarrow> let pg = page_at s r in present pg \<and> user pg \<and> (w \<longrightarrow> rw pg))"

partial_function (option) user_ok_loop :: "vm \<Rightarrow> u32 \<Rightarrow> u32 \<Rightarrow> bool \<Rightarrow> bool option" where
  "user_ok_loop s a stop w =
     (if a < stop then if page_ok s a w then user_ok_loop s (a + 0x1000) stop w else Some False
      else Some True)"

definition user_ok :: "vm \<Rightarrow> u32 \<Rightarrow> u32 \<Rightarrow> bool \<Rightarrow> bool option" where
  "user_ok s start len w =
     (if start < USER_VADDR_MIN \<or> start \<ge> USER_VADDR_MAX \<or> len > USER_VADDR_MAX - start then Some False
      else user_ok_loop s (start AND NOT 0xFFF) (start + len) w)"

text \<open>\<open>rd\<close> is what a load from a user address returns.\<close>

definition user_chunk :: "u32 \<Rightarrow> u32 \<Rightarrow> u32" where
  "user_chunk a mx = (let chunk = 0x1000 - (a AND 0xFFF) in if chunk > mx then mx else chunk)"

partial_function (option) user_str_ok :: "vm \<Rightarrow> (u32 \<Rightarrow> u8) \<Rightarrow> u32 \<Rightarrow> u32 \<Rightarrow> bool option" where
  "user_str_ok s rd a mx =
     (if mx \<noteq> 0
      then let chunk = user_chunk a mx
           in case user_ok s a chunk False of
                None \<Rightarrow> None
              | Some ok \<Rightarrow>
                  if \<not> ok then Some False
                  else if \<exists>i < unat chunk. rd (a + of_nat i) = 0 then Some True
                  else user_str_ok s rd (a + chunk) (mx - chunk)
      else Some False)"

text \<open>
  The entry the processor reaches for an address in the current directory: ten bits select the
  table, the next ten the entry. A byte is accessible to the running task in ring 3 when it lies in the
  user window and its entry is present, a user page and, for a write, writable.
\<close>

definition translation :: "vm \<Rightarrow> nat \<Rightarrow> page option" where
  "translation s a =
     (let t = tables (dirs s (current_directory s)) (a div 0x400000)
      in if t = 0 then None else Some (ptabs s t (a div 0x1000 mod 0x400)))"

definition user_byte_ok :: "vm \<Rightarrow> u32 \<Rightarrow> bool \<Rightarrow> bool" where
  "user_byte_ok s a w \<longleftrightarrow> 0x40000000 \<le> unat a \<and> unat a < 0x80000000 \<and>
     (\<exists>pg. translation s (unat a) = Some pg \<and> present pg \<and> user pg \<and> (w \<longrightarrow> rw pg))"

lemma user_byte_ok_page:
  "user_byte_ok s a w \<longleftrightarrow> USER_VADDR_MIN \<le> a \<and> a < USER_VADDR_MAX \<and> page_ok s a w"
proof -
  have "unat (a div 0x1000 div 1024) = unat a div 0x400000" "unat (a div 0x1000 mod 1024) = unat a div 0x1000 mod 0x400"
    by (simp_all add: unat_div_distrib unat_mod_distrib flip: div_mult2_eq)
  then show ?thesis
    by (auto simp: user_byte_ok_def translation_def page_ok_def page_lookup_def page_at_def Let_def
        USER_VADDR_MIN_def USER_VADDR_MAX_def word_le_nat_alt word_less_nat_alt)
qed

lemma page_ok_page: "a div 0x1000 = b div 0x1000 \<Longrightarrow> page_ok s a w = page_ok s b w"
  by (simp add: page_ok_def page_lookup_def Let_def)

lemma page_ok_nat:
  assumes "x div 4096 = y div 4096" and "x < 2 ^ 32" and "y < 2 ^ 32"
  shows "page_ok s (of_nat x) w = page_ok s (of_nat y) w"
  using assms by (intro page_ok_page) (simp add: word_unat_eq_iff unat_div_distrib unat_of_nat)

lemma user_ok_loop_eq:
  assumes "stop \<le> 2 ^ 31" and "4096 * k \<le> stop + 4096"
  shows "user_ok_loop s (of_nat (4096 * k)) (of_nat stop) w =
    Some (\<forall>j. k \<le> j \<and> 4096 * j < stop \<longrightarrow> page_ok s (of_nat (4096 * j)) w)"
  using assms(2)
proof (induction "stop - 4096 * k" arbitrary: k rule: less_induct)
  case less
  note u = user_ok_loop.simps [of s "of_nat (4096 * k)" "of_nat stop" w]
  have "unat (of_nat (4096 * k) :: u32) = 4096 * k"
    using less.prems assms(1) by (intro unat_of_nat32) simp
  moreover have "unat (of_nat stop :: u32) = stop" using assms(1) by (intro unat_of_nat32) simp
  ultimately have lt: "(of_nat (4096 * k) :: u32) < of_nat stop \<longleftrightarrow> 4096 * k < stop"
    by (simp only: word_less_nat_alt)
  show ?case
  proof (cases "4096 * k < stop")
    case True
    have nx: "(of_nat (4096 * k) + 0x1000 :: u32) = of_nat (4096 * Suc k)" by simp
    have "user_ok_loop s (of_nat (4096 * Suc k)) (of_nat stop) w =
        Some (\<forall>j. Suc k \<le> j \<and> 4096 * j < stop \<longrightarrow> page_ok s (of_nat (4096 * j)) w)"
      using True by (intro less.hyps) simp_all
    moreover have "(\<forall>j. k \<le> j \<and> 4096 * j < stop \<longrightarrow> P j) \<longleftrightarrow>
        P k \<and> (\<forall>j. Suc k \<le> j \<and> 4096 * j < stop \<longrightarrow> P j)" for P
      using True by (metis Suc_leD le_eq_less_or_eq Suc_le_eq)
    ultimately show ?thesis unfolding u lt nx using True by (simp del: of_nat_mult)
  next
    case False
    then have none: "\<not> (k \<le> j \<and> 4096 * j < stop)" for j
      using mult_le_mono2 [of k j 4096] by linarith
    show ?thesis unfolding u lt by (simp only: False if_False none simp_thms)
  qed
qed

text \<open>Checking each page from the base page on is checking each byte.\<close>

lemma pages_bytes:
  assumes "p + len \<le> 2 ^ 32" and "0 < len"
  shows "(\<forall>j. p div 4096 \<le> j \<and> 4096 * j < p + len \<longrightarrow> page_ok s (of_nat (4096 * j)) w) \<longleftrightarrow>
    (\<forall>i < len. page_ok s (of_nat (p + i)) w)" (is "?L \<longleftrightarrow> ?R")
proof
  assume L: ?L
  show ?R
  proof (intro allI impI)
    fix i assume "i < len"
    moreover have "4096 * ((p + i) div 4096) \<le> p + i" by simp
    ultimately have "page_ok s (of_nat (4096 * ((p + i) div 4096))) w"
      using L div_le_mono [of p "p + i" 4096] by (simp del: of_nat_mult)
    moreover have "p + i < 2 ^ 32" using assms(1) \<open>i < len\<close> by simp
    ultimately show "page_ok s (of_nat (p + i)) w"
      using page_ok_nat [of "4096 * ((p + i) div 4096)" "p + i" s w] by (simp del: of_nat_mult of_nat_add)
  qed
next
  assume R: ?R
  show ?L
  proof (intro allI impI)
    fix j assume j: "p div 4096 \<le> j \<and> 4096 * j < p + len"
    let ?i = "if 4096 * j \<le> p then 0 else 4096 * j - p"
    have "(p + ?i) div 4096 = j"
    proof (cases "4096 * j \<le> p")
      case c: True
      then have "j \<le> p div 4096" by (simp add: less_eq_div_iff_mult_less_eq mult.commute)
      with j c show ?thesis by simp
    qed simp
    moreover have "?i < len" using j assms(2) by auto
    moreover from this have "p + ?i < 2 ^ 32" using assms(1) by linarith
    ultimately show "page_ok s (of_nat (4096 * j)) w"
      using R page_ok_nat [of "4096 * j" "p + ?i" s w] j assms(1) by (simp del: of_nat_mult of_nat_add)
  qed
qed

lemma user_ok_nat:
  assumes "p < 2 ^ 32" and "len < 2 ^ 32" and "0 < len"
  shows "user_ok s (of_nat p) (of_nat len) w =
    Some (0x40000000 \<le> p \<and> p + len \<le> 0x80000000 \<and> (\<forall>i < len. page_ok s (of_nat (p + i)) w))"
proof -
  have u: "unat (of_nat p :: u32) = p" "unat (of_nat len :: u32) = len"
    using assms by (auto intro!: unat_of_nat32)
  let ?out = "of_nat p < USER_VADDR_MIN \<or> USER_VADDR_MAX \<le> of_nat p \<or> USER_VADDR_MAX - of_nat p < (of_nat len :: u32)"
  have sub: "p < 0x80000000 \<Longrightarrow> unat (0x80000000 - of_nat p :: u32) = 0x80000000 - p"
    using u by (subst unat_sub) (simp_all add: word_le_nat_alt)
  have out: "?out \<longleftrightarrow> \<not> (0x40000000 \<le> p \<and> p + len \<le> 0x80000000)"
    using assms(3) sub by (cases "p < 0x80000000")
      (auto simp: USER_VADDR_MIN_def USER_VADDR_MAX_def word_less_nat_alt word_le_nat_alt u)
  show ?thesis
  proof (cases "0x40000000 \<le> p \<and> p + len \<le> 0x80000000")
    case False
    then show ?thesis using out by (auto simp: user_ok_def)
  next
    case True
    have "(NOT 0xFFF :: u32) = 0xFFFFF000" by simp
    then have "unat (of_nat p AND NOT 0xFFF :: u32) = p div 4096 * 4096"
      by (simp only: unat_page_base u)
    moreover have "4096 * (p div 4096) \<le> p" by simp
    ultimately have base: "(of_nat p AND NOT 0xFFF :: u32) = of_nat (4096 * (p div 4096))"
      using assms(1) unat_of_nat32 [of "4096 * (p div 4096)"] by (simp only: word_unat_eq_iff) simp
    have "user_ok s (of_nat p) (of_nat len) w =
        Some (\<forall>j. p div 4096 \<le> j \<and> 4096 * j < p + len \<longrightarrow> page_ok s (of_nat (4096 * j)) w)"
      using out True user_ok_loop_eq [of "p + len" "p div 4096" s w] \<open>4096 * (p div 4096) \<le> p\<close>
      unfolding user_ok_def base by (simp del: of_nat_mult)
    then show ?thesis using pages_bytes [of p len s w] True assms(3) by simp
  qed
qed

lemma user_byte_ok_nat:
  assumes "unat p + i < 2 ^ 32"
  shows "user_byte_ok s (p + of_nat i) w \<longleftrightarrow>
    0x40000000 \<le> unat p + i \<and> unat p + i < 0x80000000 \<and> page_ok s (of_nat (unat p + i)) w"
proof -
  have "unat (p + of_nat i) = unat p + i" using assms by (simp add: unat_word_ariths unat_of_nat)
  then show ?thesis
    by (simp add: user_byte_ok_page USER_VADDR_MIN_def USER_VADDR_MAX_def word_le_nat_alt word_less_nat_alt)
qed

lemma user_bytes_range:
  assumes "0 < unat len" and L: "\<forall>i < unat len. user_byte_ok s (p + of_nat i) w"
  shows "0x40000000 \<le> unat p" "unat p + unat len \<le> 0x80000000"
proof -
  have z: "0x40000000 \<le> unat p" "unat p < 0x80000000"
    using user_byte_ok_nat [of p 0 s w] L assms(1) by auto
  then show "0x40000000 \<le> unat p" by simp
  show "unat p + unat len \<le> 0x80000000"
  proof (rule ccontr)
    assume "\<not> unat p + unat len \<le> 0x80000000"
    then have "0x80000000 - unat p < unat len" using z by linarith
    with L have "user_byte_ok s (p + of_nat (0x80000000 - unat p)) w" by blast
    then show False using user_byte_ok_nat [of p "0x80000000 - unat p" s w] z by simp
  qed
qed

lemma user_ok_bytes:
  assumes "0 < len"
  shows "user_ok s p len w = Some (\<forall>i < unat len. user_byte_ok s (p + of_nat i) w)"
proof -
  have pos: "0 < unat len" using assms by (simp add: word_less_nat_alt)
  have "user_ok s p len w = Some (0x40000000 \<le> unat p \<and> unat p + unat len \<le> 0x80000000 \<and>
      (\<forall>i < unat len. page_ok s (of_nat (unat p + i)) w))"
    using user_ok_nat [of "unat p" "unat len" s w] pos by (simp del: of_nat_add)
  moreover have "(\<forall>i < unat len. user_byte_ok s (p + of_nat i) w) \<longleftrightarrow>
      0x40000000 \<le> unat p \<and> unat p + unat len \<le> 0x80000000 \<and>
      (\<forall>i < unat len. page_ok s (of_nat (unat p + i)) w)" (is "?L \<longleftrightarrow> ?R")
  proof
    assume L: ?L
    note r = user_bytes_range [OF pos L]
    have "page_ok s (of_nat (unat p + i)) w" if "i < unat len" for i
      using L that user_byte_ok_nat [of p i s w] r by simp
    with r show ?R by blast
  next
    assume R: ?R
    show ?L
    proof (intro allI impI)
      fix i assume "i < unat len"
      then show "user_byte_ok s (p + of_nat i) w" using R user_byte_ok_nat [of p i s w] by simp
    qed
  qed
  ultimately show ?thesis by simp
qed

text \<open>Within one page, one byte decides.\<close>

lemma user_chunk_ok:
  assumes "mx \<noteq> 0" and c: "c = user_chunk a mx"
  shows "0 < unat c" "unat c \<le> unat mx" "unat a mod 4096 + unat c \<le> 4096"
    "user_ok s a c w = Some (user_byte_ok s a w)"
    "\<And>i. i < unat c \<Longrightarrow> user_byte_ok s (a + of_nat i) w = user_byte_ok s a w"
proof -
  have lt: "unat a mod 4096 < 4096" by simp
  have ch: "unat (0x1000 - (a AND 0xFFF)) = 4096 - unat a mod 4096"
    using lt by (subst unat_sub) (simp_all add: word_le_nat_alt unat_page_off less_imp_le)
  then have uc: "unat c = min (4096 - unat a mod 4096) (unat mx)"
    using c by (simp add: user_chunk_def Let_def word_less_nat_alt)
  have "0 < unat mx" using assms(1) by (simp add: word_unat_eq_iff)
  with uc lt show pos: "0 < unat c" by linarith
  show "unat c \<le> unat mx" "unat a mod 4096 + unat c \<le> 4096" using uc lt by linarith+
  have one: "user_byte_ok s (a + of_nat i) w = user_byte_ok s a w" if "i < unat c" for i
  proof -
    have m: "unat a mod 4096 + i < 4096" using that uc by linarith
    have "unat a + i = unat a div 4096 * 4096 + (unat a mod 4096 + i)" by simp
    then have d: "(unat a + i) div 4096 = unat a div 4096"
      using m by (metis div_mult_self3 div_less add.right_neutral zero_neq_numeral)
    have "unat a div 4096 < 1048576" using unat_lt_2p32 [of a] by (simp add: less_mult_imp_div_less)
    then have "unat a + i < 4294967296" using m div_mult_mod_eq [of "unat a" 4096] by linarith
    moreover have "0x40000000 \<le> x \<longleftrightarrow> 0x40000 \<le> x div 4096" "x < 0x80000000 \<longleftrightarrow> x div 4096 < 0x80000" for x :: nat
      by auto
    ultimately show ?thesis
      using user_byte_ok_nat [of a i s w] user_byte_ok_nat [of a 0 s w] d
        page_ok_nat [of "unat a + i" "unat a" s w] by simp
  qed
  show "\<And>i. i < unat c \<Longrightarrow> user_byte_ok s (a + of_nat i) w = user_byte_ok s a w" by (rule one)
  have "0 < c" using pos by (simp add: word_less_nat_alt)
  then show "user_ok s a c w = Some (user_byte_ok s a w)"
    using user_ok_bytes one pos by auto
qed

lemma search_shift:
  fixes c m :: nat
  assumes "\<forall>i < c. \<not> Z i" and "\<forall>i < c. Y i" and "c \<le> m"
  shows "(\<exists>n < m. Z n \<and> (\<forall>i \<le> n. Y i)) \<longleftrightarrow> (\<exists>n < m - c. Z (c + n) \<and> (\<forall>i \<le> n. Y (c + i)))"
    (is "?L \<longleftrightarrow> ?R")
proof
  assume ?L
  then obtain n where n: "n < m" "Z n" "\<forall>i \<le> n. Y i" by blast
  then have "c \<le> n" using assms(1) by (meson not_le)
  with n show ?R by (intro exI [of _ "n - c"]) auto
next
  assume ?R
  then obtain n where n: "n < m - c" "Z (c + n)" "\<forall>i \<le> n. Y (c + i)" by blast
  have "Y i" if "i \<le> c + n" for i
    using n(3) assms(2) that by (cases "i < c") (auto dest: spec [of _ "i - c"])
  with n assms(3) show ?L by (intro exI [of _ "c + n"]) auto
qed

lemma user_str_ok_nat:
  "user_str_ok s rd a mx = Some (\<exists>n < unat mx. rd (a + of_nat n) = 0 \<and>
     (\<forall>i \<le> n. user_byte_ok s (a + of_nat i) False))"
proof (induction "unat mx" arbitrary: a mx rule: less_induct)
  case less
  note u = user_str_ok.simps [of s rd a mx]
  show ?case
  proof (cases "mx = 0")
    case True
    then show ?thesis unfolding u by simp
  next
    case False
    define c where "c = user_chunk a mx"
    note ch = user_chunk_ok [OF False c_def]
    have sub: "unat (mx - c) = unat mx - unat c" using ch(2) by (simp add: unat_sub word_le_nat_alt)
    have step: "user_str_ok s rd a mx = (if \<not> user_byte_ok s a False then Some False
        else if \<exists>i < unat c. rd (a + of_nat i) = 0 then Some True else user_str_ok s rd (a + c) (mx - c))"
      unfolding u using False ch(4) [of s False] by (simp add: Let_def c_def [symmetric])
    consider (bad) "\<not> user_byte_ok s a False"
      | (found) i where "user_byte_ok s a False" "i < unat c" "rd (a + of_nat i) = 0"
      | (on) "user_byte_ok s a False" "\<forall>i < unat c. rd (a + of_nat i) \<noteq> 0" by blast
    then show ?thesis
    proof cases
      case bad
      then have "\<not> (\<forall>i \<le> n. user_byte_ok s (a + of_nat i) False)" for n by (auto intro!: exI [of _ 0])
      with bad step show ?thesis by simp
    next
      case (found i)
      have "\<forall>j \<le> i. user_byte_ok s (a + of_nat j) False"
        using ch(5) [of _ s False] found by auto
      moreover have "i < unat mx" using found ch(2) by simp
      ultimately show ?thesis using step found by auto
    next
      case on
      have "\<forall>i < unat c. user_byte_ok s (a + of_nat i) False" using ch(5) [of _ s False] on(1) by blast
      note sh = search_shift [OF on(2) this ch(2)]
      have "user_str_ok s rd (a + c) (mx - c) = Some (\<exists>n < unat (mx - c). rd (a + c + of_nat n) = 0 \<and>
          (\<forall>i \<le> n. user_byte_ok s (a + c + of_nat i) False))"
        using ch(1,2) sub by (intro less.hyps) linarith
      moreover have st: "user_str_ok s rd a mx = user_str_ok s rd (a + c) (mx - c)"
        using step on by auto
      ultimately show ?thesis unfolding st sh by (simp add: sub add.assoc)
    qed
  qed
qed

section \<open>Properties of user pointer validation\<close>

text \<open>
  C3: \<^verbatim>\<open>user_ok\<close> terminates and accepts a non-empty range exactly when every byte of it is in
  the user window on a page that is present, user-accessible and, for writes, writable; a
  range that would wrap around the address space is never accepted.
\<close>

theorem user_ok_iff:
  assumes "0 < len"
  shows "user_ok s p len w = Some (\<forall>i < unat len. user_byte_ok s (p + of_nat i) w)"
  using assms by (rule user_ok_bytes)

definition demo_vm :: vm where
  "demo_vm = \<lparr>frames = (\<lambda>_. 0), nframes = 0, paging_enabled = True,
     dirs = (\<lambda>d. \<lparr>tables = (\<lambda>i. if i = 256 \<and> d \<noteq> 0x100000 then 0x200000 else 0), tables_physical = (\<lambda>_. 0), phys_addr = 0\<rparr>),
     ptabs = (\<lambda>t i. if i = 0 then \<lparr>present = True, rw = True, user = True, accessed = False, dirty = False,
       frame = 7\<rparr> else page_zero),
     kernel_directory = 0x100000, current_directory = 0x101000, physmem = (\<lambda>_. 0), kh = demo_heap\<rparr>"

lemma demo_byte_ok: "a div 0x1000 = 0x40000 \<Longrightarrow> 0x40000000 \<le> a \<Longrightarrow> a < 0x80000000 \<Longrightarrow> user_byte_ok demo_vm a w"
  by (simp add: user_byte_ok_page USER_VADDR_MIN_def USER_VADDR_MAX_def page_ok_def page_lookup_def
      page_at_def demo_vm_def Let_def)

theorem user_ok_iff_witness: "user_ok demo_vm 0x40000FFE 2 True = Some True"
proof -
  have "user_byte_ok demo_vm (0x40000FFE + of_nat i) True" if "i < 2" for i
    using that demo_byte_ok [of "0x40000FFE"] demo_byte_ok [of "0x40000FFF"] by (auto simp: less_2_cases_iff)
  then show ?thesis using user_ok_iff [of 2 demo_vm "0x40000FFE" True] by simp
qed

text \<open>
  C18: \<^verbatim>\<open>user_str_ok\<close> terminates and accepts exactly the strings with a NUL among the first \<open>max\<close>
  bytes whose bytes up to and including the first such NUL are all readable by the task; pages
  after the terminator are not required to be mapped.
\<close>

theorem user_str_ok_iff:
  "user_str_ok s rd a mx = Some (\<exists>n < unat mx. rd (a + of_nat n) = 0 \<and>
     (\<forall>i \<le> n. user_byte_ok s (a + of_nat i) False))"
  by (rule user_str_ok_nat)

theorem user_str_ok_iff_witness:
  "user_str_ok demo_vm (\<lambda>a. if a = 0x40000FFF then 0 else 65) 0x40000FFE 100 = Some True"
proof -
  have "\<forall>i \<le> 1. user_byte_ok demo_vm (0x40000FFE + of_nat i) False"
    using demo_byte_ok [of "0x40000FFE"] demo_byte_ok [of "0x40000FFF"] by (auto simp: le_Suc_eq)
  then show ?thesis
    using user_str_ok_iff [of demo_vm "\<lambda>a. if a = 0x40000FFF then 0 else 65" "0x40000FFE" 100]
    by (auto intro!: exI [of _ 1])
qed

section \<open>Cloning a page table\<close>

lemma copy_loop_nat:
  assumes "a + 4 * n \<le> 2 ^ 32" and "b + 4 * n \<le> 2 ^ 32" and "a + 4 * n \<le> b \<or> b + 4 * n \<le> a"
  shows "copy_loop m (of_nat a) (of_nat b) n x =
    (if \<exists>k < n. x = b + 4 * k then m (a + (x - b)) else m x)"
  using assms
proof (induction n arbitrary: a b m)
  case (Suc n)
  let ?m = "m(b := m a)"
  have "unat (of_nat a :: u32) = a" "unat (of_nat b :: u32) = b"
    using Suc.prems(1,2) by (auto intro!: unat_of_nat32)
  moreover have "of_nat a + 4 = (of_nat (a + 4) :: u32)" "of_nat b + 4 = (of_nat (b + 4) :: u32)" by simp_all
  ultimately have "copy_loop m (of_nat a) (of_nat b) (Suc n) x = copy_loop ?m (of_nat (a + 4)) (of_nat (b + 4)) n x"
    by (simp only: copy_loop.simps)
  also have "\<dots> = (if \<exists>k < n. x = b + 4 + 4 * k then ?m (a + 4 + (x - (b + 4))) else ?m x)"
    using Suc.prems by (intro Suc.IH) auto
  also have "\<dots> = (if \<exists>k < Suc n. x = b + 4 * k then m (a + (x - b)) else m x)"
  proof -
    have "(\<exists>k < Suc n. x = b + 4 * k) \<longleftrightarrow> x = b \<or> (\<exists>k < n. x = b + 4 + 4 * k)"
      by (auto simp: less_Suc_eq_0_disj)
    moreover have "?m (a + 4 + (x - (b + 4))) = m (a + (x - b))" if "k < n" "x = b + 4 + 4 * k" for k
      using that Suc.prems(3) by (auto simp: add.assoc)
    moreover have "x \<noteq> b" if "x = b + 4 + 4 * k" for k using that by simp
    ultimately show ?thesis by auto
  qed
  finally show ?case .
qed simp

text \<open>Two frames are the same or disjoint, so a page copy reads the source as it was.\<close>

lemma copy_page_nat:
  assumes "f < 2 ^ 20" and "g < 2 ^ 20" and "f \<noteq> g"
  shows "physmem (copy_page_physical s (of_nat f * 0x1000) (of_nat g * 0x1000)) x =
    (if \<exists>k < 1024. x = g * 4096 + 4 * k then physmem s (f * 4096 + (x - g * 4096)) else physmem s x)"
proof -
  have e: "of_nat y * 0x1000 = (of_nat (y * 4096) :: u32)" for y by simp
  have "f * 4096 + 4096 \<le> g * 4096 \<or> g * 4096 + 4096 \<le> f * 4096"
    using assms(3) by (auto simp: neq_iff)
  then show ?thesis
    unfolding copy_page_physical_def e using assms
    by (simp add: copy_loop_nat del: of_nat_mult)
qed

lemma copy_page_other [simp]:
  "frames (copy_page_physical s a b) = frames s" "nframes (copy_page_physical s a b) = nframes s"
  "ptabs (copy_page_physical s a b) = ptabs s" "dirs (copy_page_physical s a b) = dirs s"
  "kh (copy_page_physical s a b) = kh s" "kernel_directory (copy_page_physical s a b) = kernel_directory s"
  by (simp_all add: copy_page_physical_def)

text \<open>
  A mapped source page: its frame number has 20 bits, and the frame is marked in the bitmap or
  lies beyond the memory the bitmap manages (a memory-mapped device).
\<close>

definition mapped_ok :: "vm \<Rightarrow> page \<Rightarrow> bool" where
  "mapped_ok s pg \<longleftrightarrow> unat (frame pg) < 2 ^ 20 \<and>
     (frame_used (frames s) (unat (frame pg)) \<or> frame_limit s \<le> unat (frame pg))"

definition copy_of :: "page \<Rightarrow> nat \<Rightarrow> page" where
  "copy_of src f = \<lparr>present = True, rw = rw src, user = True, accessed = accessed src, dirty = dirty src,
     frame = of_nat f\<rparr>"

lemma clone_page_cases:
  assumes "frames_inv s" and "frame src \<noteq> 0" and "mapped_ok s src"
  obtains (full) "clone_page s src page_zero = Panic" "\<forall>f < frame_limit s. frame_used (frames s) f"
  | (fresh) f fr pm where "clone_page s src page_zero = Done (copy_of src f, s\<lparr>frames := fr, physmem := pm\<rparr>)"
      "0 < f" "f < frame_limit s" "\<not> frame_used (frames s) f"
      "\<And>g. frame_used fr g \<longleftrightarrow> g = f \<or> frame_used (frames s) g"
      "\<And>x. pm x = (if \<exists>k < 1024. x = f * 4096 + 4 * k
         then physmem s (unat (frame src) * 4096 + (x - f * 4096)) else physmem s x)"
proof -
  have z: "frame page_zero = 0" by (simp add: page_zero_def)
  show ?thesis
  proof (cases rule: alloc_frame_cases [OF assms(1) z, of False False])
    case 1
    then show ?thesis using assms(2) full by (simp add: clone_page_def)
  next
    case (2 f fr)
    let ?s' = "copy_page_physical (s\<lparr>frames := fr\<rparr>) (frame src * 0x1000) (of_nat f * 0x1000)"
    have b: "f < 2 ^ 20" using 2(3) frame_limit_bound(1) [OF assms(1)] by simp
    have ne: "unat (frame src) \<noteq> f" using assms(3) 2(3,4) by (auto simp: mapped_ok_def)
    define pm where "pm = physmem ?s'"
    have e: "?s' = s\<lparr>frames := fr, physmem := pm\<rparr>" by (simp add: pm_def copy_page_physical_def)
    have cl: "clone_page s src page_zero = Done (copy_of src f, ?s')"
      using assms(2) 2(1) by (cases "present src"; cases "rw src"; cases "user src"; cases "accessed src"; cases "dirty src")
        (simp_all add: clone_page_def copy_of_def page_zero_def Let_def)
    have "pm x = (if \<exists>k < 1024. x = f * 4096 + 4 * k
         then physmem s (unat (frame src) * 4096 + (x - f * 4096)) else physmem s x)" for x
    proof -
      have "of_nat (unat (frame src)) = frame src" "unat (frame src) < 2 ^ 20"
        using assms(3) by (simp_all add: mapped_ok_def)
      moreover have "physmem (s\<lparr>frames := fr\<rparr>) = physmem s" by simp
      ultimately show ?thesis using copy_page_nat [OF _ b ne, of "s\<lparr>frames := fr\<rparr>" x] by (simp only: pm_def)
    qed
    then show ?thesis by (rule fresh [OF cl [unfolded e] 2(2-4) 2(6)])
  qed
qed

text \<open>
  The state after cloning the pages \<open>is\<close> of table \<open>src\<close> into the zeroed table \<open>t\<close>: there is an
  injective choice \<open>g\<close> of fresh frames for the mapped pages such that every mapped page has a
  copy with the same rights in its own frame, holding the source page's contents.
\<close>

definition mapped :: "page_table \<Rightarrow> nat set \<Rightarrow> nat set" where
  "mapped pt A = {i \<in> A. frame (pt i) \<noteq> 0}"

definition cloned :: "vm \<Rightarrow> u32 \<Rightarrow> u32 \<Rightarrow> nat set \<Rightarrow> (nat \<Rightarrow> nat) \<Rightarrow> vm \<Rightarrow> bool" where
  "cloned s src t I g s' \<longleftrightarrow>
     inj_on g I \<and> (\<forall>i \<in> I. 0 < g i \<and> g i < frame_limit s \<and> \<not> frame_used (frames s) (g i)) \<and>
     (\<forall>f. frame_used (frames s') f \<longleftrightarrow> f \<in> g ` I \<or> frame_used (frames s) f) \<and>
     (\<forall>i. ptabs s' t i = (if i \<in> I then copy_of (ptabs s src i) (g i) else ptabs s t i)) \<and>
     (\<forall>i \<in> I. \<forall>k < 1024. physmem s' (g i * 4096 + 4 * k) =
        physmem s (unat (frame (ptabs s src i)) * 4096 + 4 * k)) \<and>
     (\<forall>x. x div 4096 \<notin> g ` I \<longrightarrow> physmem s' x = physmem s x) \<and>
     (\<exists>fr pt pm. s' = s\<lparr>frames := fr, ptabs := (ptabs s)(t := pt), physmem := pm\<rparr>)"

lemma cloned_empty: "cloned s src t {} g s"
  unfolding cloned_def
  by (simp, rule exI [of _ "frames s"], rule exI [of _ "ptabs s t"], rule exI [of _ "physmem s"]) simp

lemma word_of_frame: "k < 1024 \<Longrightarrow> (f * 4096 + 4 * k) div 4096 = (f :: nat)"
  by simp

lemma cloned_step:
  assumes c: "cloned s2 src t I g s'"
    and s2: "s2 = set_page (s\<lparr>frames := fr, physmem := pm\<rparr>) (t, i) (copy_of (ptabs s src i) f)"
    and f: "0 < f" "f < frame_limit s" "\<not> frame_used (frames s) f"
    and fr: "\<And>g. frame_used fr g \<longleftrightarrow> g = f \<or> frame_used (frames s) g"
    and pm: "\<And>x. pm x = (if \<exists>k < 1024. x = f * 4096 + 4 * k
         then physmem s (unat (frame (ptabs s src i)) * 4096 + (x - f * 4096)) else physmem s x)"
    and "src \<noteq> t" and "i \<notin> I" and mo: "\<forall>j \<in> I. mapped_ok s (ptabs s src j)"
  shows "cloned s src t (insert i I) (g(i := f)) s'"
proof -
  have s2s: "frames s2 = fr" "physmem s2 = pm" "frame_limit s2 = frame_limit s" "ptabs s2 src = ptabs s src"
    "ptabs s2 t = (ptabs s t)(i := copy_of (ptabs s src i) f)"
    using s2 assms(8) by (simp_all add: set_page_def frame_limit_def)
  note c' = c [unfolded cloned_def s2s]
  have fresh: "\<forall>j \<in> I. g j \<noteq> f \<and> 0 < g j \<and> g j < frame_limit s \<and> \<not> frame_used (frames s) (g j)"
    using c' fr by auto
  have img: "g(i := f) ` insert i I = insert f (g ` I)" using assms(9) by auto
  have inj: "inj_on (g(i := f)) (insert i I)"
    using c' fresh assms(9) by (auto simp: inj_on_def)
  have old: "pm x = physmem s x" if "x div 4096 \<noteq> f" for x
  proof -
    have "\<not> (\<exists>k < 1024. x = f * 4096 + 4 * k)" using that word_of_frame by auto
    then show ?thesis unfolding pm by (rule if_not_P)
  qed
  have new: "pm (f * 4096 + 4 * k) = physmem s (unat (frame (ptabs s src i)) * 4096 + 4 * k)" if "k < 1024" for k
    using pm [of "f * 4096 + 4 * k"] that by auto
  have cp: "physmem s' ((g(i := f)) j * 4096 + 4 * k) = physmem s (unat (frame (ptabs s src j)) * 4096 + 4 * k)"
    if "j \<in> insert i I" "k < 1024" for j k
  proof (cases "j = i")
    case True
    have "f \<notin> g ` I" using fresh by auto
    then have "physmem s' (f * 4096 + 4 * k) = pm (f * 4096 + 4 * k)"
      using c' word_of_frame [OF that(2), of f] by metis
    then show ?thesis using True new [OF that(2)] by simp
  next
    case False
    then have j: "j \<in> I" using that(1) by simp
    then have "unat (frame (ptabs s src j)) \<noteq> f" using mo f(2,3) by (auto simp: mapped_ok_def)
    then have "pm (unat (frame (ptabs s src j)) * 4096 + 4 * k) = physmem s (unat (frame (ptabs s src j)) * 4096 + 4 * k)"
      using word_of_frame [OF that(2), of "unat (frame (ptabs s src j))"] by (intro old) simp
    then show ?thesis using c' j that(2) False by simp
  qed
  obtain fr' pt pm' where "s' = s2\<lparr>frames := fr', ptabs := (ptabs s2)(t := pt), physmem := pm'\<rparr>" using c' by blast
  then have st: "s' = s\<lparr>frames := fr', ptabs := (ptabs s)(t := pt), physmem := pm'\<rparr>"
    by (simp add: s2 set_page_def)
  have pt: "ptabs s' t j = (if j \<in> insert i I then copy_of (ptabs s src j) ((g(i := f)) j) else ptabs s t j)" for j
    using c' assms(9) by auto
  have used: "frame_used (frames s') fa \<longleftrightarrow> fa \<in> insert f (g ` I) \<or> frame_used (frames s) fa" for fa
    using c' fr by auto
  have out: "physmem s' x = physmem s x" if "x div 4096 \<notin> insert f (g ` I)" for x
    using c' old that by auto
  have ran: "\<forall>j \<in> insert i I. 0 < (g(i := f)) j \<and> (g(i := f)) j < frame_limit s \<and> \<not> frame_used (frames s) ((g(i := f)) j)"
    using fresh f by auto
  show ?thesis unfolding cloned_def img using inj ran used pt cp out st by blast
qed

lemma clone_pages_cloned:
  assumes "clone_pages s src t is = Done s'" and "frames_inv s" and "src \<noteq> t" and "distinct is"
    and "\<forall>i \<in> set is. ptabs s t i = page_zero" and "\<forall>i \<in> set is. frame (ptabs s src i) \<noteq> 0 \<longrightarrow> mapped_ok s (ptabs s src i)"
  shows "\<exists>g. cloned s src t (mapped (ptabs s src) (set is)) g s'"
  using assms
proof (induction "is" arbitrary: s)
  case Nil
  then show ?case using cloned_empty by (auto simp: mapped_def)
next
  case (Cons i "is")
  show ?case
  proof (cases "frame (ptabs s src i) = 0")
    case True
    then have "clone_page s (ptabs s src i) page_zero = Done (page_zero, s)" by (simp add: clone_page_def)
    moreover have "set_page s (t, i) page_zero = s"
      using Cons.prems(5) by (simp add: set_page_def fun_upd_idem)
    ultimately have "clone_pages s src t is = Done s'"
      using Cons.prems(1,5) by (simp add: page_at_def)
    then obtain g where "cloned s src t (mapped (ptabs s src) (set is)) g s'"
      using Cons.IH [of s] Cons.prems by auto
    moreover have "mapped (ptabs s src) (set (i # is)) = mapped (ptabs s src) (set is)"
      using True by (auto simp: mapped_def)
    ultimately show ?thesis by auto
  next
    case False
    then have m: "mapped_ok s (ptabs s src i)" using Cons.prems(6) by simp
    show ?thesis
    proof (cases rule: clone_page_cases [OF Cons.prems(2) False m])
      case 1
      then show ?thesis using Cons.prems(1,5) by (simp add: page_at_def)
    next
      case (2 f fr pm)
      let ?s2 = "set_page (s\<lparr>frames := fr, physmem := pm\<rparr>) (t, i) (copy_of (ptabs s src i) f)"
      have p2: "ptabs ?s2 src = ptabs s src" "\<forall>j \<in> set is. ptabs ?s2 t j = page_zero"
        using Cons.prems(3,4,5) by (auto simp: set_page_def)
      have inv2: "frames_inv ?s2" using Cons.prems(2) 2(5) by (simp add: frames_inv_def set_page_def)
      have "mapped_ok ?s2 pg" if "mapped_ok s pg" for pg
        using that 2(5) by (auto simp: mapped_ok_def set_page_def frame_limit_def)
      then have mo: "\<forall>j \<in> set is. frame (ptabs ?s2 src j) \<noteq> 0 \<longrightarrow> mapped_ok ?s2 (ptabs ?s2 src j)"
        using Cons.prems(6) p2(1) by simp
      have "clone_pages ?s2 src t is = Done s'" using Cons.prems(1,5) 2(1) by (simp add: page_at_def)
      then obtain g where g: "cloned ?s2 src t (mapped (ptabs s src) (set is)) g s'"
        using Cons.IH [OF _ inv2 Cons.prems(3) _ p2(2) mo] Cons.prems(4) p2(1) by auto
      have "cloned s src t (insert i (mapped (ptabs s src) (set is))) (g(i := f)) s'"
        using cloned_step [OF g refl 2(2-6) Cons.prems(3)] Cons.prems(4,6) by (auto simp: mapped_def)
      moreover have "mapped (ptabs s src) (set (i # is)) = insert i (mapped (ptabs s src) (set is))"
        using False by (auto simp: mapped_def)
      ultimately show ?thesis by auto
    qed
  qed
qed

section \<open>Freeing pages\<close>

text \<open>The frames of table \<open>pt\<close>'s pages \<open>A\<close> that belong to the bitmap.\<close>

definition owned_frames :: "vm \<Rightarrow> page_table \<Rightarrow> nat set \<Rightarrow> nat set" where
  "owned_frames s pt A = {f. \<exists>j \<in> A. f = unat (frame (pt j)) \<and> f \<noteq> 0 \<and> f < unat (nframes s)}"

lemma free_frame_eq:
  assumes "unat (frame pg) < 2 ^ 20" and "frame pg \<noteq> 0"
  obtains fr where "free_frame s pg = (pg\<lparr>frame := 0, present := False\<rparr>, s\<lparr>frames := fr\<rparr>)"
    "\<And>f. frame_used fr f \<longleftrightarrow> frame_used (frames s) f \<and> \<not> (f = unat (frame pg) \<and> f < unat (nframes s))"
proof (cases "frame pg < nframes s")
  case True
  have "frame pg = of_nat (unat (frame pg))" by simp
  then have "frame_used (clear_frame (frames s) (frame pg * 0x1000)) f \<longleftrightarrow>
      f \<noteq> unat (frame pg) \<and> frame_used (frames s) f" for f
    using clear_frame_used [OF assms(1)] by metis
  with True show ?thesis using assms(2)
    by (intro that [of "clear_frame (frames s) (frame pg * 0x1000)"])
      (auto simp: free_frame_def word_less_nat_alt)
next
  case False
  then show ?thesis using assms(2)
    by (intro that [of "frames s"]) (auto simp: free_frame_def word_less_nat_alt)
qed

definition pages_freed :: "vm \<Rightarrow> page_table \<Rightarrow> nat set \<Rightarrow> (nat \<Rightarrow> u32) \<Rightarrow> page_table \<Rightarrow> bool" where
  "pages_freed s old A fr pt \<longleftrightarrow>
     (\<forall>f. frame_used fr f \<longleftrightarrow> frame_used (frames s) f \<and> f \<notin> owned_frames s old A) \<and>
     (\<forall>j. pt j = (if j \<in> A \<and> frame (old j) \<noteq> 0 then (old j)\<lparr>frame := 0, present := False\<rparr> else old j))"

lemma pages_freed_skip:
  assumes "pages_freed s old A fr pt" and "frame (old j) = 0"
  shows "pages_freed s old (insert j A) fr pt"
proof -
  have "owned_frames s old (insert j A) = owned_frames s old A"
    using assms(2) by (auto simp: owned_frames_def)
  then show ?thesis using assms by (auto simp: pages_freed_def)
qed

lemma pages_freed_step:
  assumes c: "pages_freed s1 old1 A fr' pt" and n: "nframes s1 = nframes s" and "j \<notin> A" and "frame (old j) \<noteq> 0"
    and o1: "old1 = old(j := (old j)\<lparr>frame := 0, present := False\<rparr>)"
    and fr: "\<And>f. frame_used (frames s1) f \<longleftrightarrow>
        frame_used (frames s) f \<and> \<not> (f = unat (frame (old j)) \<and> f < unat (nframes s))"
  shows "pages_freed s old (insert j A) fr' pt"
proof -
  have ow: "owned_frames s old (insert j A) =
      {f. f = unat (frame (old j)) \<and> f < unat (nframes s)} \<union> owned_frames s1 old1 A"
    using assms(3,4) by (auto simp: owned_frames_def o1 n word_unat_eq_iff)
  have "frame_used fr' f \<longleftrightarrow> frame_used (frames s) f \<and> f \<notin> owned_frames s old (insert j A)" for f
    unfolding ow using c fr by (auto simp: pages_freed_def)
  moreover have "pt i = (if i \<in> insert j A \<and> frame (old i) \<noteq> 0
      then (old i)\<lparr>frame := 0, present := False\<rparr> else old i)" for i
    using c assms(3,4) by (auto simp: pages_freed_def o1)
  ultimately show ?thesis by (simp add: pages_freed_def)
qed

lemma free_pages_spec:
  assumes "distinct js" and "\<forall>j \<in> set js. unat (frame (ptabs s t j)) < 2 ^ 20"
  shows "\<exists>fr pt. free_pages s t js = s\<lparr>frames := fr, ptabs := (ptabs s)(t := pt)\<rparr> \<and>
    pages_freed s (ptabs s t) (set js) fr pt"
  using assms
proof (induction js arbitrary: s)
  case Nil
  show ?case
    by (rule exI [of _ "frames s"], rule exI [of _ "ptabs s t"]) (simp add: owned_frames_def pages_freed_def)
next
  case (Cons j js)
  have d: "j \<notin> set js" "distinct js" using Cons.prems(1) by simp_all
  show ?case
  proof (cases "frame (ptabs s t j) = 0")
    case True
    then have "free_pages s t (j # js) = free_pages s t js" by (simp add: page_at_def)
    moreover have q: "\<forall>i \<in> set js. unat (frame (ptabs s t i)) < 2 ^ 20" using Cons.prems(2) by simp
    moreover from Cons.IH [OF d(2) q] obtain fr pt where
      "free_pages s t js = s\<lparr>frames := fr, ptabs := (ptabs s)(t := pt)\<rparr>"
      "pages_freed s (ptabs s t) (set js) fr pt" by blast
    ultimately show ?thesis using pages_freed_skip [of s "ptabs s t" _ _ _ j] True unfolding list.set by metis
  next
    case False
    obtain fr where fr: "free_frame s (ptabs s t j) = ((ptabs s t j)\<lparr>frame := 0, present := False\<rparr>, s\<lparr>frames := fr\<rparr>)"
      "\<And>f. frame_used fr f \<longleftrightarrow> frame_used (frames s) f \<and> \<not> (f = unat (frame (ptabs s t j)) \<and> f < unat (nframes s))"
      using free_frame_eq [of "ptabs s t j" s] Cons.prems(2) False by auto
    let ?s1 = "set_page (s\<lparr>frames := fr\<rparr>) (t, j) ((ptabs s t j)\<lparr>frame := 0, present := False\<rparr>)"
    have s1: "ptabs ?s1 t = (ptabs s t)(j := (ptabs s t j)\<lparr>frame := 0, present := False\<rparr>)" "frames ?s1 = fr"
        "nframes ?s1 = nframes s"
      by (simp_all add: set_page_def)
    have "\<forall>i \<in> set js. unat (frame (ptabs ?s1 t i)) < 2 ^ 20" using Cons.prems(2) d by (auto simp: s1)
    from Cons.IH [OF d(2) this] obtain fr' pt where
      e: "free_pages ?s1 t js = ?s1\<lparr>frames := fr', ptabs := (ptabs ?s1)(t := pt)\<rparr>"
      and u: "pages_freed ?s1 (ptabs ?s1 t) (set js) fr' pt" by blast
    have "free_pages s t (j # js) = s\<lparr>frames := fr', ptabs := (ptabs s)(t := pt)\<rparr>"
      using False fr(1) e by (simp add: page_at_def set_page_def)
    moreover have "pages_freed s (ptabs s t) (set (j # js)) fr' pt"
      unfolding list.set by (rule pages_freed_step [OF u s1(3) d(1) False s1(1)]) (simp only: s1(2) fr(2))
    ultimately show ?thesis by blast
  qed
qed

lemma entries_set [simp]: "set entries = {..<1024}" "distinct entries"
  by (auto simp: entries_def)

text \<open>Freeing a fresh clone gives back exactly the frames it took.\<close>

lemma cloned_free:
  assumes c: "cloned s src t (mapped (ptabs s src) {..<1024}) g s'" and "frames_inv s"
    and "\<forall>i. ptabs s t i = page_zero"
  shows "frames (free_pages s' t entries) = frames s"
proof -
  let ?I = "mapped (ptabs s src) {..<1024}"
  have fb: "unat (of_nat (g i) :: u32) = g i" "g i < 2 ^ 20" "g i < unat (nframes s)" "0 < g i"
    if "i \<in> ?I" for i
  proof -
    have b: "g i < frame_limit s" "0 < g i" using c that by (auto simp: cloned_def)
    then show "g i < 2 ^ 20" "g i < unat (nframes s)" "0 < g i"
      using frame_limit_bound [of s] assms(2) by auto
    then show "unat (of_nat (g i) :: u32) = g i" by (intro unat_of_nat32) simp
  qed
  have pt: "ptabs s' t i = (if i \<in> ?I then copy_of (ptabs s src i) (g i) else page_zero)" for i
    using c assms(3) by (auto simp: cloned_def)
  have fr: "unat (frame (ptabs s' t i)) = (if i \<in> ?I then g i else 0)" for i
    using fb pt by (simp add: copy_of_def page_zero_def)
  have "nframes s' = nframes s" using c by (auto simp: cloned_def)
  then have ow: "owned_frames s' (ptabs s' t) {..<1024} = g ` ?I"
    using fb unfolding owned_frames_def fr by (auto simp: mapped_def image_iff)
  have "\<forall>j \<in> set entries. unat (frame (ptabs s' t j)) < 2 ^ 20" using fb fr by simp
  from free_pages_spec [OF entries_set(2) this] obtain fr' where
    e: "frames (free_pages s' t entries) = fr'" and
    u: "\<forall>f. frame_used fr' f \<longleftrightarrow> frame_used (frames s') f \<and> f \<notin> g ` ?I"
    unfolding pages_freed_def entries_set ow by auto
  have "frame_used fr' f = frame_used (frames s) f" for f
    using u c unfolding cloned_def by blast
  then show ?thesis unfolding e by (rule frame_used_ext)
qed

text \<open>The allocation in \<^verbatim>\<open>kmalloc_ap\<close> returns a page-aligned block that no live block shares.\<close>

lemma kmalloc_ap_Done:
  assumes "kmalloc_ap s n = Some (Done ((t, phys), s'))" and "heap_inv (kh s) bs" and "request_a_ok (kh s) bs n"
  obtains h bs' where "s' = s\<lparr>kh := h\<rparr>" "heap_inv h bs'" "4096 dvd unat t"
    "unat t \<notin> fst ` set (live (unat (heap (kh s))) bs)"
proof -
  from assms(1) obtain h where h: "kmalloc_a (kh s) n = Some (Done (t, h))" "s' = s\<lparr>kh := h\<rparr>"
    by (auto simp: kmalloc_ap_def with_phys_def split: option.splits outcome.splits)
  have "4096 dvd unat t"
    using kma.refines [OF assms(2,3)] h(1) alloc_blocks_a_fresh assms(2)
    by (auto simp: alloc_ok_def heap_inv_def unat_of_nat dvd_mod split: option.splits)
  moreover obtain bs' where "heap_inv h bs'" "unat t \<notin> fst ` set (live (unat (heap (kh s))) bs)"
    by (rule kma.success [OF assms(2,3) h(1)])
  ultimately show ?thesis using h(2) that by blast
qed

text \<open>Table \<open>t\<close> of \<open>s'\<close> is a private copy of the mapped pages of table \<open>src\<close> of \<open>s\<close>, and nothing else changed.\<close>

definition private_copy :: "vm \<Rightarrow> u32 \<Rightarrow> u32 \<Rightarrow> vm \<Rightarrow> bool" where
  "private_copy s src t s' \<longleftrightarrow>
     t \<noteq> src \<and> (\<forall>u. u \<noteq> t \<longrightarrow> ptabs s' u = ptabs s u) \<and> dirs s' = dirs s \<and>
     (\<exists>g. let I = mapped (ptabs s src) {..<1024} in
       inj_on g I \<and> (\<forall>i \<in> I. g i < unat (nframes s) \<and> \<not> frame_used (frames s) (g i)) \<and>
       (\<forall>i. ptabs s' t i = (if i \<in> I then copy_of (ptabs s src i) (g i) else page_zero)) \<and>
       (\<forall>i \<in> I. \<forall>k < 1024. physmem s' (g i * 4096 + 4 * k) =
          physmem s (unat (frame (ptabs s src i)) * 4096 + 4 * k)) \<and>
       (\<forall>x. x div 4096 \<notin> g ` I \<longrightarrow> physmem s' x = physmem s x))"

lemma clone_table_Done:
  assumes "frames_inv s" and "heap_inv (kh s) bs" and "request_a_ok (kh s) bs 0x1000"
    and "(unat src, n) \<in> set (live (unat (heap (kh s))) bs)"
    and "\<forall>i < 1024. frame (ptabs s src i) \<noteq> 0 \<longrightarrow> mapped_ok s (ptabs s src i)"
    and "clone_table s src = Some (Done ((t, phys), s'))"
  shows "private_copy s src t s' \<and> frames (free_pages s' t entries) = frames s"
proof -
  from assms(6) obtain s1 where k: "kmalloc_ap s 0x1000 = Some (Done ((t, phys), s1))"
    and cp: "clone_pages (s1\<lparr>ptabs := (ptabs s1)(t := (\<lambda>_. page_zero))\<rparr>) src t entries = Done s'"
    by (auto simp: clone_table_def obind_def split: option.splits outcome.splits)
  obtain h where h: "s1 = s\<lparr>kh := h\<rparr>" and fr: "unat t \<notin> fst ` set (live (unat (heap (kh s))) bs)"
    by (rule kmalloc_ap_Done [OF k assms(2,3)])
  have ne: "t \<noteq> src" using fr assms(4) by force
  let ?s2 = "s1\<lparr>ptabs := (ptabs s1)(t := (\<lambda>_. page_zero))\<rparr>"
  have p2: "ptabs ?s2 src = ptabs s src" "frames_inv ?s2" "frame_limit ?s2 = frame_limit s"
      "frames ?s2 = frames s" "physmem ?s2 = physmem s" "\<forall>i. ptabs ?s2 t i = page_zero"
    using ne assms(1) by (auto simp: h frames_inv_def frame_limit_def)
  have mo: "\<forall>i \<in> set entries. frame (ptabs ?s2 src i) \<noteq> 0 \<longrightarrow> mapped_ok ?s2 (ptabs ?s2 src i)"
    using assms(5) unfolding mapped_ok_def p2 by simp
  obtain g where g: "cloned ?s2 src t (mapped (ptabs ?s2 src) (set entries)) g s'"
    using clone_pages_cloned [OF cp p2(2) ne [symmetric] entries_set(2) _ mo] p2(6) by blast
  have "frames (free_pages s' t entries) = frames s"
    using cloned_free [OF g [unfolded entries_set] p2(2,6)] by (simp only: p2)
  moreover have "(\<forall>u. u \<noteq> t \<longrightarrow> ptabs s' u = ptabs s u) \<and> dirs s' = dirs s"
    using g by (auto simp: cloned_def h)
  moreover have "\<forall>i. g i < frame_limit s \<longrightarrow> g i < unat (nframes s)"
    using frame_limit_bound(2) [of s] by (simp add: less_le_trans)
  ultimately show ?thesis
    using ne g p2(6) unfolding private_copy_def cloned_def p2 entries_set Let_def by (auto intro!: exI [of _ g])
qed

text \<open>The entries of a directory whose tables it does not share with the kernel.\<close>

definition private_entries :: "vm \<Rightarrow> u32 \<Rightarrow> nat set \<Rightarrow> nat set" where
  "private_entries s dir A =
     {i \<in> A. tables (dirs s dir) i \<noteq> 0 \<and> tables (dirs s (kernel_directory s)) i \<noteq> tables (dirs s dir) i}"

definition private_frames :: "vm \<Rightarrow> u32 \<Rightarrow> nat set \<Rightarrow> nat set" where
  "private_frames s dir A =
     (\<Union>i \<in> private_entries s dir A. owned_frames s (ptabs s (tables (dirs s dir) i)) {..<1024})"

definition dir_freed :: "vm \<Rightarrow> u32 \<Rightarrow> nat set \<Rightarrow> vm \<Rightarrow> bool" where
  "dir_freed s dir A s' \<longleftrightarrow>
     (\<forall>f. frame_used (frames s') f \<longleftrightarrow> frame_used (frames s) f \<and> f \<notin> private_frames s dir A) \<and>
     (\<forall>t. t \<notin> tables (dirs s dir) ` private_entries s dir A \<longrightarrow> ptabs s' t = ptabs s t) \<and>
     dirs s' = dirs s \<and> kernel_directory s' = kernel_directory s \<and> nframes s' = nframes s \<and> physmem s' = physmem s"

lemma dir_freed_step:
  assumes c: "dir_freed s1 dir A s'" and "i \<in> private_entries s dir (insert i A)" and "i \<notin> A"
    and inj: "inj_on (tables (dirs s dir)) (private_entries s dir (insert i A))"
    and pf: "pages_freed s (ptabs s (tables (dirs s dir) i)) {..<1024} fr pt"
    and s1: "s1 = s\<lparr>frames := fr, ptabs := (ptabs s)(tables (dirs s dir) i := pt), kh := h\<rparr>"
  shows "dir_freed s dir (insert i A) s'"
proof -
  let ?t = "tables (dirs s dir) i"
  have d1: "dirs s1 = dirs s" "kernel_directory s1 = kernel_directory s" "nframes s1 = nframes s" "frames s1 = fr"
    "physmem s1 = physmem s" "ptabs s1 = (ptabs s)(?t := pt)" by (simp_all add: s1)
  have pe: "private_entries s dir (insert i A) = insert i (private_entries s dir A)"
    "private_entries s1 dir A = private_entries s dir A"
    using assms(2) by (auto simp: private_entries_def d1)
  have "tables (dirs s dir) j \<noteq> ?t" if "j \<in> private_entries s dir A" for j
    using inj assms(3) that unfolding pe by (auto simp: inj_on_def private_entries_def)
  then have "private_frames s1 dir A = private_frames s dir A"
    unfolding private_frames_def pe(2) by (auto simp: d1 owned_frames_def)
  then have "private_frames s dir (insert i A) = owned_frames s (ptabs s ?t) {..<1024} \<union> private_frames s1 dir A"
    unfolding private_frames_def pe(1) by simp
  then have "frame_used (frames s') f \<longleftrightarrow> frame_used (frames s) f \<and> f \<notin> private_frames s dir (insert i A)" for f
    using c pf by (auto simp: dir_freed_def pages_freed_def d1)
  moreover have "ptabs s' t = ptabs s t" if "t \<notin> tables (dirs s dir) ` private_entries s dir (insert i A)" for t
    using c that unfolding pe dir_freed_def d1 by auto
  ultimately show ?thesis using c by (simp add: dir_freed_def d1)
qed

lemma free_tables_spec:
  assumes "distinct is" and "inj_on (tables (dirs s dir)) (private_entries s dir (set is))"
    and "\<forall>t i. unat (frame (ptabs s t i)) < 2 ^ 20"
  shows "dir_freed s dir (set is) (free_tables s dir is)"
  using assms
proof (induction "is" arbitrary: s)
  case Nil
  show ?case by (simp add: dir_freed_def private_frames_def private_entries_def)
next
  case (Cons i "is")
  let ?t = "tables (dirs s dir) i"
  show ?case
  proof (cases "i \<in> private_entries s dir (set (i # is))")
    case False
    then have "private_entries s dir (set (i # is)) = private_entries s dir (set is)"
      by (auto simp: private_entries_def)
    moreover have "free_tables s dir (i # is) = free_tables s dir is"
      using False by (auto simp: private_entries_def Let_def)
    ultimately show ?thesis using Cons.IH [of s] Cons.prems by (simp add: dir_freed_def private_frames_def)
  next
    case True
    obtain fr pt where fp: "free_pages s ?t entries = s\<lparr>frames := fr, ptabs := (ptabs s)(?t := pt)\<rparr>"
      and pf: "pages_freed s (ptabs s ?t) {..<1024} fr pt"
      using free_pages_spec [OF entries_set(2), of s ?t] Cons.prems(3) by auto
    define s1 where "s1 = s\<lparr>frames := fr, ptabs := (ptabs s)(?t := pt), kh := kfree (kh s) ?t\<rparr>"
    have ft: "free_tables s dir (i # is) = free_tables s1 dir is"
      using True fp by (auto simp: private_entries_def Let_def s1_def)
    have d: "i \<notin> set is" "distinct is" using Cons.prems(1) by simp_all
    have "private_entries s1 dir (set is) \<subseteq> private_entries s dir (set (i # is))" "dirs s1 = dirs s"
      by (auto simp: private_entries_def s1_def)
    then have "inj_on (tables (dirs s1 dir)) (private_entries s1 dir (set is))"
      using Cons.prems(2) by (auto intro: inj_on_subset)
    moreover have "\<forall>t i. unat (frame (ptabs s1 t i)) < 2 ^ 20"
      using Cons.prems(3) pf by (auto simp: s1_def pages_freed_def)
    ultimately have "dir_freed s1 dir (set is) (free_tables s1 dir is)" by (intro Cons.IH [OF d(2)])
    then show ?thesis unfolding ft list.set
      using dir_freed_step [OF _ _ d(1) _ pf s1_def] True Cons.prems(2) by simp
  qed
qed

section \<open>The identity map\<close>

text \<open>The slot of page number \<open>j\<close> in the kernel directory.\<close>

definition slot :: "vm \<Rightarrow> nat \<Rightarrow> u32 \<times> nat" where
  "slot s j = (tables (dirs s (kernel_directory s)) (j div 1024), j mod 1024)"

text \<open>
  Before the loop: the tables for pages \<open>0..n\<close> exist and are distinct, as the first loop of
  \<^verbatim>\<open>mm_paging_init\<close> and the heap allocator leave them.
\<close>

definition tables_made :: "vm \<Rightarrow> nat \<Rightarrow> bool" where
  "tables_made s n \<longleftrightarrow> (\<forall>i \<le> n div 1024. tables (dirs s (kernel_directory s)) i \<noteq> 0) \<and>
     inj_on (tables (dirs s (kernel_directory s))) {..n div 1024}"

definition identity_page :: "page \<Rightarrow> nat \<Rightarrow> bool" where
  "identity_page pg j \<longleftrightarrow> present pg \<and> rw pg \<and> \<not> user pg \<and> frame pg = of_nat j"

definition mapped_upto :: "vm \<Rightarrow> nat \<Rightarrow> nat \<Rightarrow> bool" where
  "mapped_upto s k n \<longleftrightarrow> (\<forall>j < k. identity_page (page_at s (slot s j)) j) \<and>
     (\<forall>f. frame_used (frames s) f \<longleftrightarrow> f < k) \<and> (\<forall>j. k \<le> j \<and> j \<le> n \<longrightarrow> frame (page_at s (slot s j)) = 0)"

lemma slot_inj: "tables_made s n \<Longrightarrow> i \<le> n \<Longrightarrow> j \<le> n \<Longrightarrow> slot s i = slot s j \<longleftrightarrow> i = j"
proof -
  assume t: "tables_made s n" and ij: "i \<le> n" "j \<le> n"
  have "i div 1024 = j div 1024 \<and> i mod 1024 = j mod 1024" if "slot s i = slot s j"
    using that t ij by (auto simp: slot_def tables_made_def inj_on_def div_le_mono)
  then show ?thesis by (metis div_mult_mod_eq)
qed

lemma page_lookup_slot:
  assumes "tables_made s n" and "j \<le> n" and "j < 2 ^ 20"
  shows "get_page s (of_nat (4096 * j)) True (kernel_directory s) = Some (Done (Some (slot s j), s))"
proof -
  have "unat (of_nat (4096 * j) :: u32) = 4096 * j" using assms(3) by (intro unat_of_nat32) simp
  then have "unat ((of_nat (4096 * j) :: u32) div 0x1000 div 1024) = j div 1024"
    "unat ((of_nat (4096 * j) :: u32) div 0x1000 mod 1024) = j mod 1024"
    by (simp_all add: unat_div_distrib unat_mod_distrib del: of_nat_mult)
  then show ?thesis using assms
    by (simp add: get_page_def Let_def slot_def tables_made_def div_le_mono del: of_nat_mult)
qed

lemma mapped_upto_step:
  assumes "mapped_upto s k n" and "tables_made s n" and "k \<le> n" and "k < 2 ^ 20" and "identity_page pg k"
  shows "mapped_upto (set_page (s\<lparr>frames := set_frame (frames s) (of_nat k * 0x1000)\<rparr>) (slot s k) pg) (Suc k) n"
    (is "mapped_upto ?s' _ _")
proof -
  have sl: "slot ?s' j = slot s j" for j by (simp add: slot_def set_page_def)
  have pa: "page_at ?s' (slot s j) = (if j = k then pg else page_at s (slot s j))" if "j \<le> n" for j
    using slot_inj [OF assms(2) that assms(3)]
    by (auto simp: page_at_def set_page_def prod_eq_iff)
  have "frame_used (frames ?s') f \<longleftrightarrow> f < Suc k" for f
    using assms(1) set_frame_used [OF assms(4)] by (auto simp: mapped_upto_def set_page_def)
  then show ?thesis using assms pa by (auto simp: mapped_upto_def sl)
qed

lemma heap_end_page:
  assumes "unat (heap_end h) = 4096 * n" and "Suc n < 2 ^ 20" and "k \<le> Suc n"
  shows "(of_nat (4096 * k) :: u32) < heap_end h + 0x1000 \<longleftrightarrow> k \<le> n"
proof -
  have "heap_end h = of_nat (unat (heap_end h))" by simp
  then have e: "heap_end h + 0x1000 = of_nat (4096 * Suc n)" unfolding assms(1) by simp
  have "unat (of_nat (4096 * j) :: u32) = 4096 * j" if "j \<le> Suc n" for j
    using that assms(2) by (intro unat_of_nat32) simp
  from this [OF assms(3)] this [of "Suc n"] show ?thesis
    unfolding e word_less_nat_alt by (simp only: mult_less_cancel1) (simp add: less_Suc_eq_le)
qed

lemma identity_map_loop:
  assumes "mapped_upto s k n" and "tables_made s n" and "k \<le> Suc n" and "n < frame_limit s" and "frame_limit s \<le> 2 ^ 20"
    and "unat (heap_end (kh s)) = 4096 * n" and "Suc n < 2 ^ 20"
  shows "\<exists>s'. identity_map s (of_nat (4096 * k)) = Some (Done s') \<and> mapped_upto s' (Suc n) n \<and>
    dirs s' = dirs s \<and> kernel_directory s' = kernel_directory s"
  using assms
proof (induction "Suc n - k" arbitrary: k s)
  case 0
  then have k: "k = Suc n" by simp
  have "\<not> (of_nat (4096 * k) :: u32) < heap_end (kh s) + 0x1000"
    using heap_end_page [OF 0(7,8,4)] k by simp
  then have "identity_map s (of_nat (4096 * k)) = Some (Done s)"
    unfolding identity_map.simps [of s "of_nat (4096 * k)"] by (rule if_not_P)
  then show ?case using 0(2) unfolding k by blast
next
  case (Suc d)
  then have k: "k \<le> n" "k < 2 ^ 20" "d = Suc n - Suc k" by auto
  let ?pg = "(page_at s (slot s k))\<lparr>present := True, rw := True, user := False, frame := of_nat k\<rparr>"
  have lt: "(of_nat (4096 * k) :: u32) < heap_end (kh s) + 0x1000"
    using heap_end_page [OF Suc.prems(6,7,3)] k(1) by simp
  have "find (\<lambda>f. \<not> frame_used (frames s) f) [0..<frame_limit s] = Some k"
    using Suc.prems(1,4) k(1) by (auto simp: find_Some_iff mapped_upto_def intro!: exI [of _ k])
  moreover have z: "frame (page_at s (slot s k)) = 0" using Suc.prems(1) k(1) by (simp add: mapped_upto_def)
  ultimately have al: "alloc_frame s (page_at s (slot s k)) True True =
      Done (?pg, s\<lparr>frames := set_frame (frames s) (of_nat k * 0x1000)\<rparr>)"
    using alloc_frame_first [OF z _ k(2), of s True True] by simp
  have pg: "identity_page ?pg k" by (simp add: identity_page_def)
  let ?s' = "set_page (s\<lparr>frames := set_frame (frames s) (of_nat k * 0x1000)\<rparr>) (slot s k) ?pg"
  have nx: "of_nat (4096 * k) + 0x1000 = (of_nat (4096 * Suc k) :: u32)" by simp
  have step: "identity_map s (of_nat (4096 * k)) = identity_map ?s' (of_nat (4096 * Suc k))"
    unfolding identity_map.simps [of s "of_nat (4096 * k)"] if_P [OF lt] nx
    using page_lookup_slot [OF Suc.prems(2) k(1,2)] al by (simp del: of_nat_mult)
  have keep: "dirs ?s' = dirs s" "kernel_directory ?s' = kernel_directory s" "frame_limit ?s' = frame_limit s"
    "kh ?s' = kh s" by (simp_all add: set_page_def frame_limit_def)
  have "tables_made ?s' n" using Suc.prems(2) by (simp add: tables_made_def keep)
  from Suc.hyps(1) [OF k(3) mapped_upto_step [OF Suc.prems(1,2) k(1,2) pg] this] Suc.prems k(1)
  show ?case unfolding step keep by simp
qed

section \<open>Properties of address spaces\<close>

text \<open>
  C16: \<^verbatim>\<open>clone_table\<close> gives the child its own copy of every mapped page: each copy sits in a frame that
  was free, no two copies share a frame, the copy holds the source page's contents and has its write
  permission, and neither the source table, nor any other table, nor any other frame changes.
  Freeing the copies returns the frame bitmap to its value before the clone.
\<close>

theorem clone_table_isolated:
  assumes "frames_inv s" and "heap_inv (kh s) bs" and "request_a_ok (kh s) bs 0x1000"
    and "(unat src, n) \<in> set (live (unat (heap (kh s))) bs)"
    and "\<forall>i < 1024. frame (ptabs s src i) \<noteq> 0 \<longrightarrow> mapped_ok s (ptabs s src i)"
  shows "\<exists>r. clone_table s src = Some r \<and>
    (\<forall>t phys s'. r = Done ((t, phys), s') \<longrightarrow>
       private_copy s src t s' \<and> frames (free_pages s' t entries) = frames s)"
proof -
  have "clone_table s src \<noteq> None"
    using kma.returns [OF assms(2,3)]
    by (auto simp: clone_table_def obind_def kmalloc_ap_def with_phys_def split: option.splits outcome.splits)
  then show ?thesis using clone_table_Done [OF assms] by auto
qed

lemma clone_pages_unmapped:
  "\<forall>i \<in> set is. frame (ptabs s src i) = 0 \<and> ptabs s t i = page_zero \<Longrightarrow> clone_pages s src t is = Done s"
  by (induction "is") (auto simp: page_at_def clone_page_def set_page_def fun_upd_idem)

text \<open>A small state: one page table at \<^verbatim>\<open>0x101000\<close> with one mapped page, 64 frames of memory.\<close>

definition demo_heap2 :: kheap where
  "demo_heap2 = \<lparr>kmem = (\<lambda>_. 0)(0x100000 := 0xFF0, 0x100FF8 := 0x1000, 0x100FFC := 1),
     heap = 0x100000, heap_end = 0x358000\<rparr>"

definition demo_vm2 :: vm where
  "demo_vm2 = demo_vm\<lparr>frames := (\<lambda>i. if i = 0 then 0xFF else 0), nframes := 64, paging_enabled := False,
     kh := demo_heap2\<rparr>"

lemma demo_heap2_inv:
  "heap_inv demo_heap2 [(0xFF0, False), (0x1000, True)]"
  "request_a_ok demo_heap2 [(0xFF0, False), (0x1000, True)] 0x1000"
  "(unat (0x101000 :: u32), 0x1000) \<in> set (live (unat (heap demo_heap2)) [(0xFF0, False), (0x1000, True)])"
  by (auto simp: heap_inv_def demo_heap2_def request_a_ok_def request_ok_def dvd_eq_mod_eq_0)

lemma demo_vm2_inv: "frames_inv demo_vm2" "frame_limit demo_vm2 = 64"
  "frame (ptabs demo_vm2 t i) \<noteq> 0 \<Longrightarrow> mapped_ok demo_vm2 (ptabs demo_vm2 t i)" "kh demo_vm2 = demo_heap2"
  "frame_used (frames demo_vm2) 8 = False"
  by (auto simp: frames_inv_def frame_used_def demo_vm2_def demo_vm_def frame_limit_def mapped_ok_def page_zero_def
      split: if_splits)

lemma demo_clone_Done: "\<exists>t phys s'. clone_table demo_vm2 0x101000 = Some (Done ((t, phys), s'))"
proof -
  note hi = demo_heap2_inv
  have "alloc_blocks_a (unat (heap_end demo_heap2)) (unat (round_size 0x1000)) (unat (heap demo_heap2))
      [(0xFF0, False), (0x1000, True)] \<noteq> None"
    by (simp add: demo_heap2_def Let_def)
  then obtain t h where k: "kmalloc_a demo_heap2 0x1000 = Some (Done (t, h))"
    using kma.refines [OF hi(1,2)]
    by (auto simp: alloc_ok_def simp del: alloc_blocks_a.simps split: option.splits)
  have ap: "kmalloc_ap demo_vm2 0x1000 = Some (Done ((t, t), demo_vm2\<lparr>kh := h\<rparr>))"
    by (simp add: kmalloc_ap_def with_phys_def phys_of_def demo_vm2_inv k) (simp add: demo_vm2_def)
  have ne: "t \<noteq> 0x101000"
    by (rule kmalloc_ap_Done [OF ap, unfolded demo_vm2_inv, OF hi(1,2)]) (use hi(3) in force)
  let ?s = "demo_vm2\<lparr>kh := h, ptabs := (ptabs demo_vm2)(t := (\<lambda>_. page_zero))\<rparr>"
  let ?p = "ptabs demo_vm2 0x101000 0"
  have p: "frame ?p \<noteq> 0" "\<And>i. i \<noteq> 0 \<Longrightarrow> frame (ptabs demo_vm2 0x101000 i) = 0"
    by (simp_all add: demo_vm2_def demo_vm_def page_zero_def)
  have inv: "frames_inv ?s" "mapped_ok ?s ?p" "frame_limit ?s = 64" "frames ?s = frames demo_vm2"
    using demo_vm2_inv p by (simp_all add: frames_inv_def mapped_ok_def frame_limit_def)
  have "\<exists>s'. clone_pages ?s 0x101000 t entries = Done s'"
  proof (cases rule: clone_page_cases [OF inv(1) p(1) inv(2)])
    case 1
    then show ?thesis using demo_vm2_inv(5) unfolding inv(3,4) by (auto dest!: spec [of _ 8])
  next
    case (2 f fr pm)
    obtain js where e: "entries = 0 # js" "0 \<notin> set js"
    proof
      show "entries = 0 # [Suc 0..<1024]" unfolding entries_def by (rule upt_conv_Cons) simp
    qed simp
    let ?s2 = "set_page (?s\<lparr>frames := fr, physmem := pm\<rparr>) (t, 0) (copy_of ?p f)"
    have "clone_pages ?s 0x101000 t entries = clone_pages ?s2 0x101000 t js"
      using 2(1) ne by (simp add: e page_at_def)
    moreover have "clone_pages ?s2 0x101000 t js = Done ?s2"
      using e(2) ne p(2) by (intro clone_pages_unmapped) (auto simp: set_page_def)
    ultimately show ?thesis by simp
  qed
  then show ?thesis using ap by (auto simp: clone_table_def obind_def split: outcome.splits)
qed

theorem clone_table_isolated_witness:
  "\<exists>t phys s'. clone_table demo_vm2 0x101000 = Some (Done ((t, phys), s')) \<and>
     private_copy demo_vm2 0x101000 t s' \<and> frames (free_pages s' t entries) = frames demo_vm2"
  using clone_table_isolated [of demo_vm2 "[(0xFF0, False), (0x1000, True)]" "0x101000" "0x1000"]
    demo_heap2_inv demo_vm2_inv demo_clone_Done by auto

text \<open>
  C17: \<^verbatim>\<open>free_directory\<close> releases exactly the frames mapped by the tables the address space owns: a frame
  is in use afterwards iff it was in use before and no private table mapped it; tables shared with the
  kernel, all other tables and all directories are untouched.
\<close>

theorem free_directory_exact:
  assumes "dir \<noteq> 0" and "inj_on (tables (dirs s dir)) (private_entries s dir {..<1024})"
    and "\<forall>t i. unat (frame (ptabs s t i)) < 2 ^ 20"
  shows "dir_freed s dir {..<1024} (free_directory s dir)"
  using free_tables_spec [OF entries_set(2), of s dir] assms
  by (simp add: free_directory_def Let_def dir_freed_def)

theorem free_directory_exact_witness:
  "\<not> frame_used (frames (free_directory demo_vm2 0x101000)) 7 \<and> frame_used (frames (free_directory demo_vm2 0x101000)) 6"
proof -
  have pe: "private_entries demo_vm2 0x101000 {..<1024} = {256}"
    by (auto simp: private_entries_def demo_vm2_def demo_vm_def)
  have "owned_frames demo_vm2 (ptabs demo_vm2 0x200000) {..<1024} = {7}"
    by (force simp: owned_frames_def demo_vm2_def demo_vm_def page_zero_def)
  then have "private_frames demo_vm2 0x101000 {..<1024} = {7}"
    unfolding private_frames_def pe by (simp add: demo_vm2_def demo_vm_def)
  moreover have "dir_freed demo_vm2 0x101000 {..<1024} (free_directory demo_vm2 0x101000)"
    using pe by (intro free_directory_exact) (auto simp: demo_vm2_def demo_vm_def page_zero_def)
  moreover have "frame_used (frames demo_vm2) 6" by (simp add: frame_used_def demo_vm2_def)
  ultimately show ?thesis by (simp add: dir_freed_def)
qed

text \<open>
  C29: When the kernel directory's tables exist and memory has a frame for every page, the mapping loop
  of \<^verbatim>\<open>mm_paging_init\<close> ends without a panic and leaves every page up to and including the page at the
  heap end mapped to the frame of the same number, present, writable and supervisor-only; exactly
  those frames are marked in the bitmap.
\<close>

theorem identity_map_correct:
  assumes "tables_made s n" and "\<forall>f. \<not> frame_used (frames s) f" and "\<forall>j \<le> n. frame (page_at s (slot s j)) = 0"
    and "unat (heap_end (kh s)) = 4096 * n" and "n < frame_limit s" and "frame_limit s \<le> 2 ^ 20" and "Suc n < 2 ^ 20"
  shows "\<exists>s'. identity_map s 0 = Some (Done s') \<and> dirs s' = dirs s \<and>
    (\<forall>j \<le> n. identity_page (page_at s' (slot s j)) j) \<and> (\<forall>f. frame_used (frames s') f \<longleftrightarrow> f \<le> n)"
proof -
  have "mapped_upto s 0 n" using assms(2,3) by (simp add: mapped_upto_def)
  from identity_map_loop [OF this assms(1) _ assms(5,6,4,7)] obtain s' where
    "identity_map s 0 = Some (Done s')" "mapped_upto s' (Suc n) n" "dirs s' = dirs s"
    "kernel_directory s' = kernel_directory s" by auto
  moreover from this have "slot s' j = slot s j" for j by (simp add: slot_def)
  ultimately show ?thesis by (auto simp: mapped_upto_def less_Suc_eq_le)
qed

definition demo_vm3 :: vm where
  "demo_vm3 = demo_vm2\<lparr>frames := (\<lambda>_. 0), nframes := 4096,
     dirs := (\<lambda>_. \<lparr>tables = (\<lambda>i. if i = 0 then 0x200000 else 0), tables_physical = (\<lambda>_. 0), phys_addr = 0\<rparr>),
     ptabs := (\<lambda>_ _. page_zero)\<rparr>"

theorem identity_map_correct_witness:
  "\<exists>s'. identity_map demo_vm3 0 = Some (Done s') \<and> identity_page (page_at s' (slot demo_vm3 0x300)) 0x300"
proof -
  have "\<exists>s'. identity_map demo_vm3 0 = Some (Done s') \<and> dirs s' = dirs demo_vm3 \<and>
    (\<forall>j \<le> 0x358. identity_page (page_at s' (slot demo_vm3 j)) j) \<and> (\<forall>f. frame_used (frames s') f \<longleftrightarrow> f \<le> 0x358)"
    by (rule identity_map_correct)
      (auto simp: tables_made_def frame_used_def page_at_def slot_def frame_limit_def demo_vm3_def demo_vm2_def
        demo_vm_def demo_heap2_def page_zero_def inj_on_def)
  then show ?thesis by auto
qed

end
