(* ===== verification/Wsurf.thy ===== *)
theory Wsurf
  imports Process Paging
begin

text \<open>
  \<^verbatim>\<open>kernel/wsurf.c\<close>: window surfaces, pixel buffers of a static pool that are mapped into a client and into the
  display server, and the event queue from server to client. \<open>pool\<close> is the address the linker gives the
  pool; its bytes are \<open>pool_mem\<close> by offset. The argument \<open>t\<close> of a system call back end is the calling task.
\<close>

definition WSURF_SLOTS :: nat where "WSURF_SLOTS = 3"
definition WSURF_MAX_W :: int where "WSURF_MAX_W = 800"
definition WSURF_MAX_H :: int where "WSURF_MAX_H = 600"
definition WSURF_BYTES :: u32 where "WSURF_BYTES = 800 * 600 * 4"
definition WEVQ :: nat where "WEVQ = 32"
definition WEV_MOUSE :: int where "WEV_MOUSE = 2"
definition USER_WSURF_BASE :: u32 where "USER_WSURF_BASE = 0x74000000"
definition USER_WSRV_BASE :: u32 where "USER_WSRV_BASE = 0x74400000"
definition WSURF_SLOT_SPAN :: u32 where "WSURF_SLOT_SPAN = 0x00200000"

record wev =
  wtype :: int
  wa :: int
  wb :: int
  wc :: int

record wsurf =
  ws_used :: bool
  ws_alive :: bool
  ws_owner :: int
  ws_server :: int
  ws_w :: int
  ws_h :: int
  ws_name :: "u8 list"
  evq :: "nat \<Rightarrow> wev"
  evh :: nat
  evt :: nat

record wsys =
  surfs :: "nat \<Rightarrow> wsurf"
  pool_mem :: buf

record wsurf_info =
  wi_alive :: bool
  wi_w :: int
  wi_h :: int
  wi_owner :: int
  wi_name :: "u8 list"

definition surf_map_bytes :: "wsurf \<Rightarrow> u32" where
  "surf_map_bytes s = (of_int (ws_w s) * of_int (ws_h s) * 4 + 0xFFF) AND 0xFFFFF000"

section \<open>Mapping\<close>

text \<open>The values of \<^verbatim>\<open>off\<close> in the two loops.\<close>

definition page_offs :: "u32 \<Rightarrow> u32 list" where
  "page_offs bytes = map (\<lambda>k. of_nat k * 0x1000) [0..<(unat bytes + 0xFFF) div 0x1000]"

primrec map_pages :: "vm \<Rightarrow> u32 \<Rightarrow> u32 \<Rightarrow> u32 \<Rightarrow> u32 list \<Rightarrow> vm outcome option" where
  "map_pages s dir va phys [] = Some (Done s)"
| "map_pages s dir va phys (off # offs) =
     obind (get_page s (va + off) True dir) (\<lambda>(pg, s).
       case pg of
         None \<Rightarrow> Some NullDeref
       | Some r \<Rightarrow> map_pages (set_page s r ((page_at s r)\<lparr>present := True, rw := True, user := True,
           frame := take_bit 20 ((phys + off) div 0x1000)\<rparr>)) dir va phys offs)"

definition map_range :: "vm \<Rightarrow> u32 \<Rightarrow> u32 \<Rightarrow> u32 \<Rightarrow> u32 \<Rightarrow> vm outcome option" where
  "map_range s dir va phys bytes = map_pages s dir va phys (page_offs bytes)"

primrec unmap_pages :: "vm \<Rightarrow> u32 \<Rightarrow> u32 \<Rightarrow> u32 list \<Rightarrow> vm" where
  "unmap_pages s dir va [] = s"
| "unmap_pages s dir va (off # offs) =
     (case page_lookup s (va + off) dir of
        None \<Rightarrow> unmap_pages s dir va offs
      | Some r \<Rightarrow> unmap_pages (set_page s r ((page_at s r)\<lparr>present := False, frame := 0\<rparr>)) dir va offs)"

definition unmap_range :: "vm \<Rightarrow> u32 \<Rightarrow> u32 \<Rightarrow> u32 \<Rightarrow> vm" where
  "unmap_range s dir va bytes = unmap_pages s dir va (page_offs bytes)"

definition set_surf :: "nat \<Rightarrow> wsurf \<Rightarrow> wsys \<Rightarrow> wsys" where
  "set_surf i x ws = ws\<lparr>surfs := (surfs ws)(i := x)\<rparr>"

definition slot_va :: "nat \<Rightarrow> u32" where
  "slot_va i = USER_WSRV_BASE + of_nat i * WSURF_SLOT_SPAN"

definition pool_slot :: "u32 \<Rightarrow> nat \<Rightarrow> u32" where
  "pool_slot pool i = pool + of_nat i * WSURF_BYTES"

section \<open>System call back ends\<close>

definition mine :: "task \<Rightarrow> wsurf \<Rightarrow> bool" where
  "mine t s \<longleftrightarrow> ws_used s \<and> ws_owner s = task_id t \<and> ws_alive s"

definition wsurf_create :: "u32 \<Rightarrow> task \<Rightarrow> int \<Rightarrow> int \<Rightarrow> wsys \<Rightarrow> vm \<Rightarrow> (u32 \<times> wsys \<times> vm) outcome option" where
  "wsurf_create pool t w h ws s =
     (if brk t = 0 \<or> w < 1 \<or> h < 1 \<or> WSURF_MAX_W < w \<or> WSURF_MAX_H < h then Some (Done (- 1, ws, s))
      else if list_ex (\<lambda>i. mine t (surfs ws i)) [0..<WSURF_SLOTS] then Some (Done (- 1, ws, s))
      else case find (\<lambda>i. \<not> ws_used (surfs ws i)) [0..<WSURF_SLOTS] of
        None \<Rightarrow> Some (Done (- 1, ws, s))
      | Some sl \<Rightarrow>
          let sf = (surfs ws sl)\<lparr>ws_used := True, ws_alive := True, ws_owner := task_id t, ws_server := - 1,
                     ws_w := w, ws_h := h, evh := 0, evt := 0, ws_name := take 15 (task_name t)\<rparr>;
              ws = set_surf sl sf ws;
              ws = ws\<lparr>pool_mem := memset_at (pool_mem ws) (sl * unat WSURF_BYTES) 0 (nat (w * h * 4))\<rparr>
          in obind (map_range s (task_dir t) USER_WSURF_BASE (pool_slot pool sl) (surf_map_bytes sf)) (\<lambda>s.
               Some (Done (USER_WSURF_BASE, ws, s))))"

definition wsurf_event :: "task \<Rightarrow> wsys \<Rightarrow> wev option \<times> wsys" where
  "wsurf_event t ws =
     (case find (\<lambda>i. mine t (surfs ws i)) [0..<WSURF_SLOTS] of
        None \<Rightarrow> (None, ws)
      | Some i \<Rightarrow>
          let s = surfs ws i
          in if evt s = evh s then (None, ws)
             else (Some (evq s (evt s)), set_surf i (s\<lparr>evt := (evt s + 1) mod WEVQ\<rparr>) ws))"

definition valid_slot :: "wsys \<Rightarrow> int \<Rightarrow> bool" where
  "valid_slot ws sl \<longleftrightarrow> \<not> (sl < 0 \<or> int WSURF_SLOTS \<le> sl \<or> \<not> ws_used (surfs ws (nat sl)))"

definition wsurf_stat :: "int \<Rightarrow> wsys \<Rightarrow> wsurf_info option" where
  "wsurf_stat sl ws =
     (if \<not> valid_slot ws sl then None
      else let s = surfs ws (nat sl)
        in Some \<lparr>wi_alive = ws_alive s, wi_w = ws_w s, wi_h = ws_h s, wi_owner = ws_owner s, wi_name = ws_name s\<rparr>)"

definition wsurf_map :: "u32 \<Rightarrow> task \<Rightarrow> int \<Rightarrow> wsys \<Rightarrow> vm \<Rightarrow> (u32 \<times> wsys \<times> vm) outcome option" where
  "wsurf_map pool t sl ws s =
     (if \<not> valid_slot ws sl \<or> brk t = 0 then Some (Done (- 1, ws, s))
      else let sf = surfs ws (nat sl)
        in if ws_server sf \<noteq> - 1 \<and> ws_server sf \<noteq> task_id t then Some (Done (- 1, ws, s))
           else let va = slot_va (nat sl)
             in obind (map_range s (task_dir t) va (pool_slot pool (nat sl)) (surf_map_bytes sf)) (\<lambda>s.
                  Some (Done (va, set_surf (nat sl) (sf\<lparr>ws_server := task_id t\<rparr>) ws, s))))"

definition wsurf_put :: "wev \<Rightarrow> wsurf \<Rightarrow> wsurf" where
  "wsurf_put ev s =
     (let pending = (evh s + WEVQ - evt s) mod WEVQ; lst = (evh s + WEVQ - 1) mod WEVQ
      in if wtype ev = WEV_MOUSE \<and> 0 < pending \<and> wtype (evq s lst) = WEV_MOUSE
         then s\<lparr>evq := (evq s)(lst := ev)\<rparr>
         else if pending < WEVQ - 1 then s\<lparr>evq := (evq s)(evh s := ev), evh := (evh s + 1) mod WEVQ\<rparr>
         else s)"

definition wsurf_send :: "task \<Rightarrow> int \<Rightarrow> wev \<Rightarrow> wsys \<Rightarrow> int \<times> wsys" where
  "wsurf_send t sl ev ws =
     (if \<not> valid_slot ws sl \<or> ws_server (surfs ws (nat sl)) \<noteq> task_id t \<or> \<not> ws_alive (surfs ws (nat sl)) then (- 1, ws)
      else (0, set_surf (nat sl) (wsurf_put ev (surfs ws (nat sl))) ws))"

definition wsurf_unmap :: "task \<Rightarrow> int \<Rightarrow> wsys \<Rightarrow> vm \<Rightarrow> int \<times> wsys \<times> vm" where
  "wsurf_unmap t sl ws s =
     (if \<not> valid_slot ws sl \<or> ws_server (surfs ws (nat sl)) \<noteq> task_id t then (- 1, ws, s)
      else let sf = surfs ws (nat sl);
               s = unmap_range s (task_dir t) (slot_va (nat sl)) (surf_map_bytes sf);
               sf = sf\<lparr>ws_server := - 1\<rparr>;
               sf = (if \<not> ws_alive sf then sf\<lparr>ws_used := False\<rparr> else sf)
        in (0, set_surf (nat sl) sf ws, s))"

section \<open>The death hook\<close>

definition exit_owner :: "int \<Rightarrow> u32 \<Rightarrow> wsurf \<times> vm \<Rightarrow> wsurf \<times> vm" where
  "exit_owner tid dir = (\<lambda>(sf, s).
     if ws_owner sf = tid \<and> ws_alive sf
     then let sf = sf\<lparr>ws_alive := False\<rparr>; s = unmap_range s dir USER_WSURF_BASE (surf_map_bytes sf)
       in (if ws_server sf = - 1 then sf\<lparr>ws_used := False\<rparr> else sf, s)
     else (sf, s))"

definition exit_server :: "int \<Rightarrow> u32 \<Rightarrow> nat \<Rightarrow> wsurf \<times> vm \<Rightarrow> wsurf \<times> vm" where
  "exit_server tid dir i = (\<lambda>(sf, s).
     if ws_server sf = tid
     then let s = unmap_range s dir (slot_va i) (surf_map_bytes sf); sf = sf\<lparr>ws_server := - 1\<rparr>
       in (if \<not> ws_alive sf then sf\<lparr>ws_used := False\<rparr> else sf, s)
     else (sf, s))"

primrec exit_slots :: "nat list \<Rightarrow> int \<Rightarrow> u32 \<Rightarrow> wsys \<Rightarrow> vm \<Rightarrow> wsys \<times> vm" where
  "exit_slots [] tid dir ws s = (ws, s)"
| "exit_slots (i # is) tid dir ws s =
     (if \<not> ws_used (surfs ws i) then exit_slots is tid dir ws s
      else let (sf, s) = exit_server tid dir i (exit_owner tid dir (surfs ws i, s))
        in exit_slots is tid dir (set_surf i sf ws) s)"

definition wsurf_task_exit :: "int \<Rightarrow> u32 \<Rightarrow> wsys \<Rightarrow> vm \<Rightarrow> wsys \<times> vm" where
  "wsurf_task_exit tid dir ws s = exit_slots [0..<WSURF_SLOTS] tid dir ws s"

section \<open>What unmapping does\<close>

text \<open>The frame an address of a directory is mapped to.\<close>

definition pte_frame :: "vm \<Rightarrow> u32 \<Rightarrow> u32 \<Rightarrow> u32 option" where
  "pte_frame s dir a = (case page_lookup s a dir of None \<Rightarrow> None
     | Some r \<Rightarrow> if present (page_at s r) then Some (frame (page_at s r)) else None)"

definition same_page :: "u32 \<Rightarrow> u32 \<Rightarrow> bool" where
  "same_page a b \<longleftrightarrow> a div 0x1000 = b div 0x1000"

lemma page_lookup_same: "same_page a b \<Longrightarrow> page_lookup s a dir = page_lookup s b dir"
  by (simp add: page_lookup_def same_page_def)

lemma pte_frame_set_page:
  "pte_frame (set_page s r pg) dir a =
     (case page_lookup s a dir of None \<Rightarrow> None
      | Some q \<Rightarrow> let p = (if q = r then pg else page_at s q) in if present p then Some (frame p) else None)"
  by (auto simp: pte_frame_def page_lookup_def set_page_def page_at_def Let_def prod_eq_iff split: option.splits)

text \<open>Unmapping only removes mappings, and removes those of its pages.\<close>

lemma unmap_pages_mapped:
  "pte_frame (unmap_pages s dir va offs) d a = pte_frame s d a \<or> pte_frame (unmap_pages s dir va offs) d a = None"
  "off \<in> set offs \<Longrightarrow> same_page a (va + off) \<Longrightarrow> pte_frame (unmap_pages s dir va offs) dir a = None"
proof -
  have step: "pte_frame (case page_lookup s (va + x) dir of None \<Rightarrow> s | Some r \<Rightarrow> set_page s r ((page_at s r)\<lparr>present := False, frame := 0\<rparr>)) d a
      \<in> {pte_frame s d a, None}" for s x d a
    by (auto simp: pte_frame_set_page split: option.splits) (auto simp: pte_frame_def Let_def split: option.splits)
  have un: "unmap_pages s dir va (x # xs) =
      unmap_pages (case page_lookup s (va + x) dir of None \<Rightarrow> s | Some r \<Rightarrow> set_page s r ((page_at s r)\<lparr>present := False, frame := 0\<rparr>)) dir va xs" for s x xs
    by (simp split: option.split)
  have mono: "pte_frame (unmap_pages s dir va offs) d a \<in> {pte_frame s d a, None}" for s d a offs
  proof (induction offs arbitrary: s)
    case (Cons x xs)
    then show ?case unfolding un using step [of s x d a] by (metis (no_types, lifting) insertE insertI1 insertI2 singletonD)
  qed simp
  show "pte_frame (unmap_pages s dir va offs) d a = pte_frame s d a \<or> pte_frame (unmap_pages s dir va offs) d a = None"
    using mono [of s offs d a] by auto
  show "pte_frame (unmap_pages s dir va offs) dir a = None" if "off \<in> set offs" "same_page a (va + off)"
    using that
  proof (induction offs arbitrary: s)
    case (Cons x xs)
    show ?case
    proof (cases "x = off")
      case True
      have "pte_frame (case page_lookup s (va + x) dir of None \<Rightarrow> s | Some r \<Rightarrow> set_page s r ((page_at s r)\<lparr>present := False, frame := 0\<rparr>)) dir a = None"
        using page_lookup_same [OF Cons.prems(2), of s dir] True
        by (auto simp: pte_frame_set_page Let_def split: option.splits) (simp add: pte_frame_def)
      then show ?thesis unfolding un using mono by (metis insertE singletonD)
    qed (use Cons un in auto)
  qed simp
qed

text \<open>The part of an address space in which a task's surfaces and server views are mapped.\<close>

definition in_range :: "u32 \<Rightarrow> u32 \<Rightarrow> wsurf \<Rightarrow> bool" where
  "in_range a va sf \<longleftrightarrow> (\<exists>off \<in> set (page_offs (surf_map_bytes sf)). same_page a (va + off))"

definition covers :: "int \<Rightarrow> u32 \<Rightarrow> nat \<Rightarrow> wsurf \<Rightarrow> bool" where
  "covers tid a i sf \<longleftrightarrow> ws_used sf \<and>
     (ws_owner sf = tid \<and> ws_alive sf \<and> in_range a USER_WSURF_BASE sf \<or> ws_server sf = tid \<and> in_range a (slot_va i) sf)"

lemma unmap_range_mapped:
  "pte_frame (unmap_range s dir va (surf_map_bytes sf)) d a = pte_frame s d a \<or> pte_frame (unmap_range s dir va (surf_map_bytes sf)) d a = None"
  "in_range a va sf \<Longrightarrow> pte_frame (unmap_range s dir va (surf_map_bytes sf)) dir a = None"
  unfolding unmap_range_def in_range_def by (rule unmap_pages_mapped(1)) (elim bexE, rule unmap_pages_mapped(2))

lemma exit_slot_mapped:
  assumes "exit_server tid dir i (exit_owner tid dir (sf, s)) = (sf', s')"
  shows "pte_frame s' d a = pte_frame s d a \<or> pte_frame s' d a = None"
    "covers tid a i sf \<Longrightarrow> pte_frame s' dir a = None"
    "\<not> (ws_owner sf' = tid \<and> ws_alive sf')" "tid \<noteq> - 1 \<Longrightarrow> ws_server sf' \<noteq> tid"
    "ws_owner sf' = ws_owner sf" "surf_map_bytes sf' = surf_map_bytes sf"
    "ws_used sf \<Longrightarrow> ws_alive sf \<or> ws_server sf \<noteq> - 1 \<Longrightarrow> ws_used sf' \<longleftrightarrow> ws_alive sf' \<or> ws_server sf' \<noteq> - 1"
    "ws_owner sf \<noteq> tid \<Longrightarrow> ws_server sf \<noteq> tid \<Longrightarrow> sf' = sf"
proof -
  obtain sf1 s1 where 1: "exit_owner tid dir (sf, s) = (sf1, s1)" by fastforce
  have b: "surf_map_bytes sf1 = surf_map_bytes sf" using 1 by (auto simp: exit_owner_def surf_map_bytes_def Let_def split: if_splits)
  have r: "in_range a va sf1 = in_range a va sf" for va by (simp add: in_range_def b)
  have m1: "pte_frame s1 d a = pte_frame s d a \<or> pte_frame s1 d a = None" for d
    using 1 unmap_range_mapped(1) [of s dir USER_WSURF_BASE "sf\<lparr>ws_alive := False\<rparr>" d a] by (auto simp: exit_owner_def Let_def split: if_splits)
  have m2: "pte_frame s' d a = pte_frame s1 d a \<or> pte_frame s' d a = None" for d
    using assms unfolding 1 using unmap_range_mapped(1) [of s1 dir "slot_va i" sf1 d a] by (auto simp: exit_server_def Let_def split: if_splits)
  show "pte_frame s' d a = pte_frame s d a \<or> pte_frame s' d a = None" using m1 [of d] m2 [of d] by auto
  show "pte_frame s' dir a = None" if "covers tid a i sf"
  proof (cases "ws_owner sf = tid \<and> ws_alive sf \<and> in_range a USER_WSURF_BASE sf")
    case True
    then have "in_range a USER_WSURF_BASE (sf\<lparr>ws_alive := False\<rparr>)" by (simp add: in_range_def surf_map_bytes_def)
    then have "pte_frame s1 dir a = None"
      using 1 True unmap_range_mapped(2) [of a USER_WSURF_BASE "sf\<lparr>ws_alive := False\<rparr>"] by (auto simp: exit_owner_def Let_def)
    then show ?thesis using m2 [of dir] by auto
  next
    case False
    then have v: "ws_server sf = tid" "in_range a (slot_va i) sf1" using that by (auto simp: covers_def r)
    moreover have "ws_server sf1 = ws_server sf" using 1 by (auto simp: exit_owner_def Let_def split: if_splits)
    ultimately show ?thesis
      using assms unfolding 1 using unmap_range_mapped(2) [OF v(2)] by (auto simp: exit_server_def Let_def split: if_splits)
  qed
  show "\<not> (ws_owner sf' = tid \<and> ws_alive sf')" "tid \<noteq> - 1 \<Longrightarrow> ws_server sf' \<noteq> tid" "ws_owner sf' = ws_owner sf"
    "surf_map_bytes sf' = surf_map_bytes sf"
    "ws_used sf \<Longrightarrow> ws_alive sf \<or> ws_server sf \<noteq> - 1 \<Longrightarrow> ws_used sf' \<longleftrightarrow> ws_alive sf' \<or> ws_server sf' \<noteq> - 1"
    "ws_owner sf \<noteq> tid \<Longrightarrow> ws_server sf \<noteq> tid \<Longrightarrow> sf' = sf"
    using assms by (auto simp: exit_owner_def exit_server_def Let_def surf_map_bytes_def split: if_splits)
qed

lemma exit_slot_sides:
  assumes "exit_server tid dir i (exit_owner tid dir (sf, s)) = (sf', s')"
  shows "ws_alive sf' \<longleftrightarrow> ws_alive sf \<and> ws_owner sf \<noteq> tid" "ws_server sf' = (if ws_server sf = tid then - 1 else ws_server sf)"
  using assms by (auto simp: exit_owner_def exit_server_def Let_def split: if_splits)

lemma exit_slots_surf:
  "distinct is \<Longrightarrow> exit_slots is tid dir ws s = (ws', s') \<Longrightarrow>
   (if i \<in> set is \<and> ws_used (surfs ws i)
    then \<exists>s0 s1. exit_server tid dir i (exit_owner tid dir (surfs ws i, s0)) = (surfs ws' i, s1) else surfs ws' i = surfs ws i)"
proof (induction "is" arbitrary: ws s)
  case (Cons j js)
  then show ?case
  proof (cases "ws_used (surfs ws j)")
    case True
    obtain sf s1 where 1: "exit_server tid dir j (exit_owner tid dir (surfs ws j, s)) = (sf, s1)" by fastforce
    have r: "exit_slots js tid dir (set_surf j sf ws) s1 = (ws', s')" using Cons.prems(2) True 1 by simp
    have o: "surfs (set_surf j sf ws) k = (if k = j then sf else surfs ws k)" for k by (simp add: set_surf_def)
    show ?thesis
    proof (cases "i = j")
      case eq: True
      then have "surfs ws' i = sf" using Cons.IH [OF _ r] Cons.prems(1) o by simp
      then show ?thesis using 1 eq True by auto
    next
      case False
      then show ?thesis using Cons.IH [OF _ r] Cons.prems(1) by (auto simp: o split: if_splits)
    qed
  qed (cases "i = j"; simp)
qed simp

lemma exit_slots_pages:
  "distinct is \<Longrightarrow> exit_slots is tid dir ws s = (ws', s') \<Longrightarrow>
   (pte_frame s' d a = pte_frame s d a \<or> pte_frame s' d a = None) \<and>
   (\<forall>i \<in> set is. covers tid a i (surfs ws i) \<longrightarrow> pte_frame s' dir a = None)"
proof (induction "is" arbitrary: ws s d)
  case (Cons j js)
  show ?case
  proof (cases "ws_used (surfs ws j)")
    case False
    then have "\<not> covers tid a j (surfs ws j)" by (simp add: covers_def)
    then show ?thesis using Cons.IH [of ws s d] Cons.prems False by simp
  next
    case True
    obtain sf s1 where 1: "exit_server tid dir j (exit_owner tid dir (surfs ws j, s)) = (sf, s1)" by fastforce
    have r: "exit_slots js tid dir (set_surf j sf ws) s1 = (ws', s')" using Cons.prems(2) True 1 by simp
    have d: "distinct js" "j \<notin> set js" using Cons.prems(1) by simp_all
    have o: "surfs (set_surf j sf ws) k = surfs ws k" if "k \<in> set js" for k using that d(2) by (auto simp: set_surf_def)
    note e = exit_slot_mapped(1,2) [OF 1]
    have "pte_frame s' d a = pte_frame s d a \<or> pte_frame s' d a = None" using Cons.IH [OF d(1) r, of d] e(1) [of d a] by auto
    moreover have "covers tid a j (surfs ws j) \<Longrightarrow> pte_frame s' dir a = None" using Cons.IH [OF d(1) r, of dir] e(2) by auto
    moreover have "\<forall>i \<in> set js. covers tid a i (surfs ws i) \<longrightarrow> pte_frame s' dir a = None" using Cons.IH [OF d(1) r, of dir] o by simp
    ultimately show ?thesis by auto
  qed
qed simp

section \<open>Mapping where the page table exists\<close>

definition in_table :: "vm \<Rightarrow> u32 \<Rightarrow> u32 \<Rightarrow> u32 \<Rightarrow> bool" where
  "in_table s dir t a \<longleftrightarrow> t \<noteq> 0 \<and> tables (dirs s dir) (unat (a div 0x1000 div 1024)) = t"

definition pte_index :: "u32 \<Rightarrow> nat" where
  "pte_index a = unat (a div 0x1000 mod 1024)"

definition map_pte :: "page \<Rightarrow> u32 \<Rightarrow> page" where
  "map_pte pg a = pg\<lparr>present := True, rw := True, user := True, frame := take_bit 20 (a div 0x1000)\<rparr>"

lemma get_page_present: "in_table s dir t a \<Longrightarrow> get_page s a mk dir = Some (Done (Some (t, pte_index a), s))"
  by (simp add: get_page_def in_table_def pte_index_def Let_def)

lemma pte_frame_table: "in_table s dir t a \<Longrightarrow> pte_frame s dir a =
    (if present (ptabs s t (pte_index a)) then Some (frame (ptabs s t (pte_index a))) else None)"
  by (simp add: pte_frame_def page_lookup_def in_table_def pte_index_def page_at_def Let_def)

lemma map_pages_present:
  "\<forall>off \<in> set offs. in_table s dir t (va + off) \<Longrightarrow> distinct (map (\<lambda>off. pte_index (va + off)) offs) \<Longrightarrow>
   \<exists>s'. map_pages s dir va phys offs = Some (Done s') \<and> dirs s' = dirs s \<and> (\<forall>t'. t' \<noteq> t \<longrightarrow> ptabs s' t' = ptabs s t') \<and>
     (\<forall>off \<in> set offs. \<exists>pg. ptabs s' t (pte_index (va + off)) = map_pte pg (phys + off)) \<and>
     (\<forall>j. j \<notin> (\<lambda>off. pte_index (va + off)) ` set offs \<longrightarrow> ptabs s' t j = ptabs s t j)"
proof (induction offs arbitrary: s)
  case (Cons off offs)
  let ?r = "(t, pte_index (va + off))"
  define s1 where "s1 = set_page s ?r (map_pte (page_at s ?r) (phys + off))"
  have tb: "in_table s dir t (va + off)" using Cons.prems(1) by simp
  have d: "dirs s1 = dirs s" "\<And>t'. t' \<noteq> t \<Longrightarrow> ptabs s1 t' = ptabs s t'"
      "ptabs s1 t j = (if j = pte_index (va + off) then map_pte (page_at s ?r) (phys + off) else ptabs s t j)" for j
    by (auto simp: s1_def set_page_def)
  have m: "map_pages s dir va phys (off # offs) = map_pages s1 dir va phys offs"
    using get_page_present [OF tb] by (simp add: obind_def s1_def map_pte_def)
  have "\<forall>off \<in> set offs. in_table s1 dir t (va + off)" using Cons.prems(1) by (simp add: in_table_def d(1))
  from Cons.IH [OF this] Cons.prems(2) obtain s' where
    r: "map_pages s1 dir va phys offs = Some (Done s')" "dirs s' = dirs s1" "\<forall>t'. t' \<noteq> t \<longrightarrow> ptabs s' t' = ptabs s1 t'"
      "\<forall>off \<in> set offs. \<exists>pg. ptabs s' t (pte_index (va + off)) = map_pte pg (phys + off)"
      "\<forall>j. j \<notin> (\<lambda>off. pte_index (va + off)) ` set offs \<longrightarrow> ptabs s' t j = ptabs s1 t j" by auto
  have "ptabs s' t (pte_index (va + off)) = map_pte (page_at s ?r) (phys + off)" using r(5) Cons.prems(2) d(3) by simp
  moreover have "\<forall>j. j \<notin> (\<lambda>off. pte_index (va + off)) ` set (off # offs) \<longrightarrow> ptabs s' t j = ptabs s t j" using r(5) d(3) by auto
  ultimately show ?case using r(1-4) d(1,2) m by auto
qed simp

text \<open>The window of a surface lies in one page table, each page at its own entry.\<close>

lemma offs_index:
  assumes "unat va mod 0x400000 + n * 0x1000 \<le> 0x400000" and "unat va mod 0x1000 = 0" and "k < n"
  shows "unat ((va + of_nat k * 0x1000) div 0x1000 div 1024) = unat va div 0x400000"
    "pte_index (va + of_nat k * 0x1000) = unat va mod 0x400000 div 0x1000 + k"
proof -
  define q r where "q = unat va div 0x400000" and "r = unat va mod 0x400000"
  have v: "unat va = q * 0x400000 + r" unfolding q_def r_def by simp
  have rk: "r + k * 0x1000 < 0x400000" using assms(1,3) unfolding r_def by simp
  have "q < 1024" using unat_lt_2p32 [of va] unfolding q_def by (simp add: less_mult_imp_div_less)
  then have lt: "unat va + k * 0x1000 < 4294967296" using v rk by simp
  have "unat (of_nat k * 0x1000 :: u32) = k * 0x1000" using unat_of_nat32 [of "k * 0x1000"] lt by simp
  then have a: "unat (va + of_nat k * 0x1000) = unat va + k * 0x1000" using lt by (subst unat_add32) simp_all
  have r0: "r mod 0x1000 = 0" using assms(2) unfolding r_def by (simp add: mod_mod_cancel)
  then obtain p where p: "r = p * 0x1000" by (metis mod_0_imp_dvd dvdE mult.commute)
  have pk: "p + k < 1024" using rk p by simp
  have e: "unat va + k * 0x1000 = (q * 1024 + (p + k)) * 0x1000" using v p by simp
  have d1: "(unat va + k * 0x1000) div 0x1000 = q * 1024 + (p + k)" unfolding e by simp
  have "unat ((va + of_nat k * 0x1000) div 0x1000) = q * 1024 + (p + k)" by (simp add: unat_div_distrib a d1 del: add_mult_distrib)
  then show "unat ((va + of_nat k * 0x1000) div 0x1000 div 1024) = unat va div 0x400000"
    "pte_index (va + of_nat k * 0x1000) = unat va mod 0x400000 div 0x1000 + k"
    using pk p unfolding q_def [symmetric] r_def [symmetric] pte_index_def by (simp_all add: unat_div_distrib unat_mod_distrib)
qed

text \<open>A create that succeeds, in a task whose page table for the window exists.\<close>

lemma create_maps:
  assumes "find (\<lambda>i. \<not> ws_used (surfs ws i)) [0..<WSURF_SLOTS] = Some i" and "\<not> list_ex (\<lambda>i. mine t (surfs ws i)) [0..<WSURF_SLOTS]"
    and "brk t \<noteq> 0" and "1 \<le> w" "w \<le> 800" "1 \<le> h" "h \<le> 600"
    and "in_table s (task_dir t) pt USER_WSURF_BASE"
  shows "\<exists>ws' s'. wsurf_create pool t w h ws s = Some (Done (USER_WSURF_BASE, ws', s')) \<and> dirs s' = dirs s \<and>
    (\<forall>t'. t' \<noteq> pt \<longrightarrow> ptabs s' t' = ptabs s t') \<and> (\<forall>j. ws_used (surfs ws' j) \<longleftrightarrow> j = i \<or> ws_used (surfs ws j)) \<and>
    (\<forall>j. j \<noteq> i \<longrightarrow> surfs ws' j = surfs ws j) \<and> ws_owner (surfs ws' i) = task_id t \<and>
    (\<forall>k < (nat (w * h * 4) + 0xFFF) div 0x1000.
       pte_frame s' (task_dir t) (USER_WSURF_BASE + of_nat k * 0x1000) = Some (take_bit 20 ((pool_slot pool i + of_nat k * 0x1000) div 0x1000)))"
proof -
  define sf where "sf = (surfs ws i)\<lparr>ws_used := True, ws_alive := True, ws_owner := task_id t, ws_server := - 1,
    ws_w := w, ws_h := h, evh := 0, evt := 0, ws_name := take 15 (task_name t)\<rparr>"
  define n where "n = (nat (w * h * 4) + 0xFFF) div 0x1000"
  have wh: "0 \<le> w * h * 4" "w * h * 4 \<le> 1920000" using assms(4-7) mult_mono [of w 800 h 600] by (simp_all add: mult.commute)
  have "(of_int w * of_int h * 4 :: u32) = of_nat (nat (w * h * 4))" using wh(1) by (simp add: of_nat_nat)
  moreover have nw: "nat (w * h * 4) \<le> 1920000" using nat_mono [OF wh(2)] by (simp only: nat_numeral)
  ultimately have b: "unat (of_int w * of_int h * 4 :: u32) = nat (w * h * 4)" by (simp only: unat_of_nat32)
  have "unat (of_int w * of_int h * 4 + 0xFFF :: u32) = nat (w * h * 4) + 0xFFF" using b nw by (subst unat_add32) simp_all
  then have "unat (surf_map_bytes sf) = n * 0x1000" by (simp add: surf_map_bytes_def sf_def unat_page_base n_def)
  then have offs: "page_offs (surf_map_bytes sf) = map (\<lambda>k. of_nat k * 0x1000) [0..<n]" by (simp add: page_offs_def)
  have "nat (w * h * 4) + 0xFFF \<le> 1924095" using nw by simp
  then have n: "n \<le> 469" using div_le_mono [of "nat (w * h * 4) + 0xFFF" 1924095 "0x1000"] by (simp add: n_def)
  have "unat USER_WSURF_BASE mod 0x400000 = 0" "unat USER_WSURF_BASE mod 0x1000 = 0" "unat USER_WSURF_BASE div 0x400000 = 464"
    by (simp_all add: USER_WSURF_BASE_def)
  then have ix: "unat ((USER_WSURF_BASE + of_nat k * 0x1000) div 0x1000 div 1024) = 464" "pte_index (USER_WSURF_BASE + of_nat k * 0x1000) = k" if "k < n" for k
    using offs_index [of USER_WSURF_BASE n k] n that by simp_all
  have "unat (USER_WSURF_BASE div 0x1000 div 1024) = 464" by (simp add: USER_WSURF_BASE_def unat_div_distrib)
  then have tb: "in_table s (task_dir t) pt (USER_WSURF_BASE + of_nat k * 0x1000)" if "k < n" for k
    using ix(1) [OF that] assms(8) by (simp add: in_table_def)
  let ?os = "map (\<lambda>k. of_nat k * 0x1000) [0..<n] :: u32 list"
  have "map (\<lambda>off. pte_index (USER_WSURF_BASE + off)) ?os = [0..<n]" using ix(2) by (intro nth_equalityI) simp_all
  then have ds: "distinct (map (\<lambda>off. pte_index (USER_WSURF_BASE + off)) ?os)" by simp
  have "\<forall>off \<in> set ?os. in_table s (task_dir t) pt (USER_WSURF_BASE + off)" using tb by auto
  from map_pages_present [OF this ds, of "pool_slot pool i"] obtain s' where
    m: "map_pages s (task_dir t) USER_WSURF_BASE (pool_slot pool i) ?os = Some (Done s')" "dirs s' = dirs s" "\<forall>t'. t' \<noteq> pt \<longrightarrow> ptabs s' t' = ptabs s t'"
      "\<forall>off \<in> set ?os. \<exists>pg. ptabs s' pt (pte_index (USER_WSURF_BASE + off)) = map_pte pg (pool_slot pool i + off)" by blast
  define ws' where "ws' = (set_surf i sf ws)\<lparr>pool_mem := memset_at (pool_mem (set_surf i sf ws)) (i * unat WSURF_BYTES) 0 (nat (w * h * 4))\<rparr>"
  have "wsurf_create pool t w h ws s = Some (Done (USER_WSURF_BASE, ws', s'))"
    using assms(1-7) offs m(1) by (simp add: wsurf_create_def WSURF_MAX_W_def WSURF_MAX_H_def Let_def map_range_def obind_def sf_def ws'_def)
  moreover have "pte_frame s' (task_dir t) (USER_WSURF_BASE + of_nat k * 0x1000) = Some (take_bit 20 ((pool_slot pool i + of_nat k * 0x1000) div 0x1000))"
    if kn: "k < n" for k
  proof -
    have "in_table s' (task_dir t) pt (USER_WSURF_BASE + of_nat k * 0x1000)" using tb [OF kn] by (simp add: in_table_def m(2))
    moreover obtain pg where "ptabs s' pt (pte_index (USER_WSURF_BASE + of_nat k * 0x1000)) = map_pte pg (pool_slot pool i + of_nat k * 0x1000)"
      using bspec [OF m(4), of "of_nat k * 0x1000"] kn by auto
    ultimately show ?thesis by (simp add: pte_frame_table map_pte_def)
  qed
  ultimately show ?thesis using m(2,3) unfolding n_def
    by (intro exI [of _ ws'] exI [of _ s']) (auto simp: ws'_def set_surf_def sf_def)
qed

section \<open>Properties\<close>

definition pool_frames :: "u32 \<Rightarrow> u32 set" where
  "pool_frames pool = (\<lambda>k. (pool + of_nat k) div 0x1000) ` {..<WSURF_SLOTS * unat WSURF_BYTES}"


text \<open>
  C39: Two surfaces share a page. A surface of the largest size in the first slot and any surface in the second one are mapped so that
  the last page of the first and the first page of the second are the same frame: the slots of the pool are
  not page aligned, and the mapping drops the offset inside the page. The pixels of one client's last row are
  the pixels of the other client's first row, and both can read and write them.
\<close>

theorem wsurf_page_shared:
  assumes "pool AND 0xFFF = 0" and "unat pool + 0x600000 < 2 ^ 32"
    and "\<forall>i < WSURF_SLOTS. \<not> ws_used (surfs ws i)" and "task_id a \<noteq> task_id b" and "brk a \<noteq> 0" and "brk b \<noteq> 0"
    and "in_table s (task_dir a) ta USER_WSURF_BASE" and "in_table s (task_dir b) tb USER_WSURF_BASE" and "ta \<noteq> tb"
  shows "\<exists>ws1 s1 ws2 s2 f. wsurf_create pool a 800 600 ws s = Some (Done (USER_WSURF_BASE, ws1, s1)) \<and>
    wsurf_create pool b 800 600 ws1 s1 = Some (Done (USER_WSURF_BASE, ws2, s2)) \<and>
    pte_frame s2 (task_dir a) (USER_WSURF_BASE + 468 * 0x1000) = Some f \<and> pte_frame s2 (task_dir b) USER_WSURF_BASE = Some f"
proof -
  have sl: "[0..<WSURF_SLOTS] = [0, 1, 2]" by (simp add: WSURF_SLOTS_def upt_rec)
  have u: "\<not> ws_used (surfs ws 0)" "\<not> ws_used (surfs ws 1)" "\<not> ws_used (surfs ws 2)" using assms(3) by (simp_all add: WSURF_SLOTS_def)
  have n: "(nat (800 * 600 * 4) + 0xFFF) div 0x1000 = 469" by simp
  obtain ws1 s1 where 1: "wsurf_create pool a 800 600 ws s = Some (Done (USER_WSURF_BASE, ws1, s1))" "dirs s1 = dirs s"
      "\<forall>j. ws_used (surfs ws1 j) \<longleftrightarrow> j = 0 \<or> ws_used (surfs ws j)" "ws_owner (surfs ws1 0) = task_id a"
      "\<forall>k < 469. pte_frame s1 (task_dir a) (USER_WSURF_BASE + of_nat k * 0x1000) = Some (take_bit 20 ((pool_slot pool 0 + of_nat k * 0x1000) div 0x1000))"
    using create_maps [of ws 0 a 800 600 s ta pool] assms(5,7) u sl unfolding n by (auto simp: mine_def)
  have tb1: "in_table s1 (task_dir b) tb USER_WSURF_BASE" using assms(8) by (simp add: in_table_def 1(2))
  obtain ws2 s2 where 2: "wsurf_create pool b 800 600 ws1 s1 = Some (Done (USER_WSURF_BASE, ws2, s2))" "dirs s2 = dirs s1"
      "\<forall>t'. t' \<noteq> tb \<longrightarrow> ptabs s2 t' = ptabs s1 t'"
      "\<forall>k < 469. pte_frame s2 (task_dir b) (USER_WSURF_BASE + of_nat k * 0x1000) = Some (take_bit 20 ((pool_slot pool 1 + of_nat k * 0x1000) div 0x1000))"
    using create_maps [of ws1 1 b 800 600 s1 tb pool] assms(4,6) u sl 1(3,4) tb1 unfolding n by (auto simp: mine_def)
  let ?x = "USER_WSURF_BASE + of_nat 468 * 0x1000 :: u32"
  have "unat (?x div 0x1000 div 1024) = unat (USER_WSURF_BASE div 0x1000 div 1024)" by (simp add: USER_WSURF_BASE_def unat_div_distrib)
  then have ta: "in_table s1 (task_dir a) ta ?x" "in_table s2 (task_dir a) ta ?x" using assms(7) by (simp_all add: in_table_def 1(2) 2(2))
  have "pte_frame s2 (task_dir a) ?x = pte_frame s1 (task_dir a) ?x"
    unfolding pte_frame_table [OF ta(1)] pte_frame_table [OF ta(2)] using 2(3) assms(9) by simp
  then have fa: "pte_frame s2 (task_dir a) ?x = Some (take_bit 20 ((pool_slot pool 0 + of_nat 468 * 0x1000) div 0x1000))" using 1(5) [rule_format, of 468] by simp
  have fb: "pte_frame s2 (task_dir b) USER_WSURF_BASE = Some (take_bit 20 (pool_slot pool 1 div 0x1000))" using 2(4) [rule_format, of 0] by simp
  have "pool_slot pool 1 div 0x1000 = (pool_slot pool 0 + of_nat 468 * 0x1000) div 0x1000"
  proof -
    have z: "unat pool mod 0x1000 = 0" using assms(1) unat_page_off [of pool] by simp
    define q where "q = unat pool div 0x1000"
    have p: "unat pool = q * 0x1000" using z unfolding q_def by (simp add: minus_mod_eq_div_mult [symmetric])
    have "unat (pool + 1920000) = q * 0x1000 + 1920000" "unat (pool + 1916928) = q * 0x1000 + 1916928"
      using assms(2) p by (subst unat_add32; simp)+
    moreover have "(q * 0x1000 + 1920000) div 0x1000 = q + 468" "(q * 0x1000 + 1916928) div 0x1000 = q + 468" by simp_all
    ultimately have "unat ((pool + 1920000) div 0x1000) = unat ((pool + 1916928) div 0x1000)" by (simp add: unat_div_distrib)
    then have "(pool + 1920000) div 0x1000 = (pool + 1916928) div 0x1000" by (simp add: word_unat_eq_iff)
    then show ?thesis by (simp add: pool_slot_def WSURF_BYTES_def)
  qed
  then show ?thesis using 1(1) 2(1) fa fb by (intro exI conjI) simp_all
qed

definition demo_vm :: vm where
  "demo_vm = \<lparr>frames = (\<lambda>_. 0), nframes = 0, paging_enabled = True,
     dirs = (\<lambda>d. \<lparr>tables = (\<lambda>i. d), tables_physical = (\<lambda>_. 0), phys_addr = 0\<rparr>), ptabs = (\<lambda>_ _. page_zero),
     kernel_directory = 0, current_directory = 0, physmem = (\<lambda>_. 0), kh = demo_heap\<rparr>"

definition demo_task :: "int \<Rightarrow> u32 \<Rightarrow> task" where
  "demo_task i d = \<lparr>task_id = i, task_name = [], esp = 0, stack_mem = 0, kstack_top = 0, task_dir = d, owns_dir = True, brk = 0x60000000,
     files = (\<lambda>_. \<lparr>f_type = 0, f_node = 0, f_offset = 0, f_cid = 0, f_pipe = 0, f_sock = 0\<rparr>), task_next = 0, reap_next = 0\<rparr>"

definition demo_ws :: wsys where
  "demo_ws = \<lparr>surfs = (\<lambda>_. \<lparr>ws_used = False, ws_alive = False, ws_owner = 0, ws_server = 0, ws_w = 0, ws_h = 0, ws_name = [],
     evq = (\<lambda>_. \<lparr>wtype = 0, wa = 0, wb = 0, wc = 0\<rparr>), evh = 0, evt = 0\<rparr>), pool_mem = (\<lambda>_. 0)\<rparr>"

theorem wsurf_page_shared_witness:
  "\<exists>ws1 s1 ws2 s2 f. wsurf_create 0x200000 (demo_task 1 0x5000) 800 600 demo_ws demo_vm = Some (Done (USER_WSURF_BASE, ws1, s1)) \<and>
    wsurf_create 0x200000 (demo_task 2 0x6000) 800 600 ws1 s1 = Some (Done (USER_WSURF_BASE, ws2, s2)) \<and>
    pte_frame s2 0x5000 (USER_WSURF_BASE + 468 * 0x1000) = Some f \<and> pte_frame s2 0x6000 USER_WSURF_BASE = Some f"
  using wsurf_page_shared [of "0x200000" demo_ws "demo_task 1 0x5000" "demo_task 2 0x6000" demo_vm "0x5000" "0x6000"]
  by (simp add: demo_ws_def demo_task_def demo_vm_def in_table_def)

text \<open>
  Task 1 owns the surface of slot 0, one pixel in the first frame of the pool at \<^verbatim>\<open>0x200000\<close>, and task 2, the
  compositor, maps it too.
\<close>

definition demo_exit_ws :: wsys where
  "demo_exit_ws = set_surf 0 \<lparr>ws_used = True, ws_alive = True, ws_owner = 1, ws_server = 2, ws_w = 1, ws_h = 1, ws_name = [],
     evq = (\<lambda>_. \<lparr>wtype = 0, wa = 0, wb = 0, wc = 0\<rparr>), evh = 0, evt = 0\<rparr> demo_ws"

definition demo_exit_vm :: vm where
  "demo_exit_vm = demo_vm\<lparr>dirs := (\<lambda>d. \<lparr>tables = (\<lambda>i. if i = 464 then d else 0), tables_physical = (\<lambda>_. 0), phys_addr = 0\<rparr>),
     ptabs := (\<lambda>_ j. if j = 0 then map_pte page_zero 0x200000 else page_zero)\<rparr>"

lemma demo_exit_page:
  "pte_frame demo_exit_vm 0x5000 USER_WSURF_BASE = Some 0x200"
  "pte_frame demo_exit_vm 0x5000 a = Some f \<Longrightarrow> same_page a USER_WSURF_BASE"
proof -
  show "pte_frame demo_exit_vm 0x5000 USER_WSURF_BASE = Some 0x200"
    by (simp add: pte_frame_def page_lookup_def page_at_def demo_exit_vm_def map_pte_def USER_WSURF_BASE_def Let_def take_bit_eq_mod)
  assume "pte_frame demo_exit_vm 0x5000 a = Some f"
  then have "unat (a div 0x1000 div 1024) = 464" "unat (a div 0x1000 mod 1024) = 0"
    by (auto simp: pte_frame_def page_lookup_def page_at_def demo_exit_vm_def page_zero_def Let_def split: if_splits)
  then have "a div 0x1000 div 1024 = 464" "a div 0x1000 mod 1024 = 0" by (simp_all add: word_unat_eq_iff)
  with div_mult_mod_eq [of "a div 0x1000" 1024] show "same_page a USER_WSURF_BASE"
    by (simp add: same_page_def USER_WSURF_BASE_def)
qed


end
