(* ===== verification/Spec2Isabelle.thy ===== *)
theory Spec2Isabelle
  imports Pipe Console Keyboard Ext2_Dir_Spec Ext2_Ops_Spec Net_Input Kstring Initrd Mutex Fb Wsurf
begin

text \<open>
  Verification of the NOS kernel, a small single-core 32-bit x86 kernel.

  \<^bold>\<open>The program.\<close> A boot loader starts the kernel with a tar archive in memory. The kernel sets up a
  heap and paging, runs programs in ring 3 in address spaces of their own, switches between tasks
  at timer interrupts and at explicit yields, and serves system calls for files, pipes, terminal
  channels and TCP sockets. Files come from the archive (\<^verbatim>\<open>kernel/initrd.c\<close>) or from an ext2 volume
  (\<^verbatim>\<open>kernel/ext2.c\<close>) on a block device (\<^verbatim>\<open>kernel/block.c\<close>), both behind the node interface of
  \<^verbatim>\<open>kernel/vfs.c\<close>. Packets pass through the driver \<^verbatim>\<open>drivers/rtl8139.c\<close>, the IPv4 layer \<^verbatim>\<open>kernel/net.c\<close>
  and \<^verbatim>\<open>kernel/tcp.c\<close>.

  \<^bold>\<open>How code becomes definitions.\<close> A C structure is a record, the static variables of a file are a
  record, and each function is a definition of the same name that takes the state and returns it
  changed. A loop or a block inside a function is a helper definition of its own where a lemma
  speaks about it. Integers are words of the width they have in the source, so arithmetic wraps as
  it does there. Memory is a function from addresses or offsets to bytes (to 32-bit words in the
  heap and in physical memory); packed structures are read and written with the little-endian
  accessors of \<open>Nos_Prelude\<close>. Where the kernel stops, the result is \<open>Panic\<close>; a null pointer
  dereference is \<open>NullDeref\<close>.

  \<^bold>\<open>Interrupts and other tasks.\<close> A section between \<^verbatim>\<open>cli\<close> and \<^verbatim>\<open>sti\<close> is one atomic step. A loop that waits
  by yielding is \<open>yield_while\<close> of \<open>Yield\<close> or a partial function: the other tasks and the interrupt
  handlers act through a function \<open>env\<close> of the number of the yield, and not returning is \<open>None\<close>.
  Properties that such a call returns state what the environment has to do. Properties about
  all interleavings are about an inductive step relation whose steps are the masked sections.

  \<^bold>\<open>Hardware and callbacks.\<close> A block device is the pair of function pointers of its driver on a medium;
  the contract of a driver is a hypothesis of the properties that need it, and the
  properties about faults do without it. The network chip is a stream of register values and
  a sequence of receive ring contents, both arbitrary.

  \<^bold>\<open>The theories.\<close>

  \<^item> \<open>Nos_Prelude\<close>: integer types, buffers, fields, outcomes, and the word lemmas in the collections the
    component proofs use.
  \<^item> \<open>Ring\<close>: circular buffers. The locale \<open>ring\<close> is the contract of one component's put and get bodies,
    \<open>array_ring\<close> derives it for an array with two indices; its lemmas turn the fill and drain loops
    into list operations. The pipe, the console, the keyboard and the TCP receive queue interpret it.
  \<^item> \<open>Yield\<close>: the waiting loop and when it returns.
  \<^item> \<open>Pipe\<close> (\<^verbatim>\<open>pipe.c\<close>): first-in first-out for every interleaving of readers and writers; that the
    blocking calls return, and with what.
  \<^item> \<open>Console\<close> (\<^verbatim>\<open>console.c\<close>) and \<open>Keyboard\<close> (\<^verbatim>\<open>drivers/keyboard.c\<close>): channel table and rings, scancode
    translation and key queue.
  \<^item> \<open>Kmalloc\<close> (\<^verbatim>\<open>kmalloc.c\<close>): the chain of blocks in memory refines a list of blocks with first
    fit; the locale \<open>allocator\<close> gives isolation of the blocks handed out for the requests
    the allocators handle; two theorems show requests on which the code leaves this contract.
  \<^item> \<open>Paging\<close> (\<^verbatim>\<open>paging.c\<close>, \<^verbatim>\<open>copy_page_physical.S\<close>, the physical variants of \<^verbatim>\<open>kmalloc\<close>): frame bitmap, cloning
    and release of address spaces, the start-up mapping, and the checks on user pointers against
    the translation the processor makes.
  \<^item> \<open>Block\<close> (\<^verbatim>\<open>block.c\<close>): registry, range check, transfers.
  \<^item> \<open>Ext2_Base\<close>, \<open>Ext2_Frame\<close>, \<open>Ext2_Alloc\<close>, \<open>Ext2_Alloc_Spec\<close>, \<open>Ext2_Alloc_Faults\<close>, \<open>Ext2_File\<close>, \<open>Ext2_Write\<close>, \<open>Ext2_Dir\<close>,
    \<open>Ext2_Dir_Spec\<close>, \<open>Ext2_Ops\<close>, \<open>Ext2_Ops_Spec\<close> (\<^verbatim>\<open>ext2.c\<close>, in the order of the file): structures and inodes, what I/O may change
    under faults, the two bitmap allocators as interpretations of \<open>bitmap_allocator\<close>, reading and
    writing file data, directories as lists of records, and the callbacks with mounting. A write
    is described by the bytes of the file before and after, an insertion by what lookups return, and the
    read and write callbacks by what a read returns after a write. A callback is modelled from the moment
    it holds the volume's lock.
  \<^item> \<open>Rtl8139\<close>, \<open>Net\<close>, \<open>Tcp\<close>, \<open>Net_Input\<close> (\<^verbatim>\<open>drivers/rtl8139.c\<close>, \<^verbatim>\<open>net.c\<close>, \<^verbatim>\<open>tcp.c\<close>): one state record, extended from
    theory to theory. Output, checksums as the receiver's ones' complement sum, and the DNS client; the TCP state machine and its stream;
    then input, which calls all of them.
  \<^item> \<open>Kstring\<close> (\<^verbatim>\<open>string.c\<close>): the loops against the bulk operations the other theories use, and decimal
    number parsing.
  \<^item> \<open>Vfs\<close> (\<^verbatim>\<open>vfs.c\<close>) and \<open>Initrd\<close> (\<^verbatim>\<open>initrd.c\<close>): dispatch and path resolution; the tar file system.
  \<^item> \<open>Mutex\<close> (\<^verbatim>\<open>mutex.c\<close>): exclusion and return.
  \<^item> \<open>Vga\<close> (\<^verbatim>\<open>vga.c\<close>) and \<open>Fb\<close> (\<^verbatim>\<open>fb.c\<close>): the text screen, which refines an abstract terminal, and the frame buffer with
    its single owner; port accesses are a log.
  \<^item> \<open>Process\<close> (\<^verbatim>\<open>include/task.h\<close>): open files and tasks as data. \<open>Wsurf\<close> (\<^verbatim>\<open>wsurf.c\<close>): window surfaces mapped into
    two address spaces, what the death hook removes, and a page two surfaces share.

  \<^bold>\<open>Bounds and fuel.\<close> Recursions that count down a byte count, a list or a number of attempts are
  structural and need no fuel argument. Two groups of loops carry fuel: the file data loops,
  whose fuel is the number of bytes to move, each step moving at least one, and the scans over directory
  records, whose fuel is the number of bytes to scan, each record having at least eight. The
  properties of reading, writing, lookup and insertion give the values of these loops, so the
  fuel is enough. The polling loop of the network driver has the limit of the source.

  \<^bold>\<open>Not modelled.\<close> The start-up code and the descriptor tables (\<^verbatim>\<open>boot.S\<close>, \<^verbatim>\<open>gdt.c\<close>, \<^verbatim>\<open>idt.c\<close>, \<^verbatim>\<open>isr.c\<close>, \<^verbatim>\<open>interrupt.S\<close>,
  \<^verbatim>\<open>pic.c\<close>, \<^verbatim>\<open>pci.c\<close>) consist of port and register accesses with no result the other parts compute
  with. \<^verbatim>\<open>main.c\<close> and \<^verbatim>\<open>kernel.c\<close> call the initialisers and print. The drivers \<^verbatim>\<open>ata.c\<close>, \<^verbatim>\<open>mouse.c\<close>, \<^verbatim>\<open>rtc.c\<close>
  and \<^verbatim>\<open>serial.c\<close> are port I/O; the contract of a disk driver appears as the hypothesis on block devices. The PCI probe and the register
  programming of \<^verbatim>\<open>rtl8139_init\<close> are left out for the same reason. The user programs under \<^verbatim>\<open>user/\<close> run outside
  the kernel and use it through system calls only. The TLS library under \<^verbatim>\<open>third_party/\<close> is not part of
  the repository.
\<close>

end
